(* ===== verification/Prelude.thy ===== *)
theory Prelude
  imports Main "HOL-Library.Word" "HOL-Library.Monad_Syntax"
begin

text \<open>
  Shared ground of the development: the machine types of the sources
  (\<^verbatim>\<open>char\<close> buffers, \<^verbatim>\<open>uint32_t\<close>,
  \<^verbatim>\<open>uint64_t\<close> and \<^verbatim>\<open>size_t\<close>), the little-endian byte image of an
  integer, bounded reads and writes of a memory object, and the generic lemmas on lists,
  options and words that the component theories use.  A read or a write outside its object is
  undefined behaviour in C++; it is the value \<^term>\<open>None\<close> here.
\<close>

named_theorems codec_simps \<open>sizes and images of the wire formats\<close>

type_synonym byte = "8 word"
type_synonym u32 = "32 word"
type_synonym u64 = "64 word"

section \<open>Little-endian images of integers\<close>

fun le_enc :: "nat \<Rightarrow> nat \<Rightarrow> byte list" where
  "le_enc 0 v = []"
| "le_enc (Suc n) v = word_of_nat v # le_enc n (v div 256)"

fun le_dec :: "byte list \<Rightarrow> nat" where
  "le_dec [] = 0"
| "le_dec (b # bs) = unat b + 256 * le_dec bs"

section \<open>Bounded access to one memory object\<close>

definition poke :: "byte list \<Rightarrow> nat \<Rightarrow> byte list \<Rightarrow> byte list option" where
  "poke m p bs =
     (if p + length bs \<le> length m
      then Some (take p m @ bs @ drop (p + length bs) m) else None)"

definition peek :: "byte list \<Rightarrow> nat \<Rightarrow> nat \<Rightarrow> byte list option" where
  "peek m p n = (if p + n \<le> length m then Some (take n (drop p m)) else None)"

section \<open>Lemmas\<close>

lemma unat_bound: "unat (w :: 'a::len word) < 2 ^ LENGTH('a)"
  by (rule unsigned_less)

lemma length_le_enc [simp]: "length (le_enc n v) = n"
  by (induction n arbitrary: v) auto

lemma le_dec_bound: "le_dec bs < 256 ^ length bs"
proof (induction bs)
  case Nil
  then show ?case by simp
next
  case (Cons b bs)
  have "unat b < 256" using unat_bound [of b] by simp
  with Cons show ?case by simp
qed

lemma le_dec_enc: "le_dec (le_enc n v) = v mod 256 ^ n"
proof (induction n arbitrary: v)
  case 0
  then show ?case by simp
next
  case (Suc n)
  have "unat (word_of_nat v :: byte) = v mod 256"
    by (simp add: unsigned_of_nat take_bit_eq_mod)
  with Suc show ?case
    by (simp add: mod_mult2_eq)
qed

lemma le_enc_dec: "length bs = n \<Longrightarrow> le_enc n (le_dec bs) = bs"
proof (induction bs arbitrary: n)
  case Nil
  then show ?case by simp
next
  case (Cons b bs)
  have b: "unat b < 256" using unat_bound [of b] by simp
  then have "(unat b + 256 * le_dec bs) div 256 = le_dec bs" by simp
  moreover have "(word_of_nat (unat b + 256 * le_dec bs) :: byte) = b"
  proof -
    have z: "(256 :: byte) = 0" by simp
    show ?thesis by (simp only: of_nat_add of_nat_mult of_nat_numeral z) simp
  qed
  ultimately show ?case using Cons by auto
qed

lemma le_dec_enc_u32 [simp]: "le_dec (le_enc 4 (unat (w :: u32))) = unat w"
  using unat_bound [of w] by (simp add: le_dec_enc)

lemma le_dec_enc_u64 [simp]: "le_dec (le_enc 8 (unat (w :: u64))) = unat w"
  using unat_bound [of w] by (simp add: le_dec_enc)

lemma poke_append [simp]:
  "length bs = length ys \<Longrightarrow> poke (xs @ ys @ zs) (length xs) bs = Some (xs @ bs @ zs)"
  by (simp add: poke_def)

lemma peek_append [simp]: "peek (xs @ ys @ zs) (length xs) (length ys) = Some ys"
  by (simp add: peek_def)

lemma length_poke: "poke m p bs = Some m' \<Longrightarrow> length m' = length m"
  by (auto simp: poke_def split: if_splits)

end
