(* ===== verification/Wire.thy ===== *)
theory Wire
  imports Prelude
begin

text \<open>
  The primitive wire operations of \<^verbatim>\<open>src/ocssd_server.h\<close>
  (\<^verbatim>\<open>get_header\<close>, \<^verbatim>\<open>serialize_data4/8\<close>,
  \<^verbatim>\<open>deserialize_data4/8\<close>) and the two loop shapes every message format is built
  from.  The C++ functions take the cursor as a reference to a pointer (\<^verbatim>\<open>char *&\<close>);
  a \<open>cursor\<close> is that pointer together with the object it points into, and a function that
  advances it returns the new cursor.  An access outside the object is \<^term>\<open>None\<close>.
  The locale \<open>codec\<close> states what a message type promises to its users (its images on the
  wire, their size, and that reading an image gives the value back), and the facts about the
  loops over counted sequences are proved once inside it.
\<close>

section \<open>Cursors\<close>

record cursor =
  buf :: "byte list"
  pos :: nat

text \<open>\<open>put c bs\<close> stores \<open>bs\<close> at the cursor and moves it behind them; \<open>skip\<close> only moves it
  (\<^verbatim>\<open>p += n\<close>, defined up to one past the end of the object).\<close>

definition put :: "cursor \<Rightarrow> byte list \<Rightarrow> cursor option" where
  "put c bs = do {
     m \<leftarrow> poke (buf c) (pos c) bs;
     Some (c\<lparr>buf := m, pos := pos c + length bs\<rparr>) }"

definition skip :: "cursor \<Rightarrow> nat \<Rightarrow> cursor option" where
  "skip c n = (if pos c + n \<le> length (buf c) then Some (c\<lparr>pos := pos c + n\<rparr>) else None)"

abbreviation start :: "byte list \<Rightarrow> cursor" where
  "start m \<equiv> \<lparr>buf = m, pos = 0\<rparr>"

section \<open>The primitive operations\<close>

definition get_header :: "byte list \<Rightarrow> u32 option" where
  "get_header buffer = do {
     data \<leftarrow> peek buffer 0 4;
     Some (word_of_nat (le_dec data)) }"

definition serialize_data4 :: "cursor \<Rightarrow> u32 \<Rightarrow> cursor option" where
  "serialize_data4 p data = do {
     m \<leftarrow> poke (buf p) (pos p) (le_enc 4 (unat data));
     Some (p\<lparr>buf := m, pos := pos p + 4\<rparr>) }"

definition deserialize_data4 :: "cursor \<Rightarrow> (u32 \<times> cursor) option" where
  "deserialize_data4 p = do {
     data \<leftarrow> peek (buf p) (pos p) 4;
     Some (word_of_nat (le_dec data), p\<lparr>pos := pos p + 4\<rparr>) }"

definition serialize_data8 :: "cursor \<Rightarrow> u64 \<Rightarrow> cursor option" where
  "serialize_data8 p data = do {
     m \<leftarrow> poke (buf p) (pos p) (le_enc 8 (unat data));
     Some (p\<lparr>buf := m, pos := pos p + 8\<rparr>) }"

definition deserialize_data8 :: "cursor \<Rightarrow> (u64 \<times> cursor) option" where
  "deserialize_data8 p = do {
     data \<leftarrow> peek (buf p) (pos p) 8;
     Some (word_of_nat (le_dec data), p\<lparr>pos := pos p + 8\<rparr>) }"

section \<open>Loops over sequences\<close>

text \<open>\<open>serialize_all\<close> is \<^verbatim>\<open>for (x : xs) x->serialize(p)\<close>; \<open>deserialize_n\<close> is
  \<^verbatim>\<open>for (i = 0; i < n; i++) v.push_back(... p ...)\<close>.\<close>

fun serialize_all :: "(cursor \<Rightarrow> 'a \<Rightarrow> cursor option) \<Rightarrow> cursor \<Rightarrow> 'a list \<Rightarrow> cursor option" where
  "serialize_all ser p [] = Some p"
| "serialize_all ser p (x # xs) = do { p \<leftarrow> ser p x; serialize_all ser p xs }"

fun deserialize_n ::
  "(cursor \<Rightarrow> ('a \<times> cursor) option) \<Rightarrow> nat \<Rightarrow> cursor \<Rightarrow> ('a list \<times> cursor) option" where
  "deserialize_n des 0 p = Some ([], p)"
| "deserialize_n des (Suc n) p = do {
     (x, p) \<leftarrow> des p;
     (xs, p) \<leftarrow> deserialize_n des n p;
     Some (x # xs, p) }"

text \<open>\<open>imgs img xs bs\<close>: \<open>bs\<close> is the concatenation of images of the elements of \<open>xs\<close>.\<close>

fun imgs :: "('a \<Rightarrow> byte list \<Rightarrow> bool) \<Rightarrow> 'a list \<Rightarrow> byte list \<Rightarrow> bool" where
  "imgs img [] bs = (bs = [])"
| "imgs img (x # xs) bs = (\<exists>a b. bs = a @ b \<and> img x a \<and> imgs img xs b)"

text \<open>\<open>reads c bs\<close>: the bytes \<open>bs\<close> stand at the cursor.\<close>

definition reads :: "cursor \<Rightarrow> byte list \<Rightarrow> bool" where
  "reads c bs \<longleftrightarrow> peek (buf c) (pos c) (length bs) = Some bs"

abbreviation advance :: "cursor \<Rightarrow> nat \<Rightarrow> cursor" where
  "advance c n \<equiv> c\<lparr>pos := pos c + n\<rparr>"

section \<open>Writing and reading back\<close>

lemma put_bind_put: "Option.bind (put c xs) (\<lambda>c. put c ys) = put c (xs @ ys)"
proof (cases "pos c + length (xs @ ys) \<le> length (buf c)")
  case True
  then show ?thesis by (simp add: put_def poke_def ac_simps)
next
  case False
  then show ?thesis by (auto simp: put_def poke_def)
qed

lemma put_bind_bind [codec_simps]:
  "Option.bind (put c xs) (\<lambda>c. Option.bind (put c ys) f) = Option.bind (put c (xs @ ys)) f"
  by (simp add: put_bind_put [symmetric])

lemma put_Some_iff: "(\<exists>c'. put c bs = Some c') \<longleftrightarrow> pos c + length bs \<le> length (buf c)"
  by (auto simp: put_def poke_def)

lemma put_None_iff: "put c bs = None \<longleftrightarrow> length (buf c) < pos c + length bs"
  by (auto simp: put_def poke_def)

lemma put_Nil: "pos c \<le> length (buf c) \<Longrightarrow> put c [] = Some c"
  by (simp add: put_def poke_def)

lemma put_SomeD:
  assumes "put c bs = Some c'"
  shows "pos c' = pos c + length bs" "length (buf c') = length (buf c)"
    "pos c' \<le> length (buf c')" "reads (c'\<lparr>pos := pos c\<rparr>) bs"
    "take (pos c) (buf c') = take (pos c) (buf c)"
  using assms by (auto simp: put_def poke_def reads_def peek_def split: if_splits)

lemma put_bind_exI:
  assumes "\<And>c1. put c a = Some c1 \<Longrightarrow> \<exists>b. P b \<and> F c1 = put c1 b" and "\<exists>b. P b"
  shows "\<exists>b. P b \<and> Option.bind (put c a) F = put c (a @ b)"
proof (cases "put c a")
  case None
  from assms(2) obtain b where "P b" by blast
  moreover from None have "put c (a @ b) = None" by (simp add: put_None_iff)
  ultimately show ?thesis using None by auto
next
  case (Some c1)
  with assms(1) obtain b where "P b" "F c1 = put c1 b" by blast
  with Some show ?thesis using put_bind_put [of c a b] by auto
qed

text \<open>A \<^verbatim>\<open>memcpy\<close> that does not move the cursor, followed by a move over the copy and
  its padding, writes the copy and the padding that was there.\<close>

lemma memcpy_skip_put:
  assumes "length xs \<le> n"
  shows "\<exists>pad. length pad = n - length xs \<and>
    Option.bind (poke (buf c) (pos c) xs) (\<lambda>m. skip (c\<lparr>buf := m\<rparr>) n) = put c (xs @ pad)"
proof (cases "pos c + n \<le> length (buf c)")
  case True
  let ?pad = "take (n - length xs) (drop (pos c + length xs) (buf c))"
  have "n - length xs + (pos c + length xs) = pos c + n" using assms by simp
  then have "?pad @ drop (pos c + n) (buf c) = drop (pos c + length xs) (buf c)"
    using append_take_drop_id [of "n - length xs" "drop (pos c + length xs) (buf c)"]
    by (simp only: drop_drop)
  moreover have "length ?pad = n - length xs" using True by simp
  ultimately show ?thesis using True assms
    by (intro exI [of _ ?pad]) (simp add: poke_def skip_def put_def)
next
  case False
  with assms have "put c (xs @ replicate (n - length xs) 0) = None" by (simp add: put_None_iff)
  moreover have "Option.bind (poke (buf c) (pos c) xs) (\<lambda>m. skip (c\<lparr>buf := m\<rparr>) n) = None"
    using False by (auto simp: skip_def poke_def)
  ultimately show ?thesis by (intro exI [of _ "replicate (n - length xs) 0"]) simp
qed

lemma reads_append:
  "reads c (xs @ ys) \<longleftrightarrow> reads c xs \<and> reads (advance c (length xs)) ys"
proof -
  have "take (length xs + length ys) (drop (pos c) (buf c)) =
      take (length xs) (drop (pos c) (buf c)) @
      take (length ys) (drop (pos c + length xs) (buf c))"
    by (simp add: take_add add.commute)
  then show ?thesis
    by (auto simp: reads_def peek_def append_eq_append_conv split: if_splits)
qed

lemma serialize_data4_put [codec_simps]: "serialize_data4 c x = put c (le_enc 4 (unat x))"
  by (simp add: serialize_data4_def put_def)

lemma serialize_data8_put [codec_simps]: "serialize_data8 c x = put c (le_enc 8 (unat x))"
  by (simp add: serialize_data8_def put_def)

lemma deserialize_data4_reads:
  "reads c (le_enc 4 (unat x)) \<Longrightarrow> deserialize_data4 c = Some (x, advance c 4)"
  by (simp add: deserialize_data4_def reads_def)

lemma deserialize_data8_reads:
  "reads c (le_enc 8 (unat x)) \<Longrightarrow> deserialize_data8 c = Some (x, advance c 8)"
  by (simp add: deserialize_data8_def reads_def)

lemma deserialize_data4_iff:
  "deserialize_data4 c = Some (x, c') \<longleftrightarrow> reads c (le_enc 4 (unat x)) \<and> c' = advance c 4"
proof
  assume "deserialize_data4 c = Some (x, c')"
  then obtain bs where bs: "peek (buf c) (pos c) 4 = Some bs" "x = word_of_nat (le_dec bs)"
    "c' = advance c 4" by (auto simp: deserialize_data4_def Option.bind_eq_Some_conv)
  then have len: "length bs = 4" by (auto simp: peek_def split: if_splits)
  with le_dec_bound [of bs] have "unat x = le_dec bs" using bs(2)
    by (simp add: unsigned_of_nat take_bit_eq_mod)
  with bs len show "reads c (le_enc 4 (unat x)) \<and> c' = advance c 4"
    by (simp add: reads_def le_enc_dec)
next
  assume "reads c (le_enc 4 (unat x)) \<and> c' = advance c 4"
  then show "deserialize_data4 c = Some (x, c')" by (simp add: deserialize_data4_reads)
qed

lemma deserialize_data8_iff:
  "deserialize_data8 c = Some (x, c') \<longleftrightarrow> reads c (le_enc 8 (unat x)) \<and> c' = advance c 8"
proof
  assume "deserialize_data8 c = Some (x, c')"
  then obtain bs where bs: "peek (buf c) (pos c) 8 = Some bs" "x = word_of_nat (le_dec bs)"
    "c' = advance c 8" by (auto simp: deserialize_data8_def Option.bind_eq_Some_conv)
  then have len: "length bs = 8" by (auto simp: peek_def split: if_splits)
  with le_dec_bound [of bs] have "unat x = le_dec bs" using bs(2)
    by (simp add: unsigned_of_nat take_bit_eq_mod)
  with bs len show "reads c (le_enc 8 (unat x)) \<and> c' = advance c 8"
    by (simp add: reads_def le_enc_dec)
next
  assume "reads c (le_enc 8 (unat x)) \<and> c' = advance c 8"
  then show "deserialize_data8 c = Some (x, c')" by (simp add: deserialize_data8_reads)
qed

lemma deserialize_data4_None: "deserialize_data4 c = None \<longleftrightarrow> length (buf c) < pos c + 4"
  by (auto simp: deserialize_data4_def peek_def)

lemma deserialize_data8_None: "deserialize_data8 c = None \<longleftrightarrow> length (buf c) < pos c + 8"
  by (auto simp: deserialize_data8_def peek_def)

lemma reads_start_iff: "reads (start m) bs \<longleftrightarrow> take (length bs) m = bs"
  by (auto simp: reads_def peek_def dest: arg_cong [of _ _ length])

section \<open>The interface of a message type\<close>

locale codec =
  fixes ser :: "cursor \<Rightarrow> 'a \<Rightarrow> cursor option"
    and des :: "cursor \<Rightarrow> ('a \<times> cursor) option"
    and img :: "'a \<Rightarrow> byte list \<Rightarrow> bool"
    and width :: "'a \<Rightarrow> nat"
    and ok :: "'a \<Rightarrow> bool"
  assumes ser_put: "ok x \<Longrightarrow> \<exists>bs. img x bs \<and> ser c x = put c bs"
    and img_width: "ok x \<Longrightarrow> img x bs \<Longrightarrow> length bs = width x"
    and des_img: "ok x \<Longrightarrow> img x bs \<Longrightarrow> reads c bs \<Longrightarrow> des c = Some (x, advance c (length bs))"
begin

lemma img_exists: "ok x \<Longrightarrow> \<exists>bs. img x bs"
  using ser_put by blast

lemma ser_defined: "ok x \<Longrightarrow> (\<exists>c'. ser c x = Some c') \<longleftrightarrow> pos c + width x \<le> length (buf c)"
  using ser_put [of x c] img_width [of x] put_Some_iff by metis

lemma ser_overflow: "ok x \<Longrightarrow> ser c x = None \<longleftrightarrow> length (buf c) < pos c + width x"
  using ser_put [of x c] img_width [of x] put_None_iff by metis

lemma ser_pos:
  "ok x \<Longrightarrow> ser c x = Some c' \<Longrightarrow> pos c' = pos c + width x \<and> length (buf c') = length (buf c)"
  using ser_put [of x c] img_width [of x] put_SomeD(1,2) by metis

lemma ser_des:
  assumes "ok x" and "ser c x = Some c'"
  shows "des (c'\<lparr>pos := pos c\<rparr>) = Some (x, c')"
proof -
  obtain bs where bs: "img x bs" "put c bs = Some c'"
    using ser_put [OF assms(1)] assms(2) by metis
  have "des (c'\<lparr>pos := pos c\<rparr>) = Some (x, advance (c'\<lparr>pos := pos c\<rparr>) (length bs))"
    by (rule des_img [OF assms(1) bs(1) put_SomeD(4) [OF bs(2)]])
  then show ?thesis using put_SomeD(1) [OF bs(2)] by simp
qed

lemma imgs_exists: "list_all ok xs \<Longrightarrow> \<exists>bs. imgs img xs bs"
proof (induction xs)
  case Nil
  then show ?case by simp
next
  case (Cons x xs)
  then obtain a b where "img x a" "imgs img xs b" using img_exists [of x] by auto
  then have "imgs img (x # xs) (a @ b)" by auto
  then show ?case by blast
qed

lemma imgs_width:
  "list_all ok xs \<Longrightarrow> imgs img xs bs \<Longrightarrow> length bs = sum_list (map width xs)"
  by (induction xs arbitrary: bs) (auto simp: img_width)

lemma serialize_all_put:
  "list_all ok xs \<Longrightarrow> pos c \<le> length (buf c) \<Longrightarrow>
     \<exists>bs. imgs img xs bs \<and> serialize_all ser c xs = put c bs"
proof (induction xs arbitrary: c)
  case Nil
  then show ?case by (simp add: put_Nil)
next
  case (Cons x xs)
  then obtain a where a: "img x a" "ser c x = put c a"
    using ser_put [of x c] by auto
  have "\<exists>b. imgs img xs b \<and> Option.bind (put c a) (\<lambda>p. serialize_all ser p xs) = put c (a @ b)"
    using Cons imgs_exists [of xs] by (intro put_bind_exI) (auto dest: put_SomeD(3))
  with a show ?case by auto
qed

lemma deserialize_n_imgs:
  "list_all ok xs \<Longrightarrow> imgs img xs bs \<Longrightarrow> reads c bs \<Longrightarrow> length xs = n \<Longrightarrow>
     deserialize_n des n c = Some (xs, advance c (length bs))"
proof (induction xs arbitrary: bs c n)
  case Nil
  then show ?case by simp
next
  case (Cons x xs)
  then obtain a b m where bs: "bs = a @ b" "img x a" "imgs img xs b" and n: "n = Suc m"
    by auto
  with Cons.prems have r: "reads c a" "reads (advance c (length a)) b" and o: "ok x" "list_all ok xs"
    by (auto simp: reads_append)
  have "des c = Some (x, advance c (length a))"
    by (rule des_img [OF o(1) bs(2) r(1)])
  moreover have "deserialize_n des m (advance c (length a)) =
      Some (xs, advance (advance c (length a)) (length b))"
    using Cons.IH [OF o(2) bs(3) r(2)] Cons.prems(4) n by simp
  ultimately show ?case using bs n by (simp add: add.assoc)
qed

end

interpretation data4: codec serialize_data4 deserialize_data4
  "\<lambda>x bs. bs = le_enc 4 (unat x)" "\<lambda>_. 4" "\<lambda>_. True"
  by unfold_locales (auto simp: codec_simps deserialize_data4_reads)

interpretation data8: codec serialize_data8 deserialize_data8
  "\<lambda>x bs. bs = le_enc 8 (unat x)" "\<lambda>_. 8" "\<lambda>_. True"
  by unfold_locales (auto simp: codec_simps deserialize_data8_reads)

end
