(* ===== verification/VSSD.thy ===== *)
theory VSSD
  imports Wire
begin

text \<open>
  The description of a virtual SSD that the server sends to its client
  (\<^verbatim>\<open>src/ocssd_server.h\<close>: \<^verbatim>\<open>virtual_ocssd_lun\<close>,
  \<^verbatim>\<open>virtual_ocssd_channel\<close>, \<^verbatim>\<open>virtual_ocssd_unit\<close>,
  \<^verbatim>\<open>virtual_ocssd\<close>) and its serialization.  Every \<^verbatim>\<open>serialize\<close> and
  \<^verbatim>\<open>deserialize\<close> returns, as in the code, the number of bytes it moved the cursor.
  The locale \<open>codec\<close> is interpreted on each of the three nested formats; the theorems give the
  exact size of a message, when writing it overflows its buffer, and the round trip.  The
  diagnostics printed by the sources are left out.
\<close>

section \<open>Data\<close>

record virtual_ocssd_lun =
  vl_lun_id :: u32
  vl_block_start :: u32
  vl_num_blocks :: u32

record virtual_ocssd_channel =
  vc_channel_id :: u32
  vc_shared :: u32
  vc_total_blocks :: u32
  vc_num_luns :: u32
  vc_luns :: "virtual_ocssd_lun list"

text \<open>The fields of liblightnvm's \<^verbatim>\<open>struct nvm_geo\<close> that the sources use.\<close>

record nvm_geo =
  nchannels :: u64
  nluns :: u64
  nplanes :: u64
  nblocks :: u64
  npages :: u64
  nsectors :: u64
  page_nbytes :: u64
  sector_nbytes :: u64
  meta_nbytes :: u64

record virtual_ocssd_unit =
  vu_dev_name :: string
  vu_geo :: nvm_geo
  vu_channels :: "virtual_ocssd_channel list"

record virtual_ocssd =
  v_id :: u32
  v_units :: "virtual_ocssd_unit list"

definition SERIALIZE_MAGIC :: u32 where "SERIALIZE_MAGIC = 0x6502"

section \<open>Strings in memory\<close>

definition byte_of_char :: "char \<Rightarrow> byte" where
  "byte_of_char c = word_of_nat (of_char c)"

definition char_of_byte :: "byte \<Rightarrow> char" where
  "char_of_byte b = char_of (unat b)"

text \<open>\<open>c_str s\<close> are the bytes behind \<^verbatim>\<open>s.c_str()\<close>; \<open>c_string m p\<close> is the
  \<^verbatim>\<open>std::string\<close> built from a \<^verbatim>\<open>const char *\<close> that points to offset
  \<open>p\<close>: the characters up to the first NUL, undefined if the object holds none.\<close>

definition c_str :: "string \<Rightarrow> byte list" where
  "c_str s = map byte_of_char s @ [0]"

fun until_nul :: "byte list \<Rightarrow> string option" where
  "until_nul [] = None"
| "until_nul (b # bs) = (if b = 0 then Some [] else do { s \<leftarrow> until_nul bs; Some (char_of_byte b # s) })"

definition c_string :: "byte list \<Rightarrow> nat \<Rightarrow> string option" where
  "c_string m p = until_nul (drop p m)"

section \<open>LUNs\<close>

definition virtual_ocssd_lun_new :: "u32 \<Rightarrow> u32 \<Rightarrow> u32 \<Rightarrow> virtual_ocssd_lun" where
  "virtual_ocssd_lun_new lun_id block_start num_blocks =
     \<lparr>vl_lun_id = lun_id, vl_block_start = block_start, vl_num_blocks = num_blocks\<rparr>"

definition virtual_ocssd_lun_serialize :: "cursor \<Rightarrow> virtual_ocssd_lun \<Rightarrow> (cursor \<times> nat) option" where
  "virtual_ocssd_lun_serialize buffer l = do {
     p \<leftarrow> serialize_data4 buffer (vl_lun_id l);
     p \<leftarrow> serialize_data4 p (vl_block_start l);
     p \<leftarrow> serialize_data4 p (vl_num_blocks l);
     Some (p, pos p - pos buffer) }"

definition virtual_ocssd_lun_read :: "cursor \<Rightarrow> (virtual_ocssd_lun \<times> cursor) option" where
  "virtual_ocssd_lun_read p = do {
     (lun_id, p) \<leftarrow> deserialize_data4 p;
     (block_start, p) \<leftarrow> deserialize_data4 p;
     (num_blocks, p) \<leftarrow> deserialize_data4 p;
     Some (\<lparr>vl_lun_id = lun_id, vl_block_start = block_start, vl_num_blocks = num_blocks\<rparr>, p) }"

section \<open>Channels\<close>

definition virtual_ocssd_channel_new :: "u32 \<Rightarrow> u32 \<Rightarrow> u32 \<Rightarrow> u32 \<Rightarrow> virtual_ocssd_channel" where
  "virtual_ocssd_channel_new channel_id shared total_blocks num_luns =
     \<lparr>vc_channel_id = channel_id, vc_shared = shared, vc_total_blocks = total_blocks,
      vc_num_luns = num_luns, vc_luns = []\<rparr>"

type_synonym alloc_unit = "u64 \<times> u64 \<times> u64"

text \<open>The loop body of the constructor that takes the allocated units; the
  \<^verbatim>\<open>size_t\<close> components are narrowed to 32 bits.\<close>

fun add_alloc_unit :: "alloc_unit \<Rightarrow> virtual_ocssd_channel \<Rightarrow> virtual_ocssd_channel" where
  "add_alloc_unit (lun, first, n) ch =
     (let vlun = virtual_ocssd_lun_new (ucast lun) (ucast first) (ucast n)
      in ch\<lparr>vc_luns := vc_luns ch @ [vlun],
            vc_total_blocks := vc_total_blocks ch + vl_num_blocks vlun,
            vc_num_luns := vc_num_luns ch + 1\<rparr>)"

definition virtual_ocssd_channel_of_units :: "u32 \<Rightarrow> u32 \<Rightarrow> alloc_unit list \<Rightarrow> virtual_ocssd_channel" where
  "virtual_ocssd_channel_of_units channel_id shared alloc_units =
     fold add_alloc_unit alloc_units (virtual_ocssd_channel_new channel_id shared 0 0)"

definition channel_add :: "virtual_ocssd_channel \<Rightarrow> virtual_ocssd_lun \<Rightarrow> virtual_ocssd_channel" where
  "channel_add ch lun = ch\<lparr>vc_luns := vc_luns ch @ [lun]\<rparr>"

definition is_shared :: "virtual_ocssd_channel \<Rightarrow> bool" where
  "is_shared ch \<longleftrightarrow> vc_shared ch > 0"

definition channel_generate_units :: "virtual_ocssd_channel \<Rightarrow> u32 list \<Rightarrow> u32 list" where
  "channel_generate_units ch units =
     (if vc_shared ch = 1 then units @ map vl_block_start (vc_luns ch)
      else units @ replicate (unat (vc_num_luns ch)) 0)"

definition virtual_ocssd_channel_serialize ::
  "cursor \<Rightarrow> virtual_ocssd_channel \<Rightarrow> (cursor \<times> nat) option" where
  "virtual_ocssd_channel_serialize buffer ch = do {
     p \<leftarrow> serialize_data4 buffer (vc_channel_id ch);
     p \<leftarrow> serialize_data4 p (vc_shared ch);
     p \<leftarrow> serialize_data4 p (vc_total_blocks ch);
     p \<leftarrow> serialize_data4 p (vc_num_luns ch);
     p \<leftarrow> (if vc_shared ch = 1
          then serialize_all (\<lambda>p l. map_option fst (virtual_ocssd_lun_serialize p l)) p (vc_luns ch)
          else Some p);
     Some (p, pos p - pos buffer) }"

definition virtual_ocssd_channel_deserialize ::
  "virtual_ocssd_channel \<Rightarrow> cursor \<Rightarrow> (virtual_ocssd_channel \<times> cursor \<times> nat) option" where
  "virtual_ocssd_channel_deserialize ch buffer = do {
     (channel_id, p) \<leftarrow> deserialize_data4 buffer;
     (shared, p) \<leftarrow> deserialize_data4 p;
     (total_blocks, p) \<leftarrow> deserialize_data4 p;
     (num_luns, p) \<leftarrow> deserialize_data4 p;
     (luns, p) \<leftarrow> (if shared = 1 then deserialize_n virtual_ocssd_lun_read (unat num_luns) p
                  else Some ([], p));
     Some (ch\<lparr>vc_channel_id := channel_id, vc_shared := shared, vc_total_blocks := total_blocks,
              vc_num_luns := num_luns, vc_luns := vc_luns ch @ luns\<rparr>,
           p, pos p - pos buffer) }"

section \<open>Units\<close>

definition virtual_ocssd_unit_new :: "string \<Rightarrow> nvm_geo \<Rightarrow> virtual_ocssd_unit" where
  "virtual_ocssd_unit_new dev_name geo = \<lparr>vu_dev_name = dev_name, vu_geo = geo, vu_channels = []\<rparr>"

text \<open>The default constructor leaves the geometry's content indeterminate;
  \<^verbatim>\<open>deserialize_geo\<close> overwrites every field before any is read.\<close>

definition virtual_ocssd_unit_default :: virtual_ocssd_unit where
  "virtual_ocssd_unit_default =
     \<lparr>vu_dev_name = [],
      vu_geo = \<lparr>nchannels = 0, nluns = 0, nplanes = 0, nblocks = 0, npages = 0, nsectors = 0,
                page_nbytes = 0, sector_nbytes = 0, meta_nbytes = 0\<rparr>,
      vu_channels = []\<rparr>"

definition unit_add :: "virtual_ocssd_unit \<Rightarrow> virtual_ocssd_channel \<Rightarrow> virtual_ocssd_unit" where
  "unit_add u channel = u\<lparr>vu_channels := vu_channels u @ [channel]\<rparr>"

definition unit_generate_units :: "virtual_ocssd_unit \<Rightarrow> u32 list \<Rightarrow> u32 list" where
  "unit_generate_units u units = fold channel_generate_units (vu_channels u) units"

definition serialize_geo :: "cursor \<Rightarrow> nvm_geo \<Rightarrow> (cursor \<times> nat) option" where
  "serialize_geo buffer geo = do {
     p \<leftarrow> serialize_data8 buffer (nchannels geo);
     p \<leftarrow> serialize_data8 p (nluns geo);
     p \<leftarrow> serialize_data8 p (nplanes geo);
     p \<leftarrow> serialize_data8 p (nblocks geo);
     p \<leftarrow> serialize_data8 p (npages geo);
     p \<leftarrow> serialize_data8 p (nsectors geo);
     p \<leftarrow> serialize_data8 p (page_nbytes geo);
     p \<leftarrow> serialize_data8 p (sector_nbytes geo);
     p \<leftarrow> serialize_data8 p (meta_nbytes geo);
     Some (p, pos p - pos buffer) }"

definition deserialize_geo :: "cursor \<Rightarrow> (nvm_geo \<times> cursor \<times> nat) option" where
  "deserialize_geo buffer = do {
     (a, p) \<leftarrow> deserialize_data8 buffer;
     (b, p) \<leftarrow> deserialize_data8 p;
     (c, p) \<leftarrow> deserialize_data8 p;
     (d, p) \<leftarrow> deserialize_data8 p;
     (e, p) \<leftarrow> deserialize_data8 p;
     (f, p) \<leftarrow> deserialize_data8 p;
     (g, p) \<leftarrow> deserialize_data8 p;
     (h, p) \<leftarrow> deserialize_data8 p;
     (i, p) \<leftarrow> deserialize_data8 p;
     Some (\<lparr>nchannels = a, nluns = b, nplanes = c, nblocks = d, npages = e, nsectors = f,
            page_nbytes = g, sector_nbytes = h, meta_nbytes = i\<rparr>, p, pos p - pos buffer) }"

text \<open>The name is copied with its NUL, then the cursor moves on to the next multiple of four;
  the padding keeps whatever the buffer held.\<close>

definition virtual_ocssd_unit_serialize ::
  "cursor \<Rightarrow> virtual_ocssd_unit \<Rightarrow> (cursor \<times> nat) option" where
  "virtual_ocssd_unit_serialize buffer u =
     (let len = length (vu_dev_name u) + 1 in do {
        p \<leftarrow> serialize_data4 buffer (word_of_nat len);
        m \<leftarrow> poke (buf p) (pos p) (c_str (vu_dev_name u));
        p \<leftarrow> skip (p\<lparr>buf := m\<rparr>) ((len + 3) div 4 * 4);
        (p, _) \<leftarrow> serialize_geo p (vu_geo u);
        p \<leftarrow> serialize_data4 p (word_of_nat (length (vu_channels u)));
        p \<leftarrow> serialize_all (\<lambda>p ch. map_option fst (virtual_ocssd_channel_serialize p ch)) p
               (vu_channels u);
        Some (p, pos p - pos buffer) })"

definition read_new_channel :: "cursor \<Rightarrow> (virtual_ocssd_channel \<times> cursor) option" where
  "read_new_channel p = do {
     (ch, p, _) \<leftarrow> virtual_ocssd_channel_deserialize (virtual_ocssd_channel_new 0 0 0 0) p;
     Some (ch, p) }"

definition virtual_ocssd_unit_deserialize ::
  "virtual_ocssd_unit \<Rightarrow> cursor \<Rightarrow> (virtual_ocssd_unit \<times> cursor \<times> nat) option" where
  "virtual_ocssd_unit_deserialize u buffer = do {
     (name_len, p) \<leftarrow> deserialize_data4 buffer;
     dev_name \<leftarrow> c_string (buf p) (pos p);
     p \<leftarrow> skip p (unat ((name_len + 3) div 4 * 4));
     (geo, p, _) \<leftarrow> deserialize_geo p;
     (num_channel, p) \<leftarrow> deserialize_data4 p;
     (channels, p) \<leftarrow> deserialize_n read_new_channel (unat num_channel) p;
     Some (u\<lparr>vu_dev_name := dev_name, vu_geo := geo, vu_channels := vu_channels u @ channels\<rparr>,
           p, pos p - pos buffer) }"

section \<open>Virtual SSDs\<close>

definition virtual_ocssd_new :: virtual_ocssd where
  "virtual_ocssd_new = \<lparr>v_id = 0, v_units = []\<rparr>"

definition vssd_add :: "virtual_ocssd \<Rightarrow> virtual_ocssd_unit \<Rightarrow> virtual_ocssd" where
  "vssd_add v u = v\<lparr>v_units := v_units v @ [u]\<rparr>"

definition virtual_ocssd_serialize :: "byte list \<Rightarrow> virtual_ocssd \<Rightarrow> (byte list \<times> nat) option" where
  "virtual_ocssd_serialize buffer v = do {
     p \<leftarrow> serialize_data4 (start buffer) SERIALIZE_MAGIC;
     p \<leftarrow> serialize_data4 p (v_id v);
     p \<leftarrow> serialize_data4 p (word_of_nat (length (v_units v)));
     p \<leftarrow> serialize_all (\<lambda>p u. map_option fst (virtual_ocssd_unit_serialize p u)) p (v_units v);
     Some (buf p, pos p) }"

definition read_new_unit :: "cursor \<Rightarrow> (virtual_ocssd_unit \<times> cursor) option" where
  "read_new_unit p = do {
     (u, p, _) \<leftarrow> virtual_ocssd_unit_deserialize virtual_ocssd_unit_default p;
     Some (u, p) }"

definition virtual_ocssd_deserialize ::
  "virtual_ocssd \<Rightarrow> byte list \<Rightarrow> (virtual_ocssd \<times> nat) option" where
  "virtual_ocssd_deserialize v buffer = do {
     (magic, p) \<leftarrow> deserialize_data4 (start buffer);
     if magic \<noteq> SERIALIZE_MAGIC then Some (v, 0)
     else do {
       (id, p) \<leftarrow> deserialize_data4 p;
       (num_unit, p) \<leftarrow> deserialize_data4 p;
       (units, p) \<leftarrow> deserialize_n read_new_unit (unat num_unit) p;
       Some (v\<lparr>v_id := id, v_units := v_units v @ units\<rparr>, pos p) } }"

section \<open>Well-formed descriptions, their sizes and images\<close>

definition channel_ok :: "virtual_ocssd_channel \<Rightarrow> bool" where
  "channel_ok ch \<longleftrightarrow>
     (if vc_shared ch = 1 then length (vc_luns ch) = unat (vc_num_luns ch) else vc_luns ch = [])"

definition unit_ok :: "virtual_ocssd_unit \<Rightarrow> bool" where
  "unit_ok u \<longleftrightarrow> CHR 0x00 \<notin> set (vu_dev_name u) \<and> length (vu_dev_name u) + 4 < 2 ^ 32 \<and>
     length (vu_channels u) < 2 ^ 32 \<and> list_all channel_ok (vu_channels u)"

definition vssd_ok :: "virtual_ocssd \<Rightarrow> bool" where
  "vssd_ok v \<longleftrightarrow> length (v_units v) < 2 ^ 32 \<and> list_all unit_ok (v_units v)"

definition channel_width :: "virtual_ocssd_channel \<Rightarrow> nat" where
  "channel_width ch = 16 + (if vc_shared ch = 1 then 12 * length (vc_luns ch) else 0)"

definition unit_width :: "virtual_ocssd_unit \<Rightarrow> nat" where
  "unit_width u = 80 + (length (vu_dev_name u) + 4) div 4 * 4 +
     sum_list (map channel_width (vu_channels u))"

definition vssd_width :: "virtual_ocssd \<Rightarrow> nat" where
  "vssd_width v = 12 + sum_list (map unit_width (v_units v))"

definition lun_img :: "virtual_ocssd_lun \<Rightarrow> byte list \<Rightarrow> bool" where
  "lun_img l bs \<longleftrightarrow> bs = le_enc 4 (unat (vl_lun_id l)) @ le_enc 4 (unat (vl_block_start l)) @
     le_enc 4 (unat (vl_num_blocks l))"

definition channel_img :: "virtual_ocssd_channel \<Rightarrow> byte list \<Rightarrow> bool" where
  "channel_img ch bs \<longleftrightarrow> (\<exists>ls. imgs lun_img (if vc_shared ch = 1 then vc_luns ch else []) ls \<and>
     bs = (le_enc 4 (unat (vc_channel_id ch)) @ le_enc 4 (unat (vc_shared ch)) @
       le_enc 4 (unat (vc_total_blocks ch)) @ le_enc 4 (unat (vc_num_luns ch))) @ ls)"

definition geo_image :: "nvm_geo \<Rightarrow> byte list" where
  "geo_image g = le_enc 8 (unat (nchannels g)) @ le_enc 8 (unat (nluns g)) @
     le_enc 8 (unat (nplanes g)) @ le_enc 8 (unat (nblocks g)) @ le_enc 8 (unat (npages g)) @
     le_enc 8 (unat (nsectors g)) @ le_enc 8 (unat (page_nbytes g)) @
     le_enc 8 (unat (sector_nbytes g)) @ le_enc 8 (unat (meta_nbytes g))"

definition unit_img :: "virtual_ocssd_unit \<Rightarrow> byte list \<Rightarrow> bool" where
  "unit_img u bs \<longleftrightarrow> (\<exists>pad chs.
     length pad = (length (vu_dev_name u) + 4) div 4 * 4 - (length (vu_dev_name u) + 1) \<and>
     imgs channel_img (vu_channels u) chs \<and>
     bs = le_enc 4 (unat (word_of_nat (length (vu_dev_name u) + 1) :: u32)) @
       (c_str (vu_dev_name u) @ pad) @
       (geo_image (vu_geo u) @ le_enc 4 (unat (word_of_nat (length (vu_channels u)) :: u32))) @ chs)"

section \<open>The formats are codecs\<close>

lemma lun_serialize_put [codec_simps]:
  "map_option fst (virtual_ocssd_lun_serialize c l) =
   put c (le_enc 4 (unat (vl_lun_id l)) @ le_enc 4 (unat (vl_block_start l)) @
     le_enc 4 (unat (vl_num_blocks l)))"
  by (simp add: virtual_ocssd_lun_serialize_def codec_simps map_option_bind comp_def)

interpretation vlun: codec "\<lambda>c l. map_option fst (virtual_ocssd_lun_serialize c l)"
  virtual_ocssd_lun_read lun_img "\<lambda>_. 12" "\<lambda>_. True"
  by unfold_locales
    (auto simp: codec_simps lun_img_def virtual_ocssd_lun_read_def reads_append deserialize_data4_reads)

lemma channel_img_exists: "\<exists>ls. imgs lun_img xs ls"
  using vlun.imgs_exists [of xs] by (simp add: list_all_iff)

lemma channel_serialize_put:
  "\<exists>bs. channel_img ch bs \<and> map_option fst (virtual_ocssd_channel_serialize c ch) = put c bs"
proof -
  let ?hd = "le_enc 4 (unat (vc_channel_id ch)) @ le_enc 4 (unat (vc_shared ch)) @
    le_enc 4 (unat (vc_total_blocks ch)) @ le_enc 4 (unat (vc_num_luns ch))"
  let ?xs = "if vc_shared ch = 1 then vc_luns ch else []"
  let ?ser = "serialize_all (\<lambda>p l. map_option fst (virtual_ocssd_lun_serialize p l))"
  have "map_option fst (virtual_ocssd_channel_serialize c ch) =
      Option.bind (put c ?hd) (\<lambda>p. ?ser p ?xs)"
    by (simp add: virtual_ocssd_channel_serialize_def serialize_data4_put put_bind_bind
        map_option_bind comp_def)
  moreover have "\<exists>ls. imgs lun_img ?xs ls \<and> Option.bind (put c ?hd) (\<lambda>p. ?ser p ?xs) = put c (?hd @ ls)"
    by (rule put_bind_exI)
      (auto intro!: vlun.serialize_all_put channel_img_exists dest: put_SomeD(3) simp: list_all_iff put_Nil)
  ultimately show ?thesis unfolding channel_img_def by metis
qed

lemma channel_deserialize_reads:
  assumes "channel_ok ch" "channel_img ch bs" "reads c bs"
  shows "read_new_channel c = Some (ch, advance c (length bs))"
proof -
  obtain ls where ls: "imgs lun_img (vc_luns ch) ls"
    "bs = (le_enc 4 (unat (vc_channel_id ch)) @ le_enc 4 (unat (vc_shared ch)) @
       le_enc 4 (unat (vc_total_blocks ch)) @ le_enc 4 (unat (vc_num_luns ch))) @ ls"
    using assms(1,2) by (auto simp: channel_img_def channel_ok_def split: if_splits)
  with assms(3) have r: "reads (advance c 16) ls" by (simp add: reads_append add.assoc)
  have "(if vc_shared ch = 1
      then deserialize_n virtual_ocssd_lun_read (unat (vc_num_luns ch)) (advance c 16)
      else Some ([], advance c 16)) = Some (vc_luns ch, advance c (16 + length ls))"
    using vlun.deserialize_n_imgs [OF _ ls(1) r] assms(1) ls(1)
    by (auto simp: channel_ok_def list_all_iff add.assoc)
  then show ?thesis using assms(3) ls(2)
    by (cases ch) (auto simp: read_new_channel_def virtual_ocssd_channel_deserialize_def
        reads_append deserialize_data4_reads virtual_ocssd_channel_new_def add.assoc)
qed

interpretation vchannel: codec "\<lambda>c ch. map_option fst (virtual_ocssd_channel_serialize c ch)"
  read_new_channel channel_img channel_width channel_ok
proof unfold_locales
  fix ch c show "\<exists>bs. channel_img ch bs \<and> map_option fst (virtual_ocssd_channel_serialize c ch) = put c bs"
    by (rule channel_serialize_put)
next
  fix ch bs assume "channel_img ch bs"
  then show "length bs = channel_width ch"
    using vlun.imgs_width [of "vc_luns ch"]
    by (auto simp: channel_img_def channel_width_def list_all_iff sum_list_triv)
next
  fix ch bs c assume "channel_ok ch" "channel_img ch bs" "reads c bs"
  then show "read_new_channel c = Some (ch, advance c (length bs))"
    by (rule channel_deserialize_reads)
qed

lemma length_geo_image [simp]: "length (geo_image g) = 72"
  by (simp add: geo_image_def)

lemma serialize_geo_put: "map_option fst (serialize_geo c g) = put c (geo_image g)"
  by (simp add: serialize_geo_def geo_image_def codec_simps map_option_bind comp_def)

lemma deserialize_geo_reads:
  "reads c (geo_image g) \<Longrightarrow> deserialize_geo c = Some (g, advance c 72, 72)"
  by (cases g) (auto simp: deserialize_geo_def geo_image_def reads_append deserialize_data8_reads)

interpretation geo: codec "\<lambda>c g. map_option fst (serialize_geo c g)"
  "\<lambda>c. map_option (\<lambda>(g, p, _). (g, p)) (deserialize_geo c)"
  "\<lambda>g bs. bs = geo_image g" "\<lambda>_. 72" "\<lambda>_. True"
  by unfold_locales (auto simp: serialize_geo_put deserialize_geo_reads)

lemma char_of_byte_of_char [simp]: "char_of_byte (byte_of_char c) = c"
proof -
  have "(of_char c :: nat) < 256" by simp
  then show ?thesis
    by (simp add: char_of_byte_def byte_of_char_def unsigned_of_nat take_bit_eq_mod)
qed

lemma byte_of_char_eq_0: "byte_of_char c = 0 \<longleftrightarrow> c = CHR 0x00"
proof -
  have "char_of_byte (0 :: byte) = CHR 0x00" by (simp add: char_of_byte_def char_of_def)
  moreover have "byte_of_char (CHR 0x00) = 0" by (simp add: byte_of_char_def)
  ultimately show ?thesis by (metis char_of_byte_of_char)
qed

lemma length_c_str [simp]: "length (c_str s) = length s + 1"
  by (simp add: c_str_def)

lemma until_nul_c_str: "CHR 0x00 \<notin> set s \<Longrightarrow> until_nul (c_str s @ rest) = Some s"
  by (induction s) (auto simp: c_str_def byte_of_char_eq_0)

lemma c_string_reads:
  assumes "CHR 0x00 \<notin> set s" "reads c (c_str s @ pad)"
  shows "c_string (buf c) (pos c) = Some s"
proof -
  let ?n = "length (c_str s @ pad)"
  have "take ?n (drop (pos c) (buf c)) = c_str s @ pad"
    using assms(2) by (auto simp: reads_def peek_def split: if_splits)
  then have "drop (pos c) (buf c) = c_str s @ pad @ drop ?n (drop (pos c) (buf c))"
    by (metis append.assoc append_take_drop_id)
  then show ?thesis
    using until_nul_c_str [OF assms(1)] unfolding c_string_def by metis
qed

lemma round_up_u32:
  assumes "n + 3 < 2 ^ 32"
  shows "unat ((word_of_nat n + 3) div 4 * 4 :: u32) = (n + 3) div 4 * 4"
proof -
  have "unat (word_of_nat n + 3 :: u32) = n + 3"
    using assms by (simp add: unat_word_ariths unsigned_of_nat take_bit_eq_mod)
  moreover have "(n + 3) div 4 * 4 \<le> n + 3" by simp
  ultimately show ?thesis
    using assms by (simp add: unat_word_ariths unat_div)
qed

lemma name_padding: "length s + 1 \<le> (length s + 4) div 4 * 4"
  by presburger

lemma bind_fst: "Option.bind x (\<lambda>(p, _). F p) = Option.bind (map_option fst x) F"
  by (cases x) auto

lemma unit_serialize_put:
  assumes "unit_ok u"
  shows "\<exists>bs. unit_img u bs \<and> map_option fst (virtual_ocssd_unit_serialize c u) = put c bs"
proof -
  let ?ser = "serialize_all (\<lambda>p ch. map_option fst (virtual_ocssd_channel_serialize p ch))"
  let ?name = "vu_dev_name u" and ?chs = "vu_channels u"
  let ?n = "(length ?name + 4) div 4 * 4"
  let ?len = "le_enc 4 (unat (word_of_nat (length ?name + 1) :: u32))"
  let ?geo = "geo_image (vu_geo u) @ le_enc 4 (unat (word_of_nat (length ?chs) :: u32))"
  let ?copy = "\<lambda>p. Option.bind (poke (buf p) (pos p) (c_str ?name)) (\<lambda>m. skip (p\<lparr>buf := m\<rparr>) ?n)"
  let ?tail = "\<lambda>p. Option.bind (put p ?geo) (\<lambda>p. ?ser p ?chs)"
  have chs: "list_all channel_ok ?chs" using assms by (simp add: unit_ok_def)
  have ser: "map_option fst (virtual_ocssd_unit_serialize c u) =
      Option.bind (put c ?len) (\<lambda>p. Option.bind (?copy p) ?tail)"
    by (simp add: virtual_ocssd_unit_serialize_def Let_def serialize_data4_put bind_fst
        serialize_geo_put put_bind_bind map_option_bind comp_def add.commute [of 4])
  have tail: "\<exists>b. imgs channel_img ?chs b \<and> ?tail p = put p (?geo @ b)" for p
    by (rule put_bind_exI)
      (auto intro!: vchannel.serialize_all_put chs vchannel.imgs_exists dest: put_SomeD(3))
  let ?P = "\<lambda>bs. \<exists>pad b. length pad = ?n - (length ?name + 1) \<and> imgs channel_img ?chs b \<and>
    bs = (c_str ?name @ pad) @ ?geo @ b"
  have copy: "\<exists>bs. ?P bs \<and> Option.bind (?copy p) ?tail = put p bs" for p
  proof -
    obtain pad where pad: "length pad = ?n - (length ?name + 1)" "?copy p = put p (c_str ?name @ pad)"
      using memcpy_skip_put [of "c_str ?name" ?n p] name_padding [of ?name] by auto
    have "\<exists>b. (\<exists>b'. imgs channel_img ?chs b' \<and> b = ?geo @ b') \<and>
        Option.bind (put p (c_str ?name @ pad)) ?tail = put p ((c_str ?name @ pad) @ b)"
      by (rule put_bind_exI) (use tail in blast)+
    with pad show ?thesis by auto
  qed
  have "\<exists>bs. ?P bs \<and> Option.bind (put c ?len) (\<lambda>p. Option.bind (?copy p) ?tail) = put c (?len @ bs)"
    by (rule put_bind_exI) (use copy in blast)+
  then show ?thesis unfolding ser unit_img_def by blast
qed

lemma reads_append5:
  "reads c (a @ b @ (d @ e) @ f) \<longleftrightarrow> reads c a \<and> reads (advance c (length a)) b \<and>
     reads (advance c (length a + length b)) d \<and>
     reads (advance c (length a + length b + length d)) e \<and>
     reads (advance c (length a + length b + (length d + length e))) f"
  by (simp add: reads_append add.assoc)

lemma unit_deserialize_reads:
  assumes "unit_ok u" "unit_img u bs" "reads c bs"
  shows "read_new_unit c = Some (u, advance c (length bs))"
proof -
  let ?name = "vu_dev_name u" and ?chs = "vu_channels u"
  let ?n = "(length ?name + 4) div 4 * 4"
  obtain pad chs where b: "length pad = ?n - (length ?name + 1)" "imgs channel_img ?chs chs"
    "bs = le_enc 4 (unat (word_of_nat (length ?name + 1) :: u32)) @ (c_str ?name @ pad) @
       (geo_image (vu_geo u) @ le_enc 4 (unat (word_of_nat (length ?chs) :: u32))) @ chs"
    using assms(2) by (auto simp: unit_img_def)
  have n: "length (c_str ?name @ pad) = ?n" using b(1) by simp
  have r: "reads c (le_enc 4 (unat (word_of_nat (length ?name + 1) :: u32)))"
    "reads (advance c 4) (c_str ?name @ pad)"
    "reads (advance c (4 + ?n)) (geo_image (vu_geo u))"
    "reads (advance c (4 + ?n + 72)) (le_enc 4 (unat (word_of_nat (length ?chs) :: u32)))"
    "reads (advance c (4 + ?n + 76)) chs"
    using assms(3) unfolding b(3) reads_append5 n by (simp_all add: add.assoc)
  have len: "unat (((word_of_nat (length ?name + 1) :: u32) + 3) div 4 * 4) = ?n"
    using round_up_u32 [of "length ?name + 1"] assms(1) by (simp add: unit_ok_def)
  have nch: "unat (word_of_nat (length ?chs) :: u32) = length ?chs"
    using assms(1) by (simp add: unit_ok_def unsigned_of_nat take_bit_eq_mod)
  have sk: "skip (advance c 4) ?n = Some (advance c (4 + ?n))"
    using r(3) by (auto simp: skip_def reads_def peek_def add.assoc split: if_splits)
  have "deserialize_n read_new_channel (length ?chs) (advance c (4 + ?n + 76)) =
      Some (?chs, advance c (4 + ?n + 76 + length chs))"
    using vchannel.deserialize_n_imgs [OF _ b(2) r(5)] assms(1) by (simp add: unit_ok_def add.assoc)
  moreover have "c_string (buf c) (pos c + 4) = Some ?name"
    using c_string_reads [OF _ r(2)] assms(1) by (simp add: unit_ok_def)
  moreover have "length bs = 4 + ?n + 76 + length chs" using n unfolding b(3) by simp
  ultimately show ?thesis
    using deserialize_data4_reads [OF r(1)] deserialize_geo_reads [OF r(3)]
      deserialize_data4_reads [OF r(4)] len nch sk
    by (simp add: read_new_unit_def virtual_ocssd_unit_deserialize_def
        virtual_ocssd_unit_default_def add.assoc)
qed

interpretation vunit: codec "\<lambda>c u. map_option fst (virtual_ocssd_unit_serialize c u)"
  read_new_unit unit_img unit_width unit_ok
proof unfold_locales
  fix u c assume "unit_ok u"
  then show "\<exists>bs. unit_img u bs \<and> map_option fst (virtual_ocssd_unit_serialize c u) = put c bs"
    by (rule unit_serialize_put)
next
  fix u bs assume "unit_ok u" "unit_img u bs"
  then show "length bs = unit_width u"
    using vchannel.imgs_width [of "vu_channels u"] name_padding [of "vu_dev_name u"]
    by (auto simp: unit_img_def unit_width_def unit_ok_def)
next
  fix u bs c assume "unit_ok u" "unit_img u bs" "reads c bs"
  then show "read_new_unit c = Some (u, advance c (length bs))"
    by (rule unit_deserialize_reads)
qed

definition vssd_head :: "virtual_ocssd \<Rightarrow> byte list" where
  "vssd_head v = le_enc 4 (unat SERIALIZE_MAGIC) @ le_enc 4 (unat (v_id v)) @
     le_enc 4 (unat (word_of_nat (length (v_units v)) :: u32))"

lemma length_vssd_head [simp]: "length (vssd_head v) = 12"
  by (simp add: vssd_head_def)

lemma vssd_serialize_put:
  assumes "vssd_ok v"
  obtains us where "imgs unit_img (v_units v) us" "length (vssd_head v @ us) = vssd_width v"
    "virtual_ocssd_serialize buffer v =
      Option.bind (put (start buffer) (vssd_head v @ us)) (\<lambda>p. Some (buf p, pos p))"
proof -
  let ?ser = "\<lambda>p. serialize_all (\<lambda>p u. map_option fst (virtual_ocssd_unit_serialize p u)) p (v_units v)"
  have ok: "list_all unit_ok (v_units v)" using assms by (simp add: vssd_ok_def)
  have ser: "virtual_ocssd_serialize buffer v =
      Option.bind (Option.bind (put (start buffer) (vssd_head v)) ?ser) (\<lambda>p. Some (buf p, pos p))"
    by (simp add: virtual_ocssd_serialize_def vssd_head_def serialize_data4_put put_bind_bind)
  have "\<exists>b. imgs unit_img (v_units v) b \<and>
      Option.bind (put (start buffer) (vssd_head v)) ?ser = put (start buffer) (vssd_head v @ b)"
    by (rule put_bind_exI)
      (auto intro!: vunit.serialize_all_put ok vunit.imgs_exists dest: put_SomeD(3))
  then obtain us where us: "imgs unit_img (v_units v) us"
    "Option.bind (put (start buffer) (vssd_head v)) ?ser = put (start buffer) (vssd_head v @ us)"
    by blast
  show thesis
  proof (rule that [OF us(1)])
    show "length (vssd_head v @ us) = vssd_width v"
      using vunit.imgs_width [OF ok us(1)] by (simp add: vssd_width_def)
    show "virtual_ocssd_serialize buffer v =
        Option.bind (put (start buffer) (vssd_head v @ us)) (\<lambda>p. Some (buf p, pos p))"
      by (simp only: ser us(2))
  qed
qed

lemma vssd_deserialize_reads:
  assumes "vssd_ok v" "imgs unit_img (v_units v) us" "reads (start m) (vssd_head v @ us)"
  shows "virtual_ocssd_deserialize v0 m =
    Some (v0\<lparr>v_id := v_id v, v_units := v_units v0 @ v_units v\<rparr>, 12 + length us)"
proof -
  have r: "reads \<lparr>buf = m, pos = 12\<rparr> us"
    "reads \<lparr>buf = m, pos = 8\<rparr> (le_enc 4 (unat (word_of_nat (length (v_units v)) :: u32)))"
    "reads \<lparr>buf = m, pos = 4\<rparr> (le_enc 4 (unat (v_id v)))"
    "reads (start m) (le_enc 4 (unat SERIALIZE_MAGIC))"
    using assms(3) by (simp_all add: reads_append vssd_head_def)
  have "unat (word_of_nat (length (v_units v)) :: u32) = length (v_units v)"
    using assms(1) by (simp add: vssd_ok_def unsigned_of_nat take_bit_eq_mod)
  then show ?thesis
    using vunit.deserialize_n_imgs [OF _ assms(2) r(1) refl] assms(1)
      deserialize_data4_reads [OF r(2)] deserialize_data4_reads [OF r(3)]
      deserialize_data4_reads [OF r(4)]
    by (simp add: virtual_ocssd_deserialize_def vssd_ok_def)
qed

text \<open>A small description: one unit with a shared and an exclusive channel.\<close>

definition sample_vssd :: virtual_ocssd where
  "sample_vssd = \<lparr>v_id = 1, v_units =
     [\<lparr>vu_dev_name = ''/dev/nvme0n1'',
       vu_geo = \<lparr>nchannels = 6, nluns = 2, nplanes = 2, nblocks = 8, npages = 4, nsectors = 4,
         page_nbytes = 16384, sector_nbytes = 4096, meta_nbytes = 64\<rparr>,
       vu_channels = [virtual_ocssd_channel_of_units 0 1 [(0, 0, 3), (1, 0, 3)],
         virtual_ocssd_channel_new 4 0 16 2]\<rparr>]\<rparr>"

lemma sample_vssd_ok: "vssd_ok sample_vssd" "vssd_width sample_vssd = 164"
  by (simp_all add: sample_vssd_def vssd_ok_def unit_ok_def channel_ok_def vssd_width_def unit_width_def
      channel_width_def virtual_ocssd_channel_of_units_def virtual_ocssd_channel_new_def Let_def)

section \<open>Descriptions read from arbitrary bytes\<close>

text \<open>What a reader that succeeds guarantees, whatever the bytes are: the cursor moves forward inside of the
  memory object, and the value has a property (which may depend on the object).  Interpreted on the readers
  of all levels.\<close>

locale reader =
  fixes des :: "cursor \<Rightarrow> ('a \<times> cursor) option"
    and holds :: "byte list \<Rightarrow> 'a \<Rightarrow> bool"
  assumes des_ok: "des c = Some (x, c') \<Longrightarrow> pos c \<le> length (buf c) \<Longrightarrow>
    buf c' = buf c \<and> pos c \<le> pos c' \<and> pos c' \<le> length (buf c) \<and> holds (buf c) x"
begin

lemma des_n_ok:
  "deserialize_n des n c = Some (xs, c') \<Longrightarrow> pos c \<le> length (buf c) \<Longrightarrow>
   buf c' = buf c \<and> pos c \<le> pos c' \<and> pos c' \<le> length (buf c) \<and> length xs = n \<and> list_all (holds (buf c)) xs"
proof (induction n arbitrary: c xs)
  case (Suc n)
  then obtain x c1 ys where r: "des c = Some (x, c1)" "deserialize_n des n c1 = Some (ys, c')" "xs = x # ys"
    by (auto simp: Option.bind_eq_Some_conv)
  from des_ok [OF r(1) Suc.prems(2)] Suc.IH [OF r(2)] r(3) show ?case by auto
qed simp

end

interpretation r4: reader deserialize_data4 "\<lambda>_ _. True"
  by unfold_locales (auto simp: deserialize_data4_iff reads_def peek_def split: if_splits)

interpretation r8: reader deserialize_data8 "\<lambda>_ _. True"
  by unfold_locales (auto simp: deserialize_data8_iff reads_def peek_def split: if_splits)

interpretation rlun: reader virtual_ocssd_lun_read "\<lambda>_ _. True"
  by unfold_locales (auto simp: virtual_ocssd_lun_read_def Option.bind_eq_Some_conv dest!: r4.des_ok)

interpretation rchannel: reader read_new_channel "\<lambda>_. channel_ok"
proof unfold_locales
  fix c ch c' assume r: "read_new_channel c = Some (ch, c')" and c: "pos c \<le> length (buf c)"
  then obtain channel_id p1 shared p2 total_blocks p3 num_luns p4 luns where
    "deserialize_data4 c = Some (channel_id, p1)" "deserialize_data4 p1 = Some (shared, p2)"
    "deserialize_data4 p2 = Some (total_blocks, p3)" "deserialize_data4 p3 = Some (num_luns, p4)"
    and l: "(if shared = 1 then deserialize_n virtual_ocssd_lun_read (unat num_luns) p4 else Some ([], p4)) = Some (luns, c')"
      "vc_shared ch = shared" "vc_num_luns ch = num_luns" "vc_luns ch = luns"
    by (auto simp: read_new_channel_def virtual_ocssd_channel_deserialize_def virtual_ocssd_channel_new_def
        Option.bind_eq_Some_conv)
  then have p: "buf p4 = buf c" "pos c \<le> pos p4" "pos p4 \<le> length (buf p4)" using c by (auto dest!: r4.des_ok)
  show "buf c' = buf c \<and> pos c \<le> pos c' \<and> pos c' \<le> length (buf c) \<and> channel_ok ch"
    using l p rlun.des_n_ok [of "unat num_luns" p4 luns c'] by (auto simp: channel_ok_def split: if_splits)
qed

lemma deserialize_data8_moves: "deserialize_data8 c = Some (x, c') \<Longrightarrow> c' = advance c 8 \<and> pos c + 8 \<le> length (buf c)"
  by (auto simp: deserialize_data8_iff reads_def peek_def split: if_splits)

lemma deserialize_geo_ok:
  assumes "deserialize_geo c = Some (g, c', n)"
  shows "buf c' = buf c \<and> pos c \<le> pos c' \<and> pos c' \<le> length (buf c)"
  using assms by (auto simp: deserialize_geo_def Option.bind_eq_Some_conv dest!: deserialize_data8_moves)

lemma until_nul_ok: "until_nul bs = Some s \<Longrightarrow> CHR 0x00 \<notin> set s \<and> length s < length bs"
proof (induction bs arbitrary: s)
  case (Cons b bs)
  have "char_of_byte b \<noteq> CHR 0x00" if "b \<noteq> 0"
  proof
    assume "char_of_byte b = CHR 0x00"
    then have "(of_char (char_of_byte b) :: nat) = 0" by simp
    then show False using that unat_bound [of b] by (simp add: char_of_byte_def unat_eq_0)
  qed
  with Cons show ?case by (auto simp: Option.bind_eq_Some_conv split: if_splits)
qed simp

interpretation runit: reader read_new_unit
  "\<lambda>m u. CHR 0x00 \<notin> set (vu_dev_name u) \<and> length (vu_dev_name u) < length m \<and>
     length (vu_channels u) < 2 ^ 32 \<and> list_all channel_ok (vu_channels u)"
proof unfold_locales
  fix c u c' assume r: "read_new_unit c = Some (u, c')" and c: "pos c \<le> length (buf c)"
  then obtain name_len p1 p2 geo p3 k num_channel p4 where
    p: "deserialize_data4 c = Some (name_len, p1)" "c_string (buf p1) (pos p1) = Some (vu_dev_name u)"
      "skip p1 (unat ((name_len + 3) div 4 * 4)) = Some p2" "deserialize_geo p2 = Some (geo, p3, k)"
      "deserialize_data4 p3 = Some (num_channel, p4)"
      "deserialize_n read_new_channel (unat num_channel) p4 = Some (vu_channels u, c')"
    by (auto simp: read_new_unit_def virtual_ocssd_unit_deserialize_def virtual_ocssd_unit_default_def
        Option.bind_eq_Some_conv)
  have 1: "buf p1 = buf c" "pos c \<le> pos p1" "pos p1 \<le> length (buf c)" using r4.des_ok [OF p(1) c] by auto
  have 2: "buf p2 = buf c" "pos c \<le> pos p2" using p(3) 1 by (auto simp: skip_def split: if_splits)
  have 3: "buf p3 = buf c" "pos c \<le> pos p3" "pos p3 \<le> length (buf p3)" using deserialize_geo_ok [OF p(4)] 2 by auto
  have 4: "buf p4 = buf c" "pos c \<le> pos p4" "pos p4 \<le> length (buf p4)" using r4.des_ok [OF p(5) 3(3)] 3 by auto
  have "CHR 0x00 \<notin> set (vu_dev_name u)" "length (vu_dev_name u) < length (buf c)"
    using until_nul_ok p(2) 1(1) by (fastforce simp: c_string_def)+
  then show "buf c' = buf c \<and> pos c \<le> pos c' \<and> pos c' \<le> length (buf c) \<and>
      CHR 0x00 \<notin> set (vu_dev_name u) \<and> length (vu_dev_name u) < length (buf c) \<and>
      length (vu_channels u) < 2 ^ 32 \<and> list_all channel_ok (vu_channels u)"
    using rchannel.des_n_ok [OF p(6) 4(3)] 4 unat_bound [of num_channel] by auto
qed

lemma deserialize_typed:
  assumes "length bs + 4 \<le> 2 ^ 32" "virtual_ocssd_deserialize virtual_ocssd_new bs = Some (v, n)"
  shows "vssd_ok v \<and> n \<le> length bs"
proof -
  obtain magic p1 where p1: "deserialize_data4 (start bs) = Some (magic, p1)"
    using assms(2) by (auto simp: virtual_ocssd_deserialize_def Option.bind_eq_Some_conv)
  have 1: "buf p1 = bs" "pos p1 \<le> length (buf p1)" using r4.des_ok [OF p1] by auto
  show ?thesis
  proof (cases "magic = SERIALIZE_MAGIC")
    case False
    then show ?thesis using assms(2) p1
      by (auto simp: virtual_ocssd_deserialize_def virtual_ocssd_new_def vssd_ok_def)
  next
    case True
    then obtain i p2 num_unit p3 c' where p: "deserialize_data4 p1 = Some (i, p2)"
      "deserialize_data4 p2 = Some (num_unit, p3)"
      "deserialize_n read_new_unit (unat num_unit) p3 = Some (v_units v, c')" "n = pos c'"
      using assms(2) p1
      by (auto simp: virtual_ocssd_deserialize_def virtual_ocssd_new_def Option.bind_eq_Some_conv)
    have 2: "buf p2 = bs" "pos p2 \<le> length (buf p2)" using r4.des_ok [OF p(1) 1(2)] 1 by auto
    have 3: "buf p3 = bs" "pos p3 \<le> length (buf p3)" using r4.des_ok [OF p(2) 2(2)] 2 by auto
    note u = runit.des_n_ok [OF p(3) 3(2)]
    have "list_all unit_ok (v_units v)"
      by (rule list.pred_mono_strong [OF conjunct2 [OF conjunct2 [OF conjunct2 [OF conjunct2 [OF u]]]]])
        (use assms(1) 3(1) in \<open>auto simp: unit_ok_def\<close>)
    then show ?thesis using u 3(1) p(4) unat_bound [of num_unit] by (auto simp: vssd_ok_def)
  qed
qed

lemma serialized_read:
  assumes "vssd_ok v" and "vssd_width v \<le> length buffer"
  shows "\<exists>out. virtual_ocssd_serialize buffer v = Some (out, vssd_width v) \<and>
    length out = length buffer \<and> drop (vssd_width v) out = drop (vssd_width v) buffer \<and>
    virtual_ocssd_deserialize virtual_ocssd_new (take (vssd_width v) out @ rest) =
      Some (v, vssd_width v)"
proof -
  obtain us where us: "imgs unit_img (v_units v) us" "length (vssd_head v @ us) = vssd_width v"
    "virtual_ocssd_serialize buffer v =
      Option.bind (put (start buffer) (vssd_head v @ us)) (\<lambda>p. Some (buf p, pos p))"
    using vssd_serialize_put [OF assms(1)] .
  let ?bs = "vssd_head v @ us"
  have out: "virtual_ocssd_serialize buffer v = Some (?bs @ drop (vssd_width v) buffer, vssd_width v)"
    using assms(2) us(2,3) by (simp add: put_def poke_def)
  have "virtual_ocssd_deserialize virtual_ocssd_new (?bs @ rest) = Some (v, 12 + length us)"
    by (subst vssd_deserialize_reads [OF assms(1) us(1)])
      (simp_all add: reads_start_iff virtual_ocssd_new_def)
  moreover have "12 + length us = vssd_width v" using us(2) by simp
  ultimately show ?thesis
    using out us(2) assms(2) by (intro exI [of _ "?bs @ drop (vssd_width v) buffer"]) simp
qed

section \<open>Theorems\<close>

text \<open>C4: A well-formed virtual SSD description, with any number of units, channels and LUNs,
  written into a buffer that has room for it, takes exactly \<open>vssd_width\<close> bytes, leaves the rest
  of the buffer alone, and a fresh \<^verbatim>\<open>virtual_ocssd\<close> that deserializes those bytes
  (whatever follows them) equals the original and reports the same length.\<close>

theorem vssd_roundtrip:
  assumes "vssd_ok v" and "vssd_width v \<le> length buffer"
  shows "\<exists>out. virtual_ocssd_serialize buffer v = Some (out, vssd_width v) \<and>
    length out = length buffer \<and> drop (vssd_width v) out = drop (vssd_width v) buffer \<and>
    virtual_ocssd_deserialize virtual_ocssd_new (take (vssd_width v) out @ rest) =
      Some (v, vssd_width v)"
  by (rule serialized_read [OF assms])

theorem vssd_roundtrip_witness:
  "\<exists>out. virtual_ocssd_serialize (replicate 1024 0) sample_vssd = Some (out, 164) \<and>
    virtual_ocssd_deserialize virtual_ocssd_new (take 164 out @ [1, 2]) = Some (sample_vssd, 164)"
  using vssd_roundtrip [OF sample_vssd_ok(1), of "replicate 1024 0" "[1, 2]"]
  by (auto simp: sample_vssd_ok(2))

text \<open>C35: Serialization of a well-formed description writes outside the buffer exactly when the
  buffer is smaller than \<open>vssd_width\<close>; the code has no check for it.\<close>

theorem vssd_serialize_overflow:
  assumes "vssd_ok v"
  shows "virtual_ocssd_serialize buffer v = None \<longleftrightarrow> length buffer < vssd_width v"
proof -
  obtain us where us: "length (vssd_head v @ us) = vssd_width v"
    "virtual_ocssd_serialize buffer v =
      Option.bind (put (start buffer) (vssd_head v @ us)) (\<lambda>p. Some (buf p, pos p))"
    using vssd_serialize_put [OF assms] by blast
  then show ?thesis by (auto simp: put_None_iff Option.bind_eq_None_conv)
qed

theorem vssd_serialize_overflow_witness:
  "virtual_ocssd_serialize (replicate 163 0) sample_vssd = None"
  using vssd_serialize_overflow [OF sample_vssd_ok(1), of "replicate 163 0"]
  by (simp add: sample_vssd_ok(2))

text \<open>C19: Whatever bytes a client receives, what it decodes from them is a well-formed description: when
  \<^verbatim>\<open>deserialize\<close> returns, it has read inside of the buffer, every list has as many elements as its
  count says, shared channels carry their LUNs and exclusive ones none, and the names contain no NUL.  Such
  a description can be written into any buffer that has room for it, and is read back from there.\<close>

theorem vssd_deserialize_typed:
  assumes "length bs + 4 \<le> 2 ^ 32" and "virtual_ocssd_deserialize virtual_ocssd_new bs = Some (v, n)"
    and "vssd_width v \<le> length buffer"
  shows "vssd_ok v \<and> n \<le> length bs \<and>
    (\<exists>out. virtual_ocssd_serialize buffer v = Some (out, vssd_width v) \<and>
       virtual_ocssd_deserialize virtual_ocssd_new out = Some (v, vssd_width v))"
proof -
  have ok: "vssd_ok v" "n \<le> length bs" using deserialize_typed [OF assms(1,2)] by auto
  obtain out where "virtual_ocssd_serialize buffer v = Some (out, vssd_width v)"
    "virtual_ocssd_deserialize virtual_ocssd_new out = Some (v, vssd_width v)"
    using serialized_read [OF ok(1) assms(3), of "drop (vssd_width v) buffer"] by (metis append_take_drop_id)
  with ok show ?thesis by blast
qed

theorem vssd_deserialize_typed_witness:
  "vssd_ok \<lparr>v_id = 7, v_units = []\<rparr> \<and>
   (\<exists>out. virtual_ocssd_serialize (replicate 16 1) \<lparr>v_id = 7, v_units = []\<rparr> = Some (out, 12))"
proof -
  have "virtual_ocssd_deserialize virtual_ocssd_new [2, 0x65, 0, 0, 7, 0, 0, 0, 0, 0, 0, 0] =
      Some (\<lparr>v_id = 7, v_units = []\<rparr>, 12)" by code_simp
  from vssd_deserialize_typed [OF _ this, of "replicate 16 1"] show ?thesis by (auto simp: vssd_width_def)
qed

end
