(* ===== verification/Allocator.thy ===== *)
theory Allocator
  imports Prelude
begin

text \<open>
  The contract that every level of the resource manager keeps (a channel, a device, the
  manager of a node): an allocation always returns, keeps the invariant, and what it grants is
  fresh and becomes owned.  From the contract alone follows isolation over any sequence of
  requests: no two grants share a block.  The levels interpret the locale on their own
  operations.
\<close>

fun alloc_run :: "('s \<Rightarrow> 'r \<Rightarrow> ('g \<times> 's) option) \<Rightarrow> 's \<Rightarrow> 'r list \<Rightarrow> ('g list \<times> 's) option" where
  "alloc_run alloc s [] = Some ([], s)"
| "alloc_run alloc s (r # rs) = do {
     (g, s) \<leftarrow> alloc s r;
     (gs, s) \<leftarrow> alloc_run alloc s rs;
     Some (g # gs, s) }"

abbreviation separate :: "'b set list \<Rightarrow> bool" where
  "separate \<equiv> sorted_wrt (\<lambda>A B. A \<inter> B = {})"

locale block_allocator =
  fixes alloc :: "'s \<Rightarrow> 'r \<Rightarrow> ('g \<times> 's) option"
    and owned :: "'s \<Rightarrow> 'b set"
    and granted :: "'g \<Rightarrow> 'b set"
    and inv :: "'s \<Rightarrow> bool"
  assumes alloc_returns: "inv s \<Longrightarrow> \<exists>g s'. alloc s r = Some (g, s')"
    and alloc_inv: "inv s \<Longrightarrow> alloc s r = Some (g, s') \<Longrightarrow> inv s'"
    and alloc_owned: "inv s \<Longrightarrow> alloc s r = Some (g, s') \<Longrightarrow> owned s' = owned s \<union> granted g"
    and alloc_fresh: "inv s \<Longrightarrow> alloc s r = Some (g, s') \<Longrightarrow> owned s \<inter> granted g = {}"
begin

lemma run_returns: "inv s \<Longrightarrow> \<exists>gs s'. alloc_run alloc s rs = Some (gs, s') \<and> length gs = length rs"
proof (induction rs arbitrary: s)
  case Nil
  then show ?case by simp
next
  case (Cons r rs)
  then obtain g s1 where 1: "alloc s r = Some (g, s1)" using alloc_returns by blast
  with Cons.IH [OF alloc_inv [OF Cons.prems 1]] show ?case by fastforce
qed

lemma run_ConsE:
  assumes "alloc_run alloc s (r # rs) = Some (gs, s')"
  obtains g s1 gs1 where "alloc s r = Some (g, s1)" "alloc_run alloc s1 rs = Some (gs1, s')" "gs = g # gs1"
  using assms by (auto simp: Option.bind_eq_Some_conv)

lemma run_inv: "inv s \<Longrightarrow> alloc_run alloc s rs = Some (gs, s') \<Longrightarrow> inv s'"
proof (induction rs arbitrary: s gs)
  case Nil
  then show ?case by simp
next
  case (Cons r rs)
  then show ?case by (metis run_ConsE alloc_inv)
qed

lemma run_owned:
  "inv s \<Longrightarrow> alloc_run alloc s rs = Some (gs, s') \<Longrightarrow> owned s' = owned s \<union> \<Union> (set (map granted gs))"
proof (induction rs arbitrary: s gs)
  case Nil
  then show ?case by simp
next
  case (Cons r rs)
  obtain g s1 gs1 where 1: "alloc s r = Some (g, s1)" "alloc_run alloc s1 rs = Some (gs1, s')"
    "gs = g # gs1" using Cons.prems(2) by (rule run_ConsE)
  have "owned s' = owned s1 \<union> \<Union> (set (map granted gs1))"
    by (rule Cons.IH [OF alloc_inv [OF Cons.prems(1) 1(1)] 1(2)])
  then show ?case using alloc_owned [OF Cons.prems(1) 1(1)] 1(3) by auto
qed

lemma run_fresh:
  "inv s \<Longrightarrow> alloc_run alloc s rs = Some (gs, s') \<Longrightarrow> owned s \<inter> \<Union> (set (map granted gs)) = {}"
proof (induction rs arbitrary: s gs)
  case Nil
  then show ?case by simp
next
  case (Cons r rs)
  obtain g s1 gs1 where 1: "alloc s r = Some (g, s1)" "alloc_run alloc s1 rs = Some (gs1, s')"
    "gs = g # gs1" using Cons.prems(2) by (rule run_ConsE)
  have "owned s1 \<inter> \<Union> (set (map granted gs1)) = {}"
    by (rule Cons.IH [OF alloc_inv [OF Cons.prems(1) 1(1)] 1(2)])
  then show ?case
    using alloc_owned [OF Cons.prems(1) 1(1)] alloc_fresh [OF Cons.prems(1) 1(1)] 1(3) by auto
qed

lemma run_separate:
  "inv s \<Longrightarrow> alloc_run alloc s rs = Some (gs, s') \<Longrightarrow> separate (map granted gs)"
proof (induction rs arbitrary: s gs)
  case Nil
  then show ?case by simp
next
  case (Cons r rs)
  obtain g s1 gs1 where 1: "alloc s r = Some (g, s1)" "alloc_run alloc s1 rs = Some (gs1, s')"
    "gs = g # gs1" using Cons.prems(2) by (rule run_ConsE)
  have i1: "inv s1" by (rule alloc_inv [OF Cons.prems(1) 1(1)])
  have "separate (map granted gs1)" by (rule Cons.IH [OF i1 1(2)])
  moreover have "granted g \<inter> \<Union> (set (map granted gs1)) = {}"
    using run_fresh [OF i1 1(2)] alloc_owned [OF Cons.prems(1) 1(1)] by auto
  ultimately show ?case using 1(3) by auto
qed

end

end
