(* ===== verification/Physical.thy ===== *)
theory Physical
  imports VSSD Allocator
begin

text \<open>
  The physical resource of \<^verbatim>\<open>src/ocssd_server.h\<close>: a LUN
  (\<^verbatim>\<open>ocssd_lun\<close>) hands out its blocks in increasing order, a channel
  (\<^verbatim>\<open>ocssd_channel\<close>) spreads a request evenly over its LUNs.  Counters are 64-bit
  (\<^verbatim>\<open>size_t\<close>) words.  A reference parameter that a C++ method writes is a component of
  the model's result; a division by zero is \<^term>\<open>None\<close>.  The theorems relate the loop of
  \<^verbatim>\<open>ocssd_channel::alloc_blocks\<close> to its specification (each LUN gives the smaller of
  its share and what it has left) and show that the invariant of the counters is kept.
\<close>

section \<open>LUNs\<close>

record ocssd_lun =
  lun_id :: u64
  lun_num_used :: u64
  lun_num_blocks :: u64

definition ocssd_lun_new :: "u64 \<Rightarrow> u64 \<Rightarrow> ocssd_lun" where
  "ocssd_lun_new i blocks = \<lparr>lun_id = i, lun_num_used = 0, lun_num_blocks = blocks\<rparr>"

text \<open>\<open>block_unit\<close> is the in-out parameter; the result is (return value, block unit, LUN).\<close>

definition lun_alloc_blocks ::
  "ocssd_lun \<Rightarrow> u64 \<times> u64 \<Rightarrow> u64 \<Rightarrow> u64 \<times> (u64 \<times> u64) \<times> ocssd_lun" where
  "lun_alloc_blocks l block_unit request_blocks =
     (if lun_num_used l = lun_num_blocks l \<or> request_blocks = 0 then (0, block_unit, l)
      else let allocated = min request_blocks (lun_num_blocks l - lun_num_used l)
           in (allocated, (lun_num_used l, allocated),
               l\<lparr>lun_num_used := lun_num_used l + allocated\<rparr>))"

section \<open>Channels\<close>

record ocssd_channel =
  ch_channel_id :: u64
  ch_num_luns :: u64
  ch_num_blocks :: u64
  ch_num_used_blocks :: u64
  ch_num_total_blocks :: u64
  ch_shared :: int
  ch_used :: int
  ch_luns :: "ocssd_lun list"

definition ocssd_channel_new :: "u64 \<Rightarrow> u64 \<Rightarrow> u64 \<Rightarrow> ocssd_channel" where
  "ocssd_channel_new channel_id num_luns num_blocks =
     \<lparr>ch_channel_id = channel_id, ch_num_luns = num_luns, ch_num_blocks = num_blocks,
      ch_num_used_blocks = 0, ch_num_total_blocks = num_blocks * num_luns,
      ch_shared = 0, ch_used = 0,
      ch_luns = map (\<lambda>i. ocssd_lun_new (word_of_nat i) num_blocks) [0..<unat num_luns]\<rparr>"

definition set_shared :: "ocssd_channel \<Rightarrow> ocssd_channel" where
  "set_shared ch = ch\<lparr>ch_shared := 1\<rparr>"

definition set_used :: "ocssd_channel \<Rightarrow> ocssd_channel" where
  "set_used ch = ch\<lparr>ch_used := 1\<rparr>"

definition get_free_blocks :: "ocssd_channel \<Rightarrow> u64" where
  "get_free_blocks ch =
     (if ch_used ch \<noteq> 0 then 0 else ch_num_total_blocks ch - ch_num_used_blocks ch)"

text \<open>The loop over the LUNs.  \<open>allocated\<close> and \<open>request_blocks\<close> are the local variables;
  the result is (LUNs after the loop, units pushed, allocated).  The block pair starts as
  \<^verbatim>\<open>std::pair\<close>'s zeroes.\<close>

fun alloc_luns ::
  "u64 \<Rightarrow> u64 \<Rightarrow> ocssd_lun list \<Rightarrow> u64 \<Rightarrow> u64 \<Rightarrow> ocssd_lun list \<times> alloc_unit list \<times> u64" where
  "alloc_luns num_blocks request_per_lun [] request_blocks allocated = ([], [], allocated)"
| "alloc_luns num_blocks request_per_lun (l # ls) request_blocks allocated =
     (if lun_num_used l \<ge> num_blocks
      then let (ls', us, a) = alloc_luns num_blocks request_per_lun ls request_blocks allocated
           in (l # ls', us, a)
      else let (ret, block_units, l') = lun_alloc_blocks l (0, 0) request_per_lun;
               unit = (lun_id l', block_units);
               request_blocks' = request_blocks - ret;
               allocated' = allocated + ret
           in if request_blocks' = 0 then (l' # ls, [unit], allocated')
              else let (ls', us, a) =
                     alloc_luns num_blocks request_per_lun ls request_blocks' allocated'
                   in (l' # ls', unit # us, a))"

definition channel_alloc_blocks ::
  "ocssd_channel \<Rightarrow> alloc_unit list \<Rightarrow> u64 \<Rightarrow> (u64 \<times> alloc_unit list \<times> ocssd_channel) option" where
  "channel_alloc_blocks ch alloc_units request_blocks =
     (if ch_num_used_blocks ch = ch_num_total_blocks ch \<or> request_blocks = 0
      then Some (0, alloc_units, ch)
      else if ch_num_luns ch = 0 then None
      else let (luns, units, allocated) =
             alloc_luns (ch_num_blocks ch) (request_blocks div ch_num_luns ch) (ch_luns ch)
               request_blocks 0
           in Some (allocated, alloc_units @ units,
                    ch\<lparr>ch_luns := luns, ch_num_used_blocks := ch_num_used_blocks ch + allocated\<rparr>))"

section \<open>Invariants\<close>

definition lun_ok :: "u64 \<Rightarrow> ocssd_lun \<Rightarrow> bool" where
  "lun_ok nb l \<longleftrightarrow> lun_num_blocks l = nb \<and> lun_num_used l \<le> nb"

definition lun_used :: "ocssd_lun \<Rightarrow> nat" where
  "lun_used l = unat (lun_num_used l)"

definition channel_inv :: "ocssd_channel \<Rightarrow> bool" where
  "channel_inv ch \<longleftrightarrow>
     map lun_id (ch_luns ch) = map word_of_nat [0..<unat (ch_num_luns ch)] \<and>
     list_all (lun_ok (ch_num_blocks ch)) (ch_luns ch) \<and>
     unat (ch_num_used_blocks ch) = sum_list (map lun_used (ch_luns ch)) \<and>
     unat (ch_num_total_blocks ch) = unat (ch_num_blocks ch) * unat (ch_num_luns ch)"

text \<open>What one LUN gives for a share of \<open>q\<close> blocks, and the LUN afterwards.\<close>

definition lun_share :: "nat \<Rightarrow> ocssd_lun \<Rightarrow> nat" where
  "lun_share q l = min q (unat (lun_num_blocks l) - lun_used l)"

definition lun_take :: "nat \<Rightarrow> ocssd_lun \<Rightarrow> ocssd_lun" where
  "lun_take q l = l\<lparr>lun_num_used := lun_num_used l + word_of_nat (lun_share q l)\<rparr>"

definition lun_full :: "ocssd_lun \<Rightarrow> bool" where
  "lun_full l \<longleftrightarrow> lun_num_used l = lun_num_blocks l"

text \<open>Blocks are pairs (LUN, block): the ones a channel has given away, and the ones a list of
  allocated units names.\<close>

definition channel_blocks :: "ocssd_channel \<Rightarrow> (nat \<times> nat) set" where
  "channel_blocks ch = (\<Union>l\<in>set (ch_luns ch). {unat (lun_id l)} \<times> {0..<lun_used l})"

fun alloc_unit_blocks :: "alloc_unit \<Rightarrow> (nat \<times> nat) set" where
  "alloc_unit_blocks (l, first, n) = {unat l} \<times> {unat first..<unat first + unat n}"

fun alloc_unit_size :: "alloc_unit \<Rightarrow> nat" where
  "alloc_unit_size (l, first, n) = unat n"

text \<open>The entry a LUN with free blocks contributes to the allocation: empty shares are
  recorded as \<open>(0, 0)\<close>.\<close>

definition lun_unit :: "nat \<Rightarrow> ocssd_lun \<Rightarrow> alloc_unit" where
  "lun_unit q l = (lun_id l, if q = 0 then (0, 0) else (lun_num_used l, word_of_nat (lun_share q l)))"

section \<open>Allocation in a LUN\<close>

lemma unat_min: "unat (min a b :: 'a::len word) = min (unat a) (unat b)"
  by (simp add: min_def word_le_nat_alt)

lemma word_of_nat_unat_le: "n \<le> unat (w :: u64) \<Longrightarrow> unat (word_of_nat n :: u64) = n"
  using unat_bound [of w] by (simp add: unsigned_of_nat take_bit_eq_mod)

lemma lun_share_bounds: "lun_share q l \<le> q" "lun_share q l \<le> unat (lun_num_blocks l)"
  by (auto simp: lun_share_def)

lemma unat_lun_share [simp]: "unat (word_of_nat (lun_share q l) :: u64) = lun_share q l"
  by (rule word_of_nat_unat_le [OF lun_share_bounds(2)])

lemma lun_used_take:
  assumes "lun_num_used l \<le> lun_num_blocks l"
  shows "lun_used (lun_take q l) = lun_used l + lun_share q l"
proof -
  have "lun_used l + lun_share q l \<le> unat (lun_num_blocks l)"
    using assms by (simp add: lun_used_def lun_share_def word_le_nat_alt)
  also have "\<dots> < 2 ^ 64" using unat_bound [of "lun_num_blocks l"] by simp
  finally show ?thesis
    by (simp add: lun_take_def lun_used_def unat_word_ariths)
qed

lemma lun_take_ok:
  assumes "lun_ok nb l"
  shows "lun_ok nb (lun_take q l)"
proof -
  have "lun_used l + lun_share q l \<le> unat nb"
    using assms by (auto simp: lun_ok_def lun_used_def lun_share_def word_le_nat_alt)
  moreover have "lun_used (lun_take q l) = lun_used l + lun_share q l"
    using assms by (intro lun_used_take) (simp add: lun_ok_def)
  ultimately show ?thesis using assms
    by (simp add: lun_ok_def lun_used_def word_le_nat_alt lun_take_def)
qed

lemma lun_take_id [simp]: "lun_id (lun_take q l) = lun_id l"
  by (simp add: lun_take_def)

lemma lun_full_share: "lun_full l \<Longrightarrow> lun_share q l = 0"
  by (simp add: lun_full_def lun_share_def lun_used_def)

lemma lun_share_0: "lun_share q l = 0 \<Longrightarrow> lun_take q l = l"
  by (simp add: lun_take_def)

lemma lun_alloc_blocks_eq:
  assumes "lun_ok nb l" "\<not> lun_full l"
  shows "lun_alloc_blocks l (0, 0) q =
    (word_of_nat (lun_share (unat q) l), snd (lun_unit (unat q) l), lun_take (unat q) l)"
proof (cases "q = 0")
  case True
  then show ?thesis
    by (simp add: lun_alloc_blocks_def lun_unit_def lun_share_def lun_take_def)
next
  case False
  have "lun_num_used l \<le> lun_num_blocks l" using assms by (simp add: lun_ok_def)
  then have "unat (lun_num_blocks l - lun_num_used l) = unat (lun_num_blocks l) - lun_used l"
    by (simp add: unat_sub lun_used_def)
  then have "min q (lun_num_blocks l - lun_num_used l) = word_of_nat (lun_share (unat q) l)"
    by (simp add: word_unat_eq_iff) (simp add: unat_min lun_share_def)
  moreover have "unat q \<noteq> 0" using False by (simp add: unat_eq_0)
  ultimately show ?thesis using assms(2) False
    by (simp add: lun_alloc_blocks_def lun_unit_def lun_full_def Let_def lun_take_def)
qed

section \<open>Allocation in a channel\<close>

definition shares :: "nat \<Rightarrow> ocssd_lun list \<Rightarrow> nat" where
  "shares q ls = sum_list (map (lun_share q) ls)"

lemma shares_simps [simp]: "shares q [] = 0" "shares q (l # ls) = lun_share q l + shares q ls"
  by (simp_all add: shares_def)

lemma shares_le: "shares q ls \<le> q * length ls"
  by (induction ls) (auto intro: add_mono lun_share_bounds)

lemma lun_full_iff: "lun_ok nb l \<Longrightarrow> lun_num_used l \<ge> nb \<longleftrightarrow> lun_full l"
  by (auto simp: lun_ok_def lun_full_def)

text \<open>The loop distributes exactly the LUNs' shares: its early exit is taken at the last LUN or
  not at all.\<close>

lemma alloc_luns_eq:
  assumes "list_all (lun_ok nb) ls" "r \<noteq> 0" "unat q * length ls \<le> unat r"
  shows "alloc_luns nb q ls r a =
    (map (lun_take (unat q)) ls, map (lun_unit (unat q)) (filter (\<lambda>l. \<not> lun_full l) ls),
     a + word_of_nat (shares (unat q) ls))"
  using assms
proof (induction ls arbitrary: r a)
  case Nil
  then show ?case by simp
next
  case (Cons l ls)
  let ?Q = "unat q"
  have ok: "lun_ok nb l" "list_all (lun_ok nb) ls" and len: "?Q + ?Q * length ls \<le> unat r"
    using Cons.prems by auto
  show ?case
  proof (cases "lun_full l")
    case True
    then show ?thesis
      using Cons.IH [OF ok(2) Cons.prems(2)] len lun_full_iff [OF ok(1)]
      by (simp add: lun_full_share lun_share_0)
  next
    case False
    let ?r = "r - word_of_nat (lun_share ?Q l)"
    have "lun_share ?Q l \<le> unat r"
      using lun_share_bounds(1) [of ?Q l] len by linarith
    then have r': "unat ?r = unat r - lun_share ?Q l"
      by (simp add: unat_sub word_le_nat_alt)
    show ?thesis
    proof (cases "?r = 0")
      case True
      then have "unat r = lun_share ?Q l" using r' \<open>lun_share ?Q l \<le> unat r\<close> by simp
      with len lun_share_bounds(1) [of ?Q l] have "?Q * length ls = 0" "?Q = unat r" by linarith+
      then have "ls = []" using Cons.prems(2) by (auto simp: unat_eq_0)
      with True False lun_full_iff [OF ok(1)] lun_alloc_blocks_eq [OF ok(1) False, of q]
      show ?thesis by (simp add: lun_unit_def)
    next
      case r0: False
      have "?Q * length ls \<le> unat ?r"
        using r' len lun_share_bounds(1) [of ?Q l] by linarith
      then show ?thesis
        using False r0 lun_full_iff [OF ok(1)] lun_alloc_blocks_eq [OF ok(1) False, of q]
          Cons.IH [OF ok(2) r0]
        by (simp add: lun_unit_def add.assoc)
    qed
  qed
qed

lemma lun_used_le: "lun_ok nb l \<Longrightarrow> lun_used l + lun_share q l \<le> unat nb"
  by (auto simp: lun_ok_def lun_used_def lun_share_def word_le_nat_alt)

lemma sum_used_take:
  "list_all (lun_ok nb) ls \<Longrightarrow>
   sum_list (map lun_used (map (lun_take q) ls)) = sum_list (map lun_used ls) + shares q ls"
  by (induction ls) (auto simp: lun_used_take lun_ok_def)

lemma used_shares_bound:
  "list_all (lun_ok nb) ls \<Longrightarrow> sum_list (map lun_used ls) + shares q ls \<le> unat nb * length ls"
proof (induction ls)
  case Nil
  then show ?case by simp
next
  case (Cons l ls)
  then show ?case using lun_used_le [of nb l q] by simp
qed

lemma channel_inv_length: "channel_inv ch \<Longrightarrow> length (ch_luns ch) = unat (ch_num_luns ch)"
  unfolding channel_inv_def by (metis diff_zero length_map length_upt)

lemma channel_full_shares:
  assumes "channel_inv ch" "ch_num_used_blocks ch = ch_num_total_blocks ch"
  shows "shares q (ch_luns ch) = 0"
proof -
  have "list_all (lun_ok (ch_num_blocks ch)) (ch_luns ch)" using assms by (simp add: channel_inv_def)
  from used_shares_bound [OF this, of q] show ?thesis
    using assms channel_inv_length [OF assms(1)] by (auto simp: channel_inv_def)
qed

lemma map_lun_take_0: "shares q ls = 0 \<Longrightarrow> map (lun_take q) ls = ls"
  by (induction ls) (auto simp: lun_share_0)

definition channel_units :: "nat \<Rightarrow> ocssd_channel \<Rightarrow> u64 \<Rightarrow> alloc_unit list" where
  "channel_units q ch r =
     (if ch_num_used_blocks ch = ch_num_total_blocks ch \<or> r = 0 then []
      else map (lun_unit q) (filter (\<lambda>l. \<not> lun_full l) (ch_luns ch)))"

definition channel_take :: "nat \<Rightarrow> ocssd_channel \<Rightarrow> ocssd_channel" where
  "channel_take q ch =
     ch\<lparr>ch_luns := map (lun_take q) (ch_luns ch),
        ch_num_used_blocks := ch_num_used_blocks ch + word_of_nat (shares q (ch_luns ch))\<rparr>"

lemma channel_alloc_blocks_eq:
  assumes inv: "channel_inv ch" and q: "q = unat r div unat (ch_num_luns ch)"
  shows "channel_alloc_blocks ch us r =
    Some (word_of_nat (shares q (ch_luns ch)), us @ channel_units q ch r, channel_take q ch)"
proof -
  consider (exit) "ch_num_used_blocks ch = ch_num_total_blocks ch \<or> r = 0"
    | (alloc) "ch_num_used_blocks ch \<noteq> ch_num_total_blocks ch" "r \<noteq> 0" by blast
  then show ?thesis
  proof cases
    case exit
    have "shares q (ch_luns ch) = 0"
      using exit channel_full_shares [OF inv] shares_le [of 0] q by auto
    with exit show ?thesis
      by (simp add: channel_alloc_blocks_def channel_units_def channel_take_def map_lun_take_0)
  next
    case alloc
    have n0: "ch_num_luns ch \<noteq> 0"
    proof
      assume "ch_num_luns ch = 0"
      then have "ch_luns ch = []" "unat (ch_num_total_blocks ch) = 0"
        using inv channel_inv_length [OF inv] by (auto simp: channel_inv_def)
      with inv alloc(1) show False
        by (auto simp: channel_inv_def unat_eq_0)
    qed
    have "unat (r div ch_num_luns ch) = q" by (simp add: q unat_div)
    moreover have "q * length (ch_luns ch) \<le> unat r"
      by (simp add: q channel_inv_length [OF inv])
    ultimately show ?thesis
      using alloc n0 inv alloc_luns_eq [of "ch_num_blocks ch" "ch_luns ch" r "r div ch_num_luns ch" 0]
      by (simp add: channel_alloc_blocks_def channel_units_def channel_take_def channel_inv_def Let_def)
  qed
qed

section \<open>The blocks an allocation takes\<close>

lemma distinct_lun_ids:
  assumes "channel_inv ch"
  shows "distinct (map (\<lambda>l. unat (lun_id l)) (ch_luns ch))"
proof -
  have "map (\<lambda>l. unat (lun_id l)) (ch_luns ch) = map unat (map lun_id (ch_luns ch))" by simp
  also have "\<dots> = map (\<lambda>i. unat (word_of_nat i :: u64)) [0..<unat (ch_num_luns ch)]"
    using assms by (simp add: channel_inv_def)
  also have "\<dots> = [0..<unat (ch_num_luns ch)]"
    by (rule map_idI) (auto intro: word_of_nat_unat_le [OF less_imp_le])
  finally show ?thesis by simp
qed

lemma lun_id_range:
  assumes "channel_inv ch" "l \<in> set (ch_luns ch)"
  shows "unat (lun_id l) < unat (ch_num_luns ch)"
proof -
  have "lun_id l \<in> set (map word_of_nat [0..<unat (ch_num_luns ch)])"
    using assms unfolding channel_inv_def by (metis image_eqI set_map)
  then show ?thesis using word_of_nat_unat_le [OF less_imp_le] by auto
qed

lemma channel_take_inv:
  assumes "channel_inv ch"
  shows "channel_inv (channel_take q ch)"
proof -
  let ?ls = "ch_luns ch"
  have ok: "list_all (lun_ok (ch_num_blocks ch)) ?ls" using assms by (simp add: channel_inv_def)
  then have "list_all (lun_ok (ch_num_blocks ch)) (map (lun_take q) ?ls)"
    by (auto simp: list_all_iff lun_take_ok)
  moreover have b: "sum_list (map lun_used ?ls) + shares q ?ls \<le> unat (ch_num_total_blocks ch)"
    using used_shares_bound [OF ok, of q] assms channel_inv_length [OF assms] by (simp add: channel_inv_def)
  have "unat (ch_num_used_blocks ch + word_of_nat (shares q ?ls)) = unat (ch_num_used_blocks ch) + shares q ?ls"
    using b assms word_of_nat_unat_le [of "shares q ?ls" "ch_num_total_blocks ch"]
      unat_bound [of "ch_num_total_blocks ch"]
    by (simp add: unat_word_ariths channel_inv_def)
  moreover have "map lun_id (map (lun_take q) ?ls) = map lun_id ?ls" by simp
  ultimately show ?thesis
    using assms sum_used_take [OF ok, of q]
    by (simp add: channel_inv_def channel_take_def comp_def)
qed

definition fresh_blocks :: "nat \<Rightarrow> ocssd_channel \<Rightarrow> (nat \<times> nat) set" where
  "fresh_blocks q ch =
     (\<Union>l\<in>set (ch_luns ch). {unat (lun_id l)} \<times> {lun_used l..<lun_used l + lun_share q l})"

lemma channel_take_blocks:
  assumes "channel_inv ch"
  shows "channel_blocks (channel_take q ch) = channel_blocks ch \<union> fresh_blocks q ch"
proof -
  have "{unat (lun_id (lun_take q l))} \<times> {0..<lun_used (lun_take q l)} =
      {unat (lun_id l)} \<times> {0..<lun_used l} \<union>
      {unat (lun_id l)} \<times> {lun_used l..<lun_used l + lun_share q l}" if "l \<in> set (ch_luns ch)" for l
  proof -
    have "lun_ok (ch_num_blocks ch) l" using assms that by (simp add: channel_inv_def list_all_iff)
    then have "lun_used (lun_take q l) = lun_used l + lun_share q l"
      by (intro lun_used_take) (simp add: lun_ok_def)
    then show ?thesis by auto
  qed
  then show ?thesis by (auto simp: channel_blocks_def fresh_blocks_def channel_take_def)
qed

lemma channel_fresh_disjoint:
  assumes "channel_inv ch"
  shows "channel_blocks ch \<inter> fresh_blocks q ch = {}"
proof -
  have "l = l'" if "l \<in> set (ch_luns ch)" "l' \<in> set (ch_luns ch)" "unat (lun_id l) = unat (lun_id l')" for l l'
    using distinct_lun_ids [OF assms] that by (auto simp: distinct_map inj_on_def)
  then show ?thesis by (fastforce simp: channel_blocks_def fresh_blocks_def)
qed

lemma lun_share_zero [simp]: "lun_share 0 l = 0"
  by (simp add: lun_share_def)

lemma lun_unit_size: "alloc_unit_size (lun_unit q l) = lun_share q l"
  by (cases "q = 0") (simp_all add: lun_unit_def)

lemma lun_unit_blocks_eq:
  "alloc_unit_blocks (lun_unit q l) = {unat (lun_id l)} \<times> {lun_used l..<lun_used l + lun_share q l}"
  by (cases "q = 0") (simp_all add: lun_unit_def lun_used_def)

lemma shares_0_fresh: "shares q (ch_luns ch) = 0 \<Longrightarrow> fresh_blocks q ch = {}"
  by (auto simp: fresh_blocks_def shares_def)

lemma channel_units_exit:
  assumes "channel_inv ch" "q = unat r div unat (ch_num_luns ch)"
    "ch_num_used_blocks ch = ch_num_total_blocks ch \<or> r = 0"
  shows "shares q (ch_luns ch) = 0"
  using assms channel_full_shares [OF assms(1)] shares_le [of 0] by auto

lemma channel_units_blocks:
  assumes "channel_inv ch" "q = unat r div unat (ch_num_luns ch)"
  shows "(\<Union>u\<in>set (channel_units q ch r). alloc_unit_blocks u) = fresh_blocks q ch"
proof (cases "ch_num_used_blocks ch = ch_num_total_blocks ch \<or> r = 0")
  case True
  then show ?thesis
    using shares_0_fresh [OF channel_units_exit [OF assms True]] by (auto simp: channel_units_def)
next
  case False
  then show ?thesis
    by (auto simp: channel_units_def fresh_blocks_def lun_unit_blocks_eq)
      (metis lun_full_share add.right_neutral less_le_not_le)
qed

lemma channel_units_size:
  assumes "channel_inv ch" "q = unat r div unat (ch_num_luns ch)"
  shows "sum_list (map alloc_unit_size (channel_units q ch r)) = shares q (ch_luns ch)"
proof (cases "ch_num_used_blocks ch = ch_num_total_blocks ch \<or> r = 0")
  case True
  then show ?thesis
    using channel_units_exit [OF assms True] by (auto simp: channel_units_def)
next
  case False
  have "sum_list (map (lun_share q) (filter (\<lambda>l. \<not> lun_full l) ls)) = shares q ls" for ls
    by (induction ls) (auto simp: lun_full_share)
  with False show ?thesis by (simp add: channel_units_def lun_unit_size comp_def)
qed

lemma channel_units_luns:
  assumes "channel_inv ch"
  shows "distinct (map (\<lambda>u. unat (fst u)) (channel_units q ch r))"
proof -
  have "distinct (map (\<lambda>l. unat (lun_id l)) (filter (\<lambda>l. \<not> lun_full l) (ch_luns ch)))"
    using distinct_lun_ids [OF assms] by (rule distinct_map_filter)
  then show ?thesis by (simp add: channel_units_def lun_unit_def comp_def)
qed

lemma channel_units_bounds:
  assumes "channel_inv ch" "(l, f, n) \<in> set (channel_units q ch r)"
  shows "unat l < unat (ch_num_luns ch)" "unat f + unat n \<le> unat (ch_num_blocks ch)"
proof -
  obtain x where x: "x \<in> set (ch_luns ch)" "(l, f, n) = lun_unit q x"
    using assms(2) by (auto simp: channel_units_def split: if_splits)
  then have ok: "lun_ok (ch_num_blocks ch) x" using assms(1) by (simp add: channel_inv_def list_all_iff)
  show "unat l < unat (ch_num_luns ch)"
    using lun_id_range [OF assms(1) x(1)] x(2) by (simp add: lun_unit_def)
  show "unat f + unat n \<le> unat (ch_num_blocks ch)"
    using lun_used_le [OF ok, of q] x(2) by (auto simp: lun_unit_def lun_used_def split: if_splits)
qed

lemma channel_units_length: "length (channel_units q ch r) \<le> length (ch_luns ch)"
  by (simp add: channel_units_def)

lemma channel_take_0: "shares q (ch_luns ch) = 0 \<Longrightarrow> channel_take q ch = ch"
  by (simp add: channel_take_def map_lun_take_0)

text \<open>A channel is a block allocator for its own blocks.\<close>

definition channel_grant :: "ocssd_channel \<Rightarrow> u64 \<Rightarrow> (alloc_unit list \<times> ocssd_channel) option" where
  "channel_grant ch r = map_option (\<lambda>(_, us, ch'). (us, ch')) (channel_alloc_blocks ch [] r)"

definition units_blocks :: "alloc_unit list \<Rightarrow> (nat \<times> nat) set" where
  "units_blocks us = (\<Union>u\<in>set us. alloc_unit_blocks u)"

interpretation channel: block_allocator channel_grant channel_blocks units_blocks channel_inv
proof unfold_locales
  fix ch r assume "channel_inv ch"
  then show "\<exists>us ch'. channel_grant ch r = Some (us, ch')"
    by (simp add: channel_grant_def channel_alloc_blocks_eq)
next
  fix ch r us ch' assume "channel_inv ch" "channel_grant ch r = Some (us, ch')"
  then show "channel_inv ch'"
    by (auto simp: channel_grant_def channel_alloc_blocks_eq channel_take_inv)
next
  fix ch r us ch' assume "channel_inv ch" "channel_grant ch r = Some (us, ch')"
  then show "channel_blocks ch' = channel_blocks ch \<union> units_blocks us"
    by (clarsimp simp: channel_grant_def channel_alloc_blocks_eq)
      (simp add: channel_take_blocks units_blocks_def channel_units_blocks)
next
  fix ch r us ch' assume "channel_inv ch" "channel_grant ch r = Some (us, ch')"
  then show "channel_blocks ch \<inter> units_blocks us = {}"
    by (clarsimp simp: channel_grant_def channel_alloc_blocks_eq)
      (simp add: units_blocks_def channel_units_blocks channel_fresh_disjoint)
qed

text \<open>A new channel is consistent and has given nothing away.\<close>

lemma channel_new_inv:
  assumes "unat nb * unat nl < 2 ^ 64"
  shows "channel_inv (ocssd_channel_new i nl nb)" "channel_blocks (ocssd_channel_new i nl nb) = {}"
  using assms
  by (auto simp: channel_inv_def ocssd_channel_new_def ocssd_lun_new_def lun_ok_def list_all_iff
      comp_def lun_used_def unat_word_ariths channel_blocks_def)

section \<open>Theorems\<close>

text \<open>C14: Allocation in a channel whose counters are consistent always returns, keeps them
  consistent, gives at most what was asked for, and the units it reports (one per LUN at most)
  are exactly the blocks that become used: none of them was used before, and their sizes add up
  to the return value.\<close>

theorem channel_alloc_blocks_correct:
  assumes "channel_inv ch"
  shows "\<exists>n us ch'. channel_alloc_blocks ch [] r = Some (n, us, ch') \<and> channel_inv ch' \<and>
    n \<le> r \<and> sum_list (map alloc_unit_size us) = unat n \<and>
    distinct (map (\<lambda>u. unat (fst u)) us) \<and>
    channel_blocks ch' = channel_blocks ch \<union> (\<Union>u\<in>set us. alloc_unit_blocks u) \<and>
    channel_blocks ch \<inter> (\<Union>u\<in>set us. alloc_unit_blocks u) = {}"
proof -
  define q where "q = unat r div unat (ch_num_luns ch)"
  let ?S = "shares q (ch_luns ch)"
  have "?S \<le> q * unat (ch_num_luns ch)"
    using shares_le [of q "ch_luns ch"] channel_inv_length [OF assms] by simp
  also have "\<dots> \<le> unat r" by (simp add: q_def)
  finally have S: "?S \<le> unat r" .
  then have "unat (word_of_nat ?S :: u64) = ?S" by (rule word_of_nat_unat_le)
  then show ?thesis
    using S channel_alloc_blocks_eq [OF assms q_def, of "[]"] channel_take_inv [OF assms, of q]
      channel_take_blocks [OF assms, of q] channel_fresh_disjoint [OF assms, of q]
      channel_units_blocks [OF assms q_def] channel_units_size [OF assms q_def]
      channel_units_luns [OF assms, of q r]
    by (auto simp: word_le_nat_alt)
qed

theorem channel_alloc_blocks_correct_witness:
  "\<exists>n us ch'. channel_alloc_blocks (ocssd_channel_new 0 2 8) [] 7 = Some (n, us, ch') \<and> channel_inv ch' \<and>
    sum_list (map alloc_unit_size us) = unat n \<and>
    channel_blocks ch' = channel_blocks (ocssd_channel_new 0 2 8) \<union> (\<Union>u\<in>set us. alloc_unit_blocks u)"
proof -
  have "channel_inv (ocssd_channel_new 0 2 8)" by (rule channel_new_inv) simp
  from channel_alloc_blocks_correct [OF this, of 7] show ?thesis by (elim exE conjE) (intro exI conjI)
qed

end
