(* ===== verification/Requests.thy ===== *)
theory Requests
  imports Wire
begin

text \<open>
  The two fixed-size request messages of \<^verbatim>\<open>src/ocssd_server.h\<close>:
  \<^verbatim>\<open>ocssd_io_request\<close> (read, write, erase a block) and
  \<^verbatim>\<open>ocssd_alloc_request\<close> (allocate a virtual SSD).  A constructor that reads a
  buffer throws \<^verbatim>\<open>std::runtime_error\<close> on a wrong magic number: the result is
  \<open>Some (Inl e)\<close>; a read outside the buffer is \<^term>\<open>None\<close>.  The theorems show that
  encoding and parsing are inverse to each other, and what the error branches do.
\<close>

section \<open>Constants and data\<close>

datatype cxx_exception = std_exception | runtime_error string

datatype REQUEST_CODE =
    NO_REQUEST
  | ALLOC_VSSD_REQUEST
  | READ_BLOCK_REQUEST
  | WRITE_BLOCK_REQUEST
  | ERASE_BLOCK_REQUEST

definition READ_BLOCK_MAGIC :: u32 where "READ_BLOCK_MAGIC = 0x6401"
definition WRITE_BLOCK_MAGIC :: u32 where "WRITE_BLOCK_MAGIC = 0x6402"
definition ERASE_BLOCK_MAGIC :: u32 where "ERASE_BLOCK_MAGIC = 0x6403"
definition REQUEST_MAGIC :: u32 where "REQUEST_MAGIC = 0x6501"

definition MESSAGE_BUFFER_SIZE :: nat where "MESSAGE_BUFFER_SIZE = 24"
definition REQUEST_IO_SIZE :: nat where "REQUEST_IO_SIZE = 24"
definition REQUEST_ALLOC_SIZE :: nat where "REQUEST_ALLOC_SIZE = 24"

definition init_request_failed :: cxx_exception where
  "init_request_failed = runtime_error (''Error: init request failed'' @ [CHR 0x0A])"

section \<open>Block I/O requests\<close>

record ocssd_io_request =
  io_command :: REQUEST_CODE
  io_block_index :: u32
  io_count :: u64
  io_offset :: u64

definition ocssd_io_request_new :: "REQUEST_CODE \<Rightarrow> u32 \<Rightarrow> u64 \<Rightarrow> u64 \<Rightarrow> ocssd_io_request" where
  "ocssd_io_request_new command block_index count offset =
     \<lparr>io_command = command, io_block_index = block_index, io_count = count, io_offset = offset\<rparr>"

text \<open>The \<^verbatim>\<open>switch (magic)\<close> of the parsing constructor; its default leaves
  \<^verbatim>\<open>command_\<close> uninitialised.\<close>

definition io_magic_command :: "u32 \<Rightarrow> REQUEST_CODE option" where
  "io_magic_command magic =
     (if magic = READ_BLOCK_MAGIC then Some READ_BLOCK_REQUEST
      else if magic = WRITE_BLOCK_MAGIC then Some WRITE_BLOCK_REQUEST
      else if magic = ERASE_BLOCK_MAGIC then Some ERASE_BLOCK_REQUEST
      else None)"

definition ocssd_io_request_parse :: "byte list \<Rightarrow> (cxx_exception + ocssd_io_request) option" where
  "ocssd_io_request_parse buffer = do {
     (magic, p) \<leftarrow> deserialize_data4 (start buffer);
     if magic \<noteq> READ_BLOCK_MAGIC \<and> magic \<noteq> WRITE_BLOCK_MAGIC \<and> magic \<noteq> ERASE_BLOCK_MAGIC
     then Some (Inl init_request_failed)
     else do {
       command \<leftarrow> io_magic_command magic;
       (block_index, p) \<leftarrow> deserialize_data4 p;
       (count, p) \<leftarrow> deserialize_data8 p;
       (offset, p) \<leftarrow> deserialize_data8 p;
       Some (Inr \<lparr>io_command = command, io_block_index = block_index,
                  io_count = count, io_offset = offset\<rparr>) } }"

text \<open>The \<^verbatim>\<open>switch (command_)\<close> of \<^verbatim>\<open>serialize\<close>; its default
  returns 0 and writes nothing.\<close>

fun io_command_magic :: "REQUEST_CODE \<Rightarrow> u32 option" where
  "io_command_magic READ_BLOCK_REQUEST = Some READ_BLOCK_MAGIC"
| "io_command_magic WRITE_BLOCK_REQUEST = Some WRITE_BLOCK_MAGIC"
| "io_command_magic ERASE_BLOCK_REQUEST = Some ERASE_BLOCK_MAGIC"
| "io_command_magic _ = None"

definition ocssd_io_request_serialize ::
  "byte list \<Rightarrow> ocssd_io_request \<Rightarrow> (byte list \<times> nat) option" where
  "ocssd_io_request_serialize buffer r =
     (case io_command_magic (io_command r) of
        None \<Rightarrow> Some (buffer, 0)
      | Some magic \<Rightarrow> do {
          p \<leftarrow> serialize_data4 (start buffer) magic;
          p \<leftarrow> serialize_data4 p (io_block_index r);
          p \<leftarrow> serialize_data8 p (io_count r);
          p \<leftarrow> serialize_data8 p (io_offset r);
          Some (buf p, pos p) })"

section \<open>Allocation requests\<close>

record ocssd_alloc_request =
  rq_num_channels :: u32
  rq_num_blocks :: u32
  rq_shared :: u32
  rq_numa_id :: u32
  rq_remote :: u32

text \<open>The constructors take \<^verbatim>\<open>size_t\<close> and \<^verbatim>\<open>int\<close> arguments and store
  them in 32-bit fields.\<close>

definition ocssd_alloc_request_new :: "u64 \<Rightarrow> u64 \<Rightarrow> int \<Rightarrow> int \<Rightarrow> int \<Rightarrow> ocssd_alloc_request" where
  "ocssd_alloc_request_new num_channels num_blocks shared numa_id remote =
     \<lparr>rq_num_channels = ucast num_channels, rq_num_blocks = ucast num_blocks,
      rq_shared = word_of_int shared, rq_numa_id = word_of_int numa_id,
      rq_remote = word_of_int remote\<rparr>"

definition ocssd_alloc_request_exclusive :: "u64 \<Rightarrow> int \<Rightarrow> int \<Rightarrow> ocssd_alloc_request" where
  "ocssd_alloc_request_exclusive num_channels numa_id remote =
     \<lparr>rq_num_channels = ucast num_channels, rq_num_blocks = 0, rq_shared = 0,
      rq_numa_id = word_of_int numa_id, rq_remote = word_of_int remote\<rparr>"

definition ocssd_alloc_request_parse :: "byte list \<Rightarrow> (cxx_exception + ocssd_alloc_request) option" where
  "ocssd_alloc_request_parse buffer = do {
     (magic, p) \<leftarrow> deserialize_data4 (start buffer);
     if magic \<noteq> REQUEST_MAGIC then Some (Inl init_request_failed)
     else do {
       (num_channels, p) \<leftarrow> deserialize_data4 p;
       (num_blocks, p) \<leftarrow> deserialize_data4 p;
       (shared, p) \<leftarrow> deserialize_data4 p;
       (numa_id, p) \<leftarrow> deserialize_data4 p;
       (remote, p) \<leftarrow> deserialize_data4 p;
       Some (Inr \<lparr>rq_num_channels = num_channels, rq_num_blocks = num_blocks,
                  rq_shared = shared, rq_numa_id = numa_id, rq_remote = remote\<rparr>) } }"

definition ocssd_alloc_request_serialize ::
  "byte list \<Rightarrow> ocssd_alloc_request \<Rightarrow> (byte list \<times> nat) option" where
  "ocssd_alloc_request_serialize buffer r = do {
     p \<leftarrow> serialize_data4 (start buffer) REQUEST_MAGIC;
     p \<leftarrow> serialize_data4 p (rq_num_channels r);
     p \<leftarrow> serialize_data4 p (rq_num_blocks r);
     p \<leftarrow> serialize_data4 p (rq_shared r);
     p \<leftarrow> serialize_data4 p (rq_numa_id r);
     p \<leftarrow> serialize_data4 p (rq_remote r);
     Some (buf p, pos p) }"

text \<open>\<^verbatim>\<open>dec_channels\<close>: the \<^verbatim>\<open>size_t\<close> argument is subtracted modulo
  \<open>2 ^ 32\<close>.\<close>

definition dec_channels :: "ocssd_alloc_request \<Rightarrow> u64 \<Rightarrow> ocssd_alloc_request" where
  "dec_channels r channels = r\<lparr>rq_num_channels := rq_num_channels r - ucast channels\<rparr>"

section \<open>Images of the messages\<close>

definition io_image :: "u32 \<Rightarrow> ocssd_io_request \<Rightarrow> byte list" where
  "io_image magic r =
     le_enc 4 (unat magic) @ le_enc 4 (unat (io_block_index r)) @
     le_enc 8 (unat (io_count r)) @ le_enc 8 (unat (io_offset r))"

definition alloc_image :: "ocssd_alloc_request \<Rightarrow> byte list" where
  "alloc_image r =
     le_enc 4 (unat REQUEST_MAGIC) @ le_enc 4 (unat (rq_num_channels r)) @
     le_enc 4 (unat (rq_num_blocks r)) @ le_enc 4 (unat (rq_shared r)) @
     le_enc 4 (unat (rq_numa_id r)) @ le_enc 4 (unat (rq_remote r))"

lemmas magic_defs = READ_BLOCK_MAGIC_def WRITE_BLOCK_MAGIC_def ERASE_BLOCK_MAGIC_def REQUEST_MAGIC_def

lemma length_io_image [simp]: "length (io_image m r) = 24"
  by (simp add: io_image_def)

lemma length_alloc_image [simp]: "length (alloc_image r) = 24"
  by (simp add: alloc_image_def)

lemma io_serialize_image:
  "io_command_magic (io_command r) = Some magic \<Longrightarrow>
   ocssd_io_request_serialize buffer r =
     Option.bind (put (start buffer) (io_image magic r)) (\<lambda>p. Some (buf p, pos p))"
  by (simp add: ocssd_io_request_serialize_def io_image_def codec_simps)

lemma alloc_serialize_image:
  "ocssd_alloc_request_serialize buffer r =
     Option.bind (put (start buffer) (alloc_image r)) (\<lambda>p. Some (buf p, pos p))"
  by (simp add: ocssd_alloc_request_serialize_def alloc_image_def codec_simps)

lemma io_magic_command_inverse:
  "io_magic_command magic = Some cmd \<longleftrightarrow> io_command_magic cmd = Some magic"
  by (cases cmd) (auto simp: io_magic_command_def magic_defs)

lemma io_parse_image:
  "ocssd_io_request_parse buffer = Some (Inr r) \<longleftrightarrow>
   (\<exists>magic. io_command_magic (io_command r) = Some magic \<and>
      reads (start buffer) (io_image magic r))"
  (is "?L \<longleftrightarrow> ?R")
proof
  assume ?L
  then show ?R
    by (cases r)
      (auto simp: ocssd_io_request_parse_def Option.bind_eq_Some_conv deserialize_data4_iff
        deserialize_data8_iff io_magic_command_inverse io_image_def reads_append
        split: if_splits)
next
  assume ?R
  then obtain magic where m: "io_command_magic (io_command r) = Some magic"
    "reads (start buffer) (io_image magic r)"
    by auto
  moreover from m(1) have "magic = READ_BLOCK_MAGIC \<or> magic = WRITE_BLOCK_MAGIC \<or> magic = ERASE_BLOCK_MAGIC"
    by (cases "io_command r") auto
  ultimately show ?L
    by (auto simp: ocssd_io_request_parse_def io_image_def reads_append deserialize_data4_reads
        deserialize_data8_reads io_magic_command_inverse [symmetric])
qed

lemma alloc_parse_image:
  "ocssd_alloc_request_parse buffer = Some (Inr r) \<longleftrightarrow>
   reads (start buffer) (alloc_image r)"
  (is "?L \<longleftrightarrow> ?R")
proof
  assume ?L
  then show ?R
    by (cases r)
      (auto simp: ocssd_alloc_request_parse_def Option.bind_eq_Some_conv deserialize_data4_iff
        alloc_image_def reads_append split: if_splits)
next
  assume ?R
  then show ?L
    by (auto simp: ocssd_alloc_request_parse_def alloc_image_def reads_append deserialize_data4_reads)
qed

lemma put_start:
  "length bs \<le> length m \<Longrightarrow>
   put (start m) bs = Some \<lparr>buf = bs @ drop (length bs) m, pos = length bs\<rparr>"
  by (simp add: put_def poke_def)

lemma reads_start_append [simp]: "reads (start (bs @ ys)) bs"
  by (simp add: reads_start_iff)

lemma get_header_append [simp]: "get_header (le_enc 4 (unat w) @ ys) = Some w"
  by (simp add: get_header_def peek_def)

lemma io_image_header [simp]: "get_header (io_image magic r @ ys) = Some magic"
  by (simp add: io_image_def)

lemma alloc_image_header [simp]: "get_header (alloc_image r @ ys) = Some REQUEST_MAGIC"
  by (simp add: alloc_image_def)

section \<open>Theorems\<close>

text \<open>C32: Every read, write or erase request is encoded in exactly 24 bytes, nothing behind them
  is touched, the header is the command's magic number, and parsing the 24 bytes gives the
  request back.\<close>

theorem io_request_roundtrip:
  assumes "io_command_magic (io_command r) = Some magic"
    and "REQUEST_IO_SIZE \<le> length buffer"
  shows "\<exists>out. ocssd_io_request_serialize buffer r = Some (out, REQUEST_IO_SIZE) \<and>
    drop REQUEST_IO_SIZE out = drop REQUEST_IO_SIZE buffer \<and>
    get_header out = Some magic \<and>
    ocssd_io_request_parse (take REQUEST_IO_SIZE out) = Some (Inr r)"
proof -
  have "ocssd_io_request_parse (io_image magic r) = Some (Inr r)"
    using assms(1) reads_start_append [of "io_image magic r" "[]"] by (auto simp: io_parse_image)
  then show ?thesis
    using assms by (simp add: io_serialize_image REQUEST_IO_SIZE_def put_start)
qed

theorem io_request_roundtrip_witness:
  "\<exists>out. ocssd_io_request_serialize (replicate 24 0)
       \<lparr>io_command = WRITE_BLOCK_REQUEST, io_block_index = 7, io_count = 1048576, io_offset = 0\<rparr>
       = Some (out, REQUEST_IO_SIZE) \<and>
    drop REQUEST_IO_SIZE out = drop REQUEST_IO_SIZE (replicate 24 0) \<and>
    get_header out = Some WRITE_BLOCK_MAGIC \<and>
    ocssd_io_request_parse (take REQUEST_IO_SIZE out) = Some (Inr
       \<lparr>io_command = WRITE_BLOCK_REQUEST, io_block_index = 7, io_count = 1048576, io_offset = 0\<rparr>)"
  by (rule io_request_roundtrip) (simp_all add: REQUEST_IO_SIZE_def)

text \<open>C33: On a full 24-byte message, parsing an allocation request and encoding it are inverse:
  the message parses to \<open>r\<close> exactly when encoding \<open>r\<close> over it leaves it as it is, and every
  request encodes to such a message.\<close>

theorem alloc_request_roundtrip:
  assumes "length buffer = REQUEST_ALLOC_SIZE"
  shows "(ocssd_alloc_request_parse buffer = Some (Inr r) \<longleftrightarrow>
      ocssd_alloc_request_serialize buffer r = Some (buffer, REQUEST_ALLOC_SIZE)) \<and>
    (\<exists>out. ocssd_alloc_request_serialize buffer r = Some (out, REQUEST_ALLOC_SIZE) \<and>
      get_header out = Some REQUEST_MAGIC \<and>
      ocssd_alloc_request_parse out = Some (Inr r))"
proof -
  have "ocssd_alloc_request_parse (alloc_image r) = Some (Inr r)"
    using reads_start_append [of "alloc_image r" "[]"] by (auto simp: alloc_parse_image)
  moreover have "get_header (alloc_image r) = Some REQUEST_MAGIC"
    using alloc_image_header [of r "[]"] by simp
  ultimately show ?thesis
    using assms by (auto simp: alloc_serialize_image REQUEST_ALLOC_SIZE_def put_start
        alloc_parse_image reads_start_iff)
qed

theorem alloc_request_roundtrip_witness:
  "(ocssd_alloc_request_parse (replicate 24 0) =
       Some (Inr (ocssd_alloc_request_new 4 1024 1 0 1)) \<longleftrightarrow>
     ocssd_alloc_request_serialize (replicate 24 0) (ocssd_alloc_request_new 4 1024 1 0 1) =
       Some (replicate 24 0, REQUEST_ALLOC_SIZE)) \<and>
   (\<exists>out. ocssd_alloc_request_serialize (replicate 24 0) (ocssd_alloc_request_new 4 1024 1 0 1) =
        Some (out, REQUEST_ALLOC_SIZE) \<and>
      get_header out = Some REQUEST_MAGIC \<and>
      ocssd_alloc_request_parse out = Some (Inr (ocssd_alloc_request_new 4 1024 1 0 1)))"
  by (rule alloc_request_roundtrip) (simp add: REQUEST_ALLOC_SIZE_def)

text \<open>C34: Parsing a 24-byte message never reads outside it, for either request type.  The I/O
  constructor throws exactly when the header is none of the three block magics, the allocation
  constructor exactly when it is not the request magic; otherwise they return a request.\<close>

theorem request_parse_total:
  assumes "length buffer = MESSAGE_BUFFER_SIZE"
  shows "\<exists>header. get_header buffer = Some header \<and>
    (if header \<in> {READ_BLOCK_MAGIC, WRITE_BLOCK_MAGIC, ERASE_BLOCK_MAGIC}
     then \<exists>r. ocssd_io_request_parse buffer = Some (Inr r) \<and>
            io_command_magic (io_command r) = Some header
     else ocssd_io_request_parse buffer = Some (Inl init_request_failed)) \<and>
    (if header = REQUEST_MAGIC
     then \<exists>r. ocssd_alloc_request_parse buffer = Some (Inr r)
     else ocssd_alloc_request_parse buffer = Some (Inl init_request_failed))"
proof -
  have d4: "\<exists>x. deserialize_data4 \<lparr>buf = buffer, pos = k\<rparr> = Some (x, \<lparr>buf = buffer, pos = k + 4\<rparr>)"
    if "k + 4 \<le> 24" for k
    using that assms by (auto simp: deserialize_data4_def peek_def MESSAGE_BUFFER_SIZE_def)
  have d8: "\<exists>x. deserialize_data8 \<lparr>buf = buffer, pos = k\<rparr> = Some (x, \<lparr>buf = buffer, pos = k + 8\<rparr>)"
    if "k + 8 \<le> 24" for k
    using that assms by (auto simp: deserialize_data8_def peek_def MESSAGE_BUFFER_SIZE_def)
  obtain header a b c d e f g where "deserialize_data4 (start buffer) = Some (header, \<lparr>buf = buffer, pos = 4\<rparr>)"
    "deserialize_data4 \<lparr>buf = buffer, pos = 4\<rparr> = Some (a, \<lparr>buf = buffer, pos = 8\<rparr>)"
    "deserialize_data4 \<lparr>buf = buffer, pos = 8\<rparr> = Some (b, \<lparr>buf = buffer, pos = 12\<rparr>)"
    "deserialize_data4 \<lparr>buf = buffer, pos = 12\<rparr> = Some (c, \<lparr>buf = buffer, pos = 16\<rparr>)"
    "deserialize_data4 \<lparr>buf = buffer, pos = 16\<rparr> = Some (d, \<lparr>buf = buffer, pos = 20\<rparr>)"
    "deserialize_data4 \<lparr>buf = buffer, pos = 20\<rparr> = Some (e, \<lparr>buf = buffer, pos = 24\<rparr>)"
    "deserialize_data8 \<lparr>buf = buffer, pos = 8\<rparr> = Some (f, \<lparr>buf = buffer, pos = 16\<rparr>)"
    "deserialize_data8 \<lparr>buf = buffer, pos = 16\<rparr> = Some (g, \<lparr>buf = buffer, pos = 24\<rparr>)"
    using d4 [of 0] d4 [of 4] d4 [of 8] d4 [of 12] d4 [of 16] d4 [of 20] d8 [of 8] d8 [of 16]
    by auto
  moreover from this(1) have "get_header buffer = Some header"
    by (auto simp: deserialize_data4_def get_header_def Option.bind_eq_Some_conv)
  ultimately show ?thesis
    by (auto simp: ocssd_io_request_parse_def ocssd_alloc_request_parse_def io_magic_command_def)
qed

theorem request_parse_total_witness:
  "\<exists>header. get_header (replicate 24 0) = Some header \<and>
    (if header \<in> {READ_BLOCK_MAGIC, WRITE_BLOCK_MAGIC, ERASE_BLOCK_MAGIC}
     then \<exists>r. ocssd_io_request_parse (replicate 24 0) = Some (Inr r) \<and>
            io_command_magic (io_command r) = Some header
     else ocssd_io_request_parse (replicate 24 0) = Some (Inl init_request_failed)) \<and>
    (if header = REQUEST_MAGIC
     then \<exists>r. ocssd_alloc_request_parse (replicate 24 0) = Some (Inr r)
     else ocssd_alloc_request_parse (replicate 24 0) = Some (Inl init_request_failed))"
  by (rule request_parse_total) (simp add: MESSAGE_BUFFER_SIZE_def)

end
