(* ===== verification/Device.thy ===== *)
theory Device
  imports Physical Requests
begin

text \<open>
  One open-channel SSD (\<^verbatim>\<open>ocssd_unit\<close> in \<^verbatim>\<open>src/ocssd_server.h\<close>):
  opening it, splitting its channels into four shared ones and the exclusive rest, allocating
  shared or exclusive channels for a virtual SSD, and its statistics.  liblightnvm is a parameter:
  \<open>dev_open name\<close> is the geometry of the device that \<^verbatim>\<open>nvm_dev_open(name)\<close>
  opens, \<^term>\<open>None\<close> when it fails.  The server runs every request in its event loop, so the
  mutex of a unit is never contended and a method runs as one step.
\<close>

section \<open>Opening a device\<close>

record ocssd_unit =
  du_ip :: string
  du_name :: string
  du_desc :: string
  du_geo :: nvm_geo
  du_channel_count :: int
  du_shared_channels :: "ocssd_channel list"
  du_exclusive_channels :: "ocssd_channel list"

definition assign_to_shared :: "ocssd_unit \<Rightarrow> int" where
  "assign_to_shared u = (if length (du_shared_channels u) < 4 then 1 else 0)"

text \<open>One iteration of the loop in \<^verbatim>\<open>initialize_dev\<close>.\<close>

definition init_channel :: "nat \<Rightarrow> ocssd_unit \<Rightarrow> ocssd_unit" where
  "init_channel i u =
     (let channel = ocssd_channel_new (word_of_nat i) (nluns (du_geo u)) (nblocks (du_geo u));
          u' = (if assign_to_shared u \<noteq> 0
                then u\<lparr>du_shared_channels := du_shared_channels u @ [set_shared channel]\<rparr>
                else u\<lparr>du_exclusive_channels := du_exclusive_channels u @ [channel]\<rparr>)
      in u'\<lparr>du_channel_count := du_channel_count u' + 1\<rparr>)"

definition initialize_dev :: "nvm_geo \<Rightarrow> ocssd_unit \<Rightarrow> ocssd_unit" where
  "initialize_dev geo u = fold init_channel [0..<unat (nchannels geo)] (u\<lparr>du_geo := geo\<rparr>)"

definition open_dev_failed :: cxx_exception where
  "open_dev_failed = runtime_error (''Error: open dev failed'' @ [CHR 0x0A])"

definition ocssd_unit_new ::
  "(string \<Rightarrow> nvm_geo option) \<Rightarrow> string \<Rightarrow> string \<Rightarrow> cxx_exception + ocssd_unit" where
  "ocssd_unit_new dev_open ip name =
     (case dev_open name of
        None \<Rightarrow> Inl open_dev_failed
      | Some geo \<Rightarrow> Inr (initialize_dev geo
          \<lparr>du_ip = ip, du_name = name,
           du_desc = map (\<lambda>c. if c = CHR ''/'' then CHR ''_'' else c) (ip @ name),
           du_geo = geo, du_channel_count = 0,
           du_shared_channels = [], du_exclusive_channels = []\<rparr>))"

section \<open>Allocating channels\<close>

text \<open>The loops over the channels.  \<open>channels\<close> is the local counter, \<open>want\<close> is
  \<^verbatim>\<open>request->get_channels()\<close>; the result is (counter, virtual unit, channels after
  the loop).\<close>

fun alloc_shared_loop ::
  "u64 \<Rightarrow> u32 \<Rightarrow> ocssd_channel list \<Rightarrow> u64 \<Rightarrow> virtual_ocssd_unit \<Rightarrow>
     (u64 \<times> virtual_ocssd_unit \<times> ocssd_channel list) option" where
  "alloc_shared_loop bpc want [] channels vunit = Some (channels, vunit, [])"
| "alloc_shared_loop bpc want (ch # chs) channels vunit = do {
     (allocated, alloc_units, ch') \<leftarrow> channel_alloc_blocks ch [] bpc;
     if allocated > 0 then
       (let vunit' = unit_add vunit
              (virtual_ocssd_channel_of_units (ucast (ch_channel_id ch')) 1 alloc_units);
            channels' = channels + 1
        in if channels' = ucast want then Some (channels', vunit', ch' # chs)
           else do {
             (n, vu, chs') \<leftarrow> alloc_shared_loop bpc want chs channels' vunit';
             Some (n, vu, ch' # chs') })
     else do {
       (n, vu, chs') \<leftarrow> alloc_shared_loop bpc want chs channels vunit;
       Some (n, vu, ch' # chs') } }"

definition alloc_shared_channels ::
  "ocssd_unit \<Rightarrow> virtual_ocssd_unit \<Rightarrow> ocssd_alloc_request \<Rightarrow>
     (u64 \<times> virtual_ocssd_unit \<times> ocssd_unit) option" where
  "alloc_shared_channels u vunit request =
     (if rq_num_channels request = 0 then None
      else let blocks_per_channel = ucast (rq_num_blocks request div rq_num_channels request) in do {
        (n, vu, chs) \<leftarrow> alloc_shared_loop blocks_per_channel (rq_num_channels request)
                          (du_shared_channels u) 0 vunit;
        Some (n, vu, u\<lparr>du_shared_channels := chs\<rparr>) })"

fun alloc_exclusive_loop ::
  "u32 \<Rightarrow> ocssd_channel list \<Rightarrow> u64 \<Rightarrow> virtual_ocssd_unit \<Rightarrow>
     u64 \<times> virtual_ocssd_unit \<times> ocssd_channel list" where
  "alloc_exclusive_loop want [] channels vunit = (channels, vunit, [])"
| "alloc_exclusive_loop want (ch # chs) channels vunit =
     (if ch_used ch \<noteq> 0 then
        let (n, vu, chs') = alloc_exclusive_loop want chs channels vunit in (n, vu, ch # chs')
      else
        let ch' = set_used ch;
            vunit' = unit_add vunit (virtual_ocssd_channel_new (ucast (ch_channel_id ch')) 0
                       (ucast (ch_num_total_blocks ch')) (ucast (ch_num_luns ch')));
            channels' = channels + 1
        in if channels' = ucast want then (channels', vunit', ch' # chs)
           else let (n, vu, chs') = alloc_exclusive_loop want chs channels' vunit'
                in (n, vu, ch' # chs'))"

definition alloc_exclusive_channels ::
  "ocssd_unit \<Rightarrow> virtual_ocssd_unit \<Rightarrow> ocssd_alloc_request \<Rightarrow> u64 \<times> virtual_ocssd_unit \<times> ocssd_unit" where
  "alloc_exclusive_channels u vunit request =
     (let (n, vu, chs) = alloc_exclusive_loop (rq_num_channels request) (du_exclusive_channels u) 0 vunit
      in (n, vu, u\<lparr>du_exclusive_channels := chs\<rparr>))"

definition alloc_channels ::
  "ocssd_unit \<Rightarrow> virtual_ocssd \<Rightarrow> ocssd_alloc_request \<Rightarrow> (u64 \<times> virtual_ocssd \<times> ocssd_unit) option" where
  "alloc_channels u vssd request =
     (if rq_num_channels request = 0 then Some (0, vssd, u)
      else let vunit = virtual_ocssd_unit_new (du_name u) (du_geo u) in do {
        (channels, vunit', u') \<leftarrow>
          (if rq_shared request = 1 then alloc_shared_channels u vunit request
           else Some (alloc_exclusive_channels u vunit request));
        Some (channels, if channels = 0 then vssd else vssd_add vssd vunit', u') })"

section \<open>Statistics\<close>

fun stats_loop :: "ocssd_channel list \<Rightarrow> u64 \<Rightarrow> u64 \<Rightarrow> u64 \<times> u64" where
  "stats_loop [] blocks count = (blocks, count)"
| "stats_loop (ch # chs) blocks count =
     (let free_blocks = get_free_blocks ch
      in if free_blocks > 0 then stats_loop chs (blocks + free_blocks) (count + 1)
         else stats_loop chs blocks count)"

text \<open>(return value, shared channels, exclusive channels, free blocks)\<close>

definition get_ocssd_stats :: "ocssd_unit \<Rightarrow> int \<times> u64 \<times> u64 \<times> u64" where
  "get_ocssd_stats u =
     (let (blocks, shared) = stats_loop (du_shared_channels u) 0 0;
          (blocks, exclusive) = stats_loop (du_exclusive_channels u) blocks 0
      in (0, shared, exclusive, blocks))"

section \<open>Invariant and ownership\<close>

text \<open>Geometries whose counts fit the 32-bit fields of the wire format.\<close>

definition geo_ok :: "nvm_geo \<Rightarrow> bool" where
  "geo_ok g \<longleftrightarrow> unat (nchannels g) < 2 ^ 32 \<and> unat (nluns g) < 2 ^ 32 \<and> unat (nblocks g) < 2 ^ 32"

definition geo_channel :: "nvm_geo \<Rightarrow> ocssd_channel \<Rightarrow> bool" where
  "geo_channel g ch \<longleftrightarrow> channel_inv ch \<and> ch_num_luns ch = nluns g \<and> ch_num_blocks ch = nblocks g \<and>
     unat (ch_channel_id ch) < 2 ^ 32"

definition shared_ok :: "nvm_geo \<Rightarrow> ocssd_channel \<Rightarrow> bool" where
  "shared_ok g ch \<longleftrightarrow> geo_channel g ch \<and> ch_used ch = 0"

definition exclusive_ok :: "nvm_geo \<Rightarrow> ocssd_channel \<Rightarrow> bool" where
  "exclusive_ok g ch \<longleftrightarrow> geo_channel g ch \<and> ch_num_used_blocks ch = 0"

definition device_inv :: "ocssd_unit \<Rightarrow> bool" where
  "device_inv u \<longleftrightarrow> geo_ok (du_geo u) \<and>
     list_all (shared_ok (du_geo u)) (du_shared_channels u) \<and>
     list_all (exclusive_ok (du_geo u)) (du_exclusive_channels u) \<and>
     length (du_shared_channels u) + length (du_exclusive_channels u) = unat (nchannels (du_geo u)) \<and>
     distinct (map (\<lambda>ch. unat (ch_channel_id ch)) (du_shared_channels u @ du_exclusive_channels u))"

text \<open>Blocks of a device are triples (channel, LUN, block).\<close>

type_synonym dev_block = "nat \<times> nat \<times> nat"

definition whole_channel :: "ocssd_channel \<Rightarrow> dev_block set" where
  "whole_channel ch = {unat (ch_channel_id ch)} \<times>
     ({0..<unat (ch_num_luns ch)} \<times> {0..<unat (ch_num_blocks ch)})"

definition shared_part :: "ocssd_channel \<Rightarrow> dev_block set" where
  "shared_part ch = {unat (ch_channel_id ch)} \<times> channel_blocks ch"

definition exclusive_part :: "ocssd_channel \<Rightarrow> dev_block set" where
  "exclusive_part ch = (if ch_used ch = 0 then {} else whole_channel ch)"

definition pool_owned :: "(ocssd_channel \<Rightarrow> dev_block set) \<Rightarrow> ocssd_channel list \<Rightarrow> dev_block set" where
  "pool_owned part chs = (\<Union>ch\<in>set chs. part ch)"

definition device_owned :: "ocssd_unit \<Rightarrow> dev_block set" where
  "device_owned u = pool_owned shared_part (du_shared_channels u) \<union>
     pool_owned exclusive_part (du_exclusive_channels u)"

text \<open>The blocks a virtual channel and a virtual unit describe to the client.\<close>

definition vlun_blocks :: "virtual_ocssd_lun \<Rightarrow> (nat \<times> nat) set" where
  "vlun_blocks l = {unat (vl_lun_id l)} \<times>
     {unat (vl_block_start l)..<unat (vl_block_start l) + unat (vl_num_blocks l)}"

definition vchannel_blocks :: "nvm_geo \<Rightarrow> virtual_ocssd_channel \<Rightarrow> dev_block set" where
  "vchannel_blocks g vch = {unat (vc_channel_id vch)} \<times>
     (if is_shared vch then (\<Union>l\<in>set (vc_luns vch). vlun_blocks l)
      else {0..<unat (vc_num_luns vch)} \<times> {0..<unat (nblocks g)})"

definition vunit_blocks :: "virtual_ocssd_unit \<Rightarrow> dev_block set" where
  "vunit_blocks vu = (\<Union>vch\<in>set (vu_channels vu). vchannel_blocks (vu_geo vu) vch)"

section \<open>Virtual channels describe what was allocated\<close>

definition vlun_of :: "alloc_unit \<Rightarrow> virtual_ocssd_lun" where
  "vlun_of u = virtual_ocssd_lun_new (ucast (fst u)) (ucast (fst (snd u))) (ucast (snd (snd u)))"

lemma fold_add_alloc_unit:
  "vc_luns (fold add_alloc_unit us ch) = vc_luns ch @ map vlun_of us \<and>
   vc_num_luns (fold add_alloc_unit us ch) = vc_num_luns ch + word_of_nat (length us) \<and>
   vc_channel_id (fold add_alloc_unit us ch) = vc_channel_id ch \<and>
   vc_shared (fold add_alloc_unit us ch) = vc_shared ch"
  by (induction us arbitrary: ch) (auto simp: vlun_of_def Let_def)

lemma unat_ucast_u32: "unat (w :: u64) < 2 ^ 32 \<Longrightarrow> unat (ucast w :: u32) = unat w"
  by (simp add: unsigned_ucast_eq take_bit_eq_mod)

lemma vlun_of_blocks:
  assumes "unat l < 2 ^ 32" "unat f + unat n < 2 ^ 32"
  shows "vlun_blocks (vlun_of (l, f, n)) = alloc_unit_blocks (l, f, n)"
proof -
  have "unat f < 2 ^ 32" "unat n < 2 ^ 32" using assms(2) by linarith+
  with assms(1) show ?thesis
    by (simp add: vlun_blocks_def vlun_of_def virtual_ocssd_lun_new_def unat_ucast_u32)
qed

lemma of_units_fields:
  "vc_channel_id (virtual_ocssd_channel_of_units i s us) = i"
  "vc_shared (virtual_ocssd_channel_of_units i s us) = s"
  "vc_luns (virtual_ocssd_channel_of_units i s us) = map vlun_of us"
  "vc_num_luns (virtual_ocssd_channel_of_units i s us) = word_of_nat (length us)"
  by (simp_all add: virtual_ocssd_channel_of_units_def fold_add_alloc_unit virtual_ocssd_channel_new_def)

lemma of_units_blocks:
  assumes "\<And>l f n. (l, f, n) \<in> set us \<Longrightarrow> unat l < 2 ^ 32 \<and> unat f + unat n < 2 ^ 32"
  shows "vchannel_blocks g (virtual_ocssd_channel_of_units i 1 us) = {unat i} \<times> units_blocks us"
proof -
  have "vlun_blocks (vlun_of u) = alloc_unit_blocks u" if "u \<in> set us" for u
    using assms that vlun_of_blocks by (cases u) blast
  then show ?thesis
    by (simp add: vchannel_blocks_def is_shared_def of_units_fields units_blocks_def)
qed

text \<open>One shared channel: the allocation and its description.\<close>

lemma shared_step:
  assumes "geo_ok g" "geo_channel g ch"
  obtains a us ch' where "channel_alloc_blocks ch [] r = Some (a, us, ch')" "geo_channel g ch'"
    "ch_channel_id ch' = ch_channel_id ch" "ch_used ch' = ch_used ch" "a = 0 \<Longrightarrow> ch' = ch"
    "channel_ok (virtual_ocssd_channel_of_units (ucast (ch_channel_id ch')) 1 us)"
    "shared_part ch' = shared_part ch \<union>
       vchannel_blocks g (virtual_ocssd_channel_of_units (ucast (ch_channel_id ch')) 1 us)"
    "shared_part ch \<inter>
       vchannel_blocks g (virtual_ocssd_channel_of_units (ucast (ch_channel_id ch')) 1 us) = {}"
proof -
  define q where "q = unat r div unat (ch_num_luns ch)"
  let ?us = "channel_units q ch r" and ?ch = "channel_take q ch"
  have inv: "channel_inv ch" using assms by (simp add: geo_channel_def)
  have id: "unat (ucast (ch_channel_id ch) :: u32) = unat (ch_channel_id ch)"
    using assms(2) by (simp add: geo_channel_def unat_ucast_u32)
  have blocks: "vchannel_blocks g (virtual_ocssd_channel_of_units (ucast (ch_channel_id ch)) 1 ?us) =
      {unat (ch_channel_id ch)} \<times> units_blocks ?us"
  proof (subst of_units_blocks)
    fix l f n assume "(l, f, n) \<in> set ?us"
    from channel_units_bounds [OF inv this]
    show "unat l < 2 ^ 32 \<and> unat f + unat n < 2 ^ 32"
      using assms by (simp add: geo_ok_def geo_channel_def)
  qed (simp add: id)
  have alloc: "channel_alloc_blocks ch [] r = Some (word_of_nat (shares q (ch_luns ch)), ?us, ?ch)"
    using channel_alloc_blocks_eq [OF inv q_def, of "[]"] by simp
  have grant: "channel_grant ch r = Some (?us, ?ch)" by (simp add: channel_grant_def alloc)
  show thesis
  proof (rule that [OF alloc])
    show "geo_channel g ?ch"
      using assms(2) channel_take_inv [OF inv, of q] by (simp add: geo_channel_def channel_take_def)
    show "ch_channel_id ?ch = ch_channel_id ch" "ch_used ?ch = ch_used ch"
      by (simp_all add: channel_take_def)
    show "?ch = ch" if "word_of_nat (shares q (ch_luns ch)) = (0 :: u64)"
    proof -
      have "shares q (ch_luns ch) \<le> unat (ch_num_total_blocks ch)"
        using used_shares_bound [of "ch_num_blocks ch" "ch_luns ch" q] inv channel_inv_length [OF inv]
        by (simp add: channel_inv_def)
      then have "shares q (ch_luns ch) = 0" using that word_of_nat_unat_le by fastforce
      then show ?thesis by (rule channel_take_0)
    qed
    have "length ?us \<le> unat (nluns g)"
      using channel_units_length [of q ch r] channel_inv_length [OF inv] assms(2)
      by (simp add: geo_channel_def)
    then have "length ?us < 2 ^ 32" using assms(1) by (simp add: geo_ok_def)
    then show "channel_ok (virtual_ocssd_channel_of_units (ucast (ch_channel_id ?ch)) 1 ?us)"
      by (simp add: channel_ok_def of_units_fields unsigned_of_nat take_bit_eq_mod)
  qed (use channel.alloc_owned [OF inv grant] channel.alloc_fresh [OF inv grant] blocks in
      \<open>auto simp: channel_take_def shared_part_def\<close>)
qed

section \<open>The allocation loops\<close>

abbreviation chan :: "ocssd_channel \<Rightarrow> nat" where
  "chan ch \<equiv> unat (ch_channel_id ch)"

definition vchannels_blocks :: "nvm_geo \<Rightarrow> virtual_ocssd_channel list \<Rightarrow> dev_block set" where
  "vchannels_blocks g vchs = (\<Union>vch\<in>set vchs. vchannel_blocks g vch)"

lemma vchannels_blocks_simps [simp]:
  "vchannels_blocks g [] = {}"
  "vchannels_blocks g (v # vs) = vchannel_blocks g v \<union> vchannels_blocks g vs"
  by (simp_all add: vchannels_blocks_def)

lemma pool_owned_simps [simp]:
  "pool_owned part [] = {}"
  "pool_owned part (ch # chs) = part ch \<union> pool_owned part chs"
  by (simp_all add: pool_owned_def)

lemma unat_Suc_u64:
  assumes "unat (c :: u64) < unat (want :: u32)"
  shows "unat (c + 1) = Suc (unat c)" "c + 1 = ucast want \<longleftrightarrow> Suc (unat c) = unat want"
proof -
  have "Suc (unat c) < 2 ^ 64" using assms unat_bound [of want] by simp
  then show s: "unat (c + 1) = Suc (unat c)" by (simp add: unat_word_ariths)
  have "unat (ucast want :: u64) = unat want"
    using unat_bound [of want] by (simp add: unsigned_ucast_eq take_bit_eq_mod)
  then show "c + 1 = ucast want \<longleftrightarrow> Suc (unat c) = unat want"
    by (simp add: word_unat_eq_iff s)
qed

lemma ucast_le_iff: "n \<le> (ucast (want :: u32) :: u64) \<longleftrightarrow> unat n \<le> unat want"
  using unat_bound [of want] by (simp add: word_le_nat_alt unsigned_ucast_eq take_bit_eq_mod)

text \<open>What a loop over channels \<open>chs\<close> does, from counter \<open>c\<close> and virtual unit \<open>vu\<close>, where
  \<open>part\<close> gives the blocks one channel has given away and \<open>P\<close> is kept of every channel.\<close>

definition grants ::
  "(ocssd_channel \<Rightarrow> dev_block set) \<Rightarrow> nvm_geo \<Rightarrow> (ocssd_channel \<Rightarrow> bool) \<Rightarrow> ocssd_channel list \<Rightarrow>
   u32 \<Rightarrow> u64 \<Rightarrow> virtual_ocssd_unit \<Rightarrow> u64 \<times> virtual_ocssd_unit \<times> ocssd_channel list \<Rightarrow> bool" where
  "grants part g P chs want c vu res \<longleftrightarrow> (case res of (n, vu', chs') \<Rightarrow> \<exists>vchs.
     vu' = vu\<lparr>vu_channels := vu_channels vu @ vchs\<rparr> \<and> unat n = unat c + length vchs \<and>
     n \<le> ucast want \<and> list_all channel_ok vchs \<and> list_all P chs' \<and>
     map ch_channel_id chs' = map ch_channel_id chs \<and>
     pool_owned part chs' = pool_owned part chs \<union> vchannels_blocks g vchs \<and>
     pool_owned part chs \<inter> vchannels_blocks g vchs = {})"

text \<open>Both pools of channels (shared and exclusive) account for blocks channel by channel; the
  steps of the two loops are proved once.\<close>

locale channel_pool =
  fixes part :: "ocssd_channel \<Rightarrow> dev_block set"
  assumes part_channel: "x \<in> part ch \<Longrightarrow> fst x = chan ch"
begin

lemma pool_channels: "x \<in> pool_owned part chs \<Longrightarrow> fst x \<in> chan ` set chs"
  by (auto simp: pool_owned_def dest: part_channel)

lemma part_disjoint_tail:
  assumes "chan ch \<notin> chan ` set chs" "map ch_channel_id chs' = map ch_channel_id chs"
    "pool_owned part chs' = pool_owned part chs \<union> B" "ch_channel_id ch' = ch_channel_id ch"
  shows "part ch' \<inter> B = {}" "part ch' \<inter> pool_owned part chs = {}"
proof -
  have "set (map unat (map ch_channel_id chs')) = set (map unat (map ch_channel_id chs))"
    by (simp only: assms(2))
  then have "chan ` set chs' = chan ` set chs" by (simp add: image_image)
  then show "part ch' \<inter> B = {}" "part ch' \<inter> pool_owned part chs = {}"
    using assms part_channel [of _ ch'] pool_channels [of _ chs'] pool_channels [of _ chs] by fastforce+
qed

lemma grants_Nil: "unat c \<le> unat want \<Longrightarrow> grants part g P [] want c vu (c, vu, [])"
  by (simp add: grants_def ucast_le_iff exI [of _ "[]"])

lemma grants_skip:
  assumes "grants part g P chs want c vu (n, vu', chs')" "chan ch \<notin> chan ` set chs" "P ch"
  shows "grants part g P (ch # chs) want c vu (n, vu', ch # chs')"
proof -
  obtain vchs where v: "vu' = vu\<lparr>vu_channels := vu_channels vu @ vchs\<rparr>"
    "unat n = unat c + length vchs" "n \<le> ucast want" "list_all channel_ok vchs" "list_all P chs'"
    "map ch_channel_id chs' = map ch_channel_id chs"
    "pool_owned part chs' = pool_owned part chs \<union> vchannels_blocks g vchs"
    "pool_owned part chs \<inter> vchannels_blocks g vchs = {}"
    using assms(1) by (auto simp: grants_def)
  have "part ch \<inter> vchannels_blocks g vchs = {}"
    by (rule part_disjoint_tail(1) [OF assms(2) v(6,7) refl])
  then show ?thesis using v assms(3) by (auto simp: grants_def intro!: exI [of _ vchs])
qed

lemma grants_last:
  assumes "Suc (unat c) = unat want" "ch_channel_id ch' = ch_channel_id ch" "P ch'" "list_all P chs"
    "channel_ok v" "part ch' = part ch \<union> vchannel_blocks g v" "part ch \<inter> vchannel_blocks g v = {}"
    "chan ch \<notin> chan ` set chs"
  shows "grants part g P (ch # chs) want c vu (c + 1, unit_add vu v, ch' # chs)"
proof -
  have c: "unat (c + 1) = Suc (unat c)" using unat_Suc_u64 [of c want] assms(1) by simp
  have "part ch' \<inter> pool_owned part chs = {}"
    using part_disjoint_tail(2) [OF assms(8) refl _ assms(2), of "{}"] by simp
  then have "pool_owned part chs \<inter> vchannel_blocks g v = {}" using assms(6) by auto
  then show ?thesis
    using assms c by (auto simp: grants_def unit_add_def ucast_le_iff intro!: exI [of _ "[v]"])
qed

lemma grants_more:
  assumes "unat c < unat want" "ch_channel_id ch' = ch_channel_id ch" "P ch'"
    "channel_ok v" "part ch' = part ch \<union> vchannel_blocks g v" "part ch \<inter> vchannel_blocks g v = {}"
    "chan ch \<notin> chan ` set chs" "grants part g P chs want (c + 1) (unit_add vu v) (n, vu', chs')"
  shows "grants part g P (ch # chs) want c vu (n, vu', ch' # chs')"
proof -
  obtain vchs where v: "vu' = (unit_add vu v)\<lparr>vu_channels := vu_channels (unit_add vu v) @ vchs\<rparr>"
    "unat n = unat (c + 1) + length vchs" "n \<le> ucast want" "list_all channel_ok vchs" "list_all P chs'"
    "map ch_channel_id chs' = map ch_channel_id chs"
    "pool_owned part chs' = pool_owned part chs \<union> vchannels_blocks g vchs"
    "pool_owned part chs \<inter> vchannels_blocks g vchs = {}"
    using assms(8) by (auto simp: grants_def)
  have "part ch' \<inter> vchannels_blocks g vchs = {}" "part ch' \<inter> pool_owned part chs = {}"
    using part_disjoint_tail [OF assms(7) v(6,7) assms(2)] by auto
  then have "pool_owned part (ch # chs) \<inter> vchannels_blocks g (v # vchs) = {}"
    using v(8) assms(5,6) by auto
  then show ?thesis
    using v assms(2-5) unat_Suc_u64(1) [OF assms(1)]
    by (auto simp: grants_def unit_add_def intro!: exI [of _ "v # vchs"])
qed

end

interpretation shared: channel_pool shared_part
  by unfold_locales (auto simp: shared_part_def)

interpretation exclusive: channel_pool exclusive_part
  by unfold_locales (auto simp: exclusive_part_def whole_channel_def split: if_splits)

lemma alloc_shared_loop_grants:
  assumes "geo_ok g" "list_all (shared_ok g) chs" "distinct (map chan chs)" "unat c < unat want"
  shows "\<exists>n vu' chs'. alloc_shared_loop bpc want chs c vu = Some (n, vu', chs') \<and>
    grants shared_part g (shared_ok g) chs want c vu (n, vu', chs')"
  using assms(2-)
proof (induction chs arbitrary: c vu)
  case Nil
  then show ?case using shared.grants_Nil by simp
next
  case (Cons ch chs)
  have ch: "shared_ok g ch" and chs: "list_all (shared_ok g) chs"
    and d: "distinct (map chan chs)" and new: "chan ch \<notin> chan ` set chs"
    using Cons.prems by auto
  obtain a us ch' where st: "channel_alloc_blocks ch [] bpc = Some (a, us, ch')" "geo_channel g ch'"
    "ch_channel_id ch' = ch_channel_id ch" "ch_used ch' = ch_used ch" "a = 0 \<Longrightarrow> ch' = ch"
    "channel_ok (virtual_ocssd_channel_of_units (ucast (ch_channel_id ch')) 1 us)"
    "shared_part ch' = shared_part ch \<union>
       vchannel_blocks g (virtual_ocssd_channel_of_units (ucast (ch_channel_id ch')) 1 us)"
    "shared_part ch \<inter>
       vchannel_blocks g (virtual_ocssd_channel_of_units (ucast (ch_channel_id ch')) 1 us) = {}"
    using shared_step [OF assms(1)] ch unfolding shared_ok_def by blast
  let ?v = "virtual_ocssd_channel_of_units (ucast (ch_channel_id ch')) 1 us"
  have ok': "shared_ok g ch'" using st(2,4) ch by (simp add: shared_ok_def)
  consider (none) "a = 0" | (last) "0 < a" "Suc (unat c) = unat want"
    | (more) "0 < a" "Suc (unat c) < unat want"
  proof -
    have "a = 0 \<or> 0 < a" using word_neq_0_conv [of a] by blast
    moreover have "Suc (unat c) = unat want \<or> Suc (unat c) < unat want"
      using Cons.prems(3) by linarith
    ultimately show thesis using that by blast
  qed
  then show ?case
  proof cases
    case none
    obtain n vu' chs' where r: "alloc_shared_loop bpc want chs c vu = Some (n, vu', chs')"
      "grants shared_part g (shared_ok g) chs want c vu (n, vu', chs')"
      using Cons.IH [OF chs d Cons.prems(3)] by blast
    from shared.grants_skip [OF r(2) new ch] none st(1,5) r(1) show ?thesis by simp
  next
    case last
    with shared.grants_last [where ch = ch and P = "shared_ok g", OF last(2) st(3) ok' chs st(6-8) new]
      st(1) unat_Suc_u64 [OF Cons.prems(3)]
    show ?thesis by (simp add: Let_def)
  next
    case more
    then have c1: "unat (c + 1) < unat want" using unat_Suc_u64 [OF Cons.prems(3)] by simp
    obtain n vu' chs' where r: "alloc_shared_loop bpc want chs (c + 1) (unit_add vu ?v) = Some (n, vu', chs')"
      "grants shared_part g (shared_ok g) chs want (c + 1) (unit_add vu ?v) (n, vu', chs')"
      using Cons.IH [OF chs d c1] by blast
    with shared.grants_more [where P = "shared_ok g", OF Cons.prems(3) st(3) ok' st(6-8) new r(2)]
      st(1) more unat_Suc_u64 [OF Cons.prems(3)]
    show ?thesis by (simp add: Let_def)
  qed
qed

lemma exclusive_step:
  assumes "geo_ok g" "exclusive_ok g ch" "ch_used ch = 0"
  shows "exclusive_ok g (set_used ch)" "ch_channel_id (set_used ch) = ch_channel_id ch"
    and "channel_ok (virtual_ocssd_channel_new i 0 t n)"
    and "exclusive_part (set_used ch) = exclusive_part ch \<union> vchannel_blocks g
      (virtual_ocssd_channel_new (ucast (ch_channel_id (set_used ch))) 0 t (ucast (ch_num_luns (set_used ch))))"
    and "exclusive_part ch \<inter> B = {}"
proof -
  show "exclusive_ok g (set_used ch)" using assms(2)
    by (auto simp: exclusive_ok_def geo_channel_def channel_inv_def set_used_def)
  show "exclusive_part (set_used ch) = exclusive_part ch \<union> vchannel_blocks g
      (virtual_ocssd_channel_new (ucast (ch_channel_id (set_used ch))) 0 t (ucast (ch_num_luns (set_used ch))))"
    using assms by (simp add: exclusive_part_def set_used_def whole_channel_def vchannel_blocks_def
        is_shared_def virtual_ocssd_channel_new_def exclusive_ok_def geo_channel_def geo_ok_def unat_ucast_u32)
qed (use assms in \<open>simp_all add: set_used_def channel_ok_def virtual_ocssd_channel_new_def exclusive_part_def\<close>)

lemma alloc_exclusive_loop_grants:
  assumes "geo_ok g" "list_all (exclusive_ok g) chs" "distinct (map chan chs)" "unat c < unat want"
  shows "grants exclusive_part g (exclusive_ok g) chs want c vu (alloc_exclusive_loop want chs c vu)"
  using assms(2-)
proof (induction chs arbitrary: c vu)
  case Nil
  then show ?case using exclusive.grants_Nil by simp
next
  case (Cons ch chs)
  have ch: "exclusive_ok g ch" and chs: "list_all (exclusive_ok g) chs"
    and d: "distinct (map chan chs)" and new: "chan ch \<notin> chan ` set chs"
    using Cons.prems by auto
  let ?v = "virtual_ocssd_channel_new (ucast (ch_channel_id (set_used ch))) 0
    (ucast (ch_num_total_blocks (set_used ch))) (ucast (ch_num_luns (set_used ch)))"
  consider (used) "ch_used ch \<noteq> 0" | (last) "ch_used ch = 0" "Suc (unat c) = unat want"
    | (more) "ch_used ch = 0" "Suc (unat c) < unat want"
    using Cons.prems(3) by linarith
  then show ?case
  proof cases
    case used
    obtain n vu' chs' where r: "alloc_exclusive_loop want chs c vu = (n, vu', chs')"
      by (metis prod_cases3)
    with Cons.IH [OF chs d Cons.prems(3)] have "grants exclusive_part g (exclusive_ok g) chs want c vu (n, vu', chs')"
      by metis
    from exclusive.grants_skip [OF this new ch] r used show ?thesis by simp
  next
    case last
    note st = exclusive_step [OF assms(1) ch last(1)]
    from exclusive.grants_last [where P = "exclusive_ok g", OF last(2) st(2,1) chs st(3) st(4) st(5) new]
      last unat_Suc_u64 [OF Cons.prems(3)]
    show ?thesis by (simp add: Let_def)
  next
    case more
    note st = exclusive_step [OF assms(1) ch more(1)]
    from more have c1: "unat (c + 1) < unat want" using unat_Suc_u64 [OF Cons.prems(3)] by simp
    obtain n vu' chs' where r: "alloc_exclusive_loop want chs (c + 1) (unit_add vu ?v) = (n, vu', chs')"
      by (metis prod_cases3)
    with Cons.IH [OF chs d c1, of "unit_add vu ?v"]
    have "grants exclusive_part g (exclusive_ok g) chs want (c + 1) (unit_add vu ?v) (n, vu', chs')" by metis
    from exclusive.grants_more [where P = "exclusive_ok g", OF Cons.prems(3) st(2,1) st(3) st(4) st(5) new this]
      more unat_Suc_u64 [OF Cons.prems(3)] r
    show ?thesis by (simp add: Let_def)
  qed
qed

section \<open>A device is a block allocator\<close>

lemma grantsD:
  assumes "grants part g P chs want 0 (virtual_ocssd_unit_new nm geo) (n, vu, chs')"
  obtains vchs where "vu = \<lparr>vu_dev_name = nm, vu_geo = geo, vu_channels = vchs\<rparr>"
    "unat n = length vchs" "n \<le> ucast want" "list_all channel_ok vchs" "list_all P chs'"
    "map chan chs' = map chan chs"
    "pool_owned part chs' = pool_owned part chs \<union> vchannels_blocks g vchs"
    "pool_owned part chs \<inter> vchannels_blocks g vchs = {}"
proof -
  obtain vchs where v: "vu = (virtual_ocssd_unit_new nm geo)\<lparr>vu_channels :=
      vu_channels (virtual_ocssd_unit_new nm geo) @ vchs\<rparr>"
    "unat n = unat (0 :: u64) + length vchs" "n \<le> ucast want" "list_all channel_ok vchs" "list_all P chs'"
    "map ch_channel_id chs' = map ch_channel_id chs"
    "pool_owned part chs' = pool_owned part chs \<union> vchannels_blocks g vchs"
    "pool_owned part chs \<inter> vchannels_blocks g vchs = {}"
    using assms by (auto simp: grants_def)
  have "map unat (map ch_channel_id chs') = map unat (map ch_channel_id chs)" by (simp only: v(6))
  then have "map chan chs' = map chan chs" by (simp add: comp_def)
  from that [OF _ _ v(3-5) this v(7,8)] v(1,2) show thesis
    by (simp add: virtual_ocssd_unit_new_def)
qed

text \<open>What \<open>alloc_channels\<close> promises to the manager: a virtual unit is added exactly when
  channels were granted.\<close>

definition grant_units :: "ocssd_unit \<Rightarrow> virtual_ocssd_channel list \<Rightarrow> virtual_ocssd_unit list" where
  "grant_units u vchs = (if vchs = [] then [] else
     [\<lparr>vu_dev_name = du_name u, vu_geo = du_geo u, vu_channels = vchs\<rparr>])"

definition device_grant ::
  "ocssd_unit \<Rightarrow> virtual_ocssd \<Rightarrow> ocssd_alloc_request \<Rightarrow> u64 \<times> virtual_ocssd \<times> ocssd_unit \<Rightarrow> bool" where
  "device_grant u v request res \<longleftrightarrow> (case res of (n, v', u') \<Rightarrow> \<exists>vchs.
     v' = v\<lparr>v_units := v_units v @ grant_units u vchs\<rparr> \<and>
     n \<le> ucast (rq_num_channels request) \<and> unat n = length vchs \<and> list_all channel_ok vchs \<and>
     device_inv u' \<and> du_name u' = du_name u \<and> du_geo u' = du_geo u \<and>
     device_owned u' = device_owned u \<union> vchannels_blocks (du_geo u) vchs \<and>
     device_owned u \<inter> vchannels_blocks (du_geo u) vchs = {})"

lemma grant_units_blocks: "(\<Union>x\<in>set (grant_units u vchs). vunit_blocks x) = vchannels_blocks (du_geo u) vchs"
  by (simp add: grant_units_def vunit_blocks_def vchannels_blocks_def)

lemma device_grantI:
  assumes "n \<le> ucast (rq_num_channels request)" "unat n = length vchs" "list_all channel_ok vchs"
    "device_inv u'" "du_name u' = du_name u" "du_geo u' = du_geo u"
    "device_owned u' = device_owned u \<union> vchannels_blocks (du_geo u) vchs"
    "device_owned u \<inter> vchannels_blocks (du_geo u) vchs = {}"
  shows "device_grant u v request (n, if n = 0 then v else
    vssd_add v \<lparr>vu_dev_name = du_name u, vu_geo = du_geo u, vu_channels = vchs\<rparr>, u')"
proof -
  have "n = 0 \<longleftrightarrow> vchs = []" using assms(2) by (metis length_0_conv unat_eq_0)
  then show ?thesis using assms
    by (auto simp: device_grant_def grant_units_def vssd_add_def intro!: exI [of _ vchs])
qed

lemma alloc_shared_grant:
  assumes "device_inv u" "rq_num_channels request \<noteq> 0" "rq_shared request = 1"
  shows "\<exists>res. alloc_channels u v request = Some res \<and> device_grant u v request res"
proof -
  let ?g = "du_geo u" and ?want = "rq_num_channels request" and ?shared = "du_shared_channels u"
  let ?new = "virtual_ocssd_unit_new (du_name u) ?g"
  have inv: "geo_ok ?g" "list_all (shared_ok ?g) ?shared" "distinct (map chan ?shared)"
    "chan ` set ?shared \<inter> chan ` set (du_exclusive_channels u) = {}"
    and w: "unat (0 :: u64) < unat ?want"
    using assms by (auto simp: device_inv_def unat_gt_0)
  obtain n vu chs where r: "alloc_shared_loop (ucast (rq_num_blocks request div ?want)) ?want
      ?shared 0 ?new = Some (n, vu, chs)"
    "grants shared_part ?g (shared_ok ?g) ?shared ?want 0 ?new (n, vu, chs)"
    using alloc_shared_loop_grants [OF inv(1-3) w] by blast
  from r(2) obtain vchs where v: "vu = \<lparr>vu_dev_name = du_name u, vu_geo = ?g, vu_channels = vchs\<rparr>"
    "unat n = length vchs" "n \<le> ucast ?want" "list_all channel_ok vchs" "list_all (shared_ok ?g) chs"
    "map chan chs = map chan ?shared"
    "pool_owned shared_part chs = pool_owned shared_part ?shared \<union> vchannels_blocks ?g vchs"
    "pool_owned shared_part ?shared \<inter> vchannels_blocks ?g vchs = {}" by (rule grantsD)
  have same: "chan ` set chs = chan ` set ?shared" "length chs = length ?shared"
    using v(6) by (metis list.set_map) (metis v(6) length_map)
  then have "pool_owned exclusive_part (du_exclusive_channels u) \<inter> vchannels_blocks ?g vchs = {}"
    using v(7) inv(4) shared.pool_channels [of _ chs] exclusive.pool_channels by fastforce
  then have "device_grant u v request
      (n, if n = 0 then v else vssd_add v vu, u\<lparr>du_shared_channels := chs\<rparr>)"
    unfolding v(1) using v inv same assms(1)
    by (intro device_grantI) (auto simp: device_inv_def device_owned_def)
  then show ?thesis using assms(2,3) r(1)
    by (simp add: alloc_channels_def alloc_shared_channels_def Let_def)
qed

lemma alloc_exclusive_grant:
  assumes "device_inv u" "rq_num_channels request \<noteq> 0" "rq_shared request \<noteq> 1"
  shows "\<exists>res. alloc_channels u v request = Some res \<and> device_grant u v request res"
proof -
  let ?g = "du_geo u" and ?want = "rq_num_channels request" and ?excl = "du_exclusive_channels u"
  let ?new = "virtual_ocssd_unit_new (du_name u) ?g"
  have inv: "geo_ok ?g" "list_all (exclusive_ok ?g) ?excl" "distinct (map chan ?excl)"
    "chan ` set (du_shared_channels u) \<inter> chan ` set ?excl = {}"
    and w: "unat (0 :: u64) < unat ?want"
    using assms by (auto simp: device_inv_def unat_gt_0)
  obtain n vu chs where r: "alloc_exclusive_loop ?want ?excl 0 ?new = (n, vu, chs)"
    by (metis prod_cases3)
  with alloc_exclusive_loop_grants [OF inv(1-3) w, of ?new]
  have "grants exclusive_part ?g (exclusive_ok ?g) ?excl ?want 0 ?new (n, vu, chs)" by metis
  then obtain vchs where v: "vu = \<lparr>vu_dev_name = du_name u, vu_geo = ?g, vu_channels = vchs\<rparr>"
    "unat n = length vchs" "n \<le> ucast ?want" "list_all channel_ok vchs" "list_all (exclusive_ok ?g) chs"
    "map chan chs = map chan ?excl"
    "pool_owned exclusive_part chs = pool_owned exclusive_part ?excl \<union> vchannels_blocks ?g vchs"
    "pool_owned exclusive_part ?excl \<inter> vchannels_blocks ?g vchs = {}" by (rule grantsD)
  have same: "chan ` set chs = chan ` set ?excl" "length chs = length ?excl"
    using v(6) by (metis list.set_map) (metis v(6) length_map)
  then have "pool_owned shared_part (du_shared_channels u) \<inter> vchannels_blocks ?g vchs = {}"
    using v(7) inv(4) exclusive.pool_channels [of _ chs] shared.pool_channels by fastforce
  then have "device_grant u v request
      (n, if n = 0 then v else vssd_add v vu, u\<lparr>du_exclusive_channels := chs\<rparr>)"
    unfolding v(1) using v inv same assms(1)
    by (intro device_grantI) (auto simp: device_inv_def device_owned_def)
  then show ?thesis using assms(2,3) r
    by (simp add: alloc_channels_def alloc_exclusive_channels_def Let_def)
qed

lemma alloc_channels_grant:
  assumes "device_inv u"
  shows "\<exists>res. alloc_channels u v request = Some res \<and> device_grant u v request res"
proof (cases "rq_num_channels request = 0")
  case True
  then show ?thesis using assms
    by (auto simp: alloc_channels_def device_grant_def grant_units_def intro!: exI [of _ "[]"])
next
  case False
  then show ?thesis using assms alloc_shared_grant alloc_exclusive_grant by blast
qed

definition device_alloc ::
  "ocssd_unit \<Rightarrow> ocssd_alloc_request \<Rightarrow> (virtual_ocssd_unit list \<times> ocssd_unit) option" where
  "device_alloc u request =
     map_option (\<lambda>(_, v, u'). (v_units v, u')) (alloc_channels u virtual_ocssd_new request)"

lemma device_alloc_grant:
  assumes "device_inv u"
  shows "\<exists>vus u'. device_alloc u request = Some (vus, u') \<and> device_inv u' \<and>
    device_owned u' = device_owned u \<union> (\<Union>x\<in>set vus. vunit_blocks x) \<and>
    device_owned u \<inter> (\<Union>x\<in>set vus. vunit_blocks x) = {}"
  using alloc_channels_grant [OF assms, of virtual_ocssd_new request]
  by (auto simp: device_alloc_def device_grant_def virtual_ocssd_new_def grant_units_blocks)

interpretation device: block_allocator device_alloc device_owned
  "\<lambda>vus. \<Union>x\<in>set vus. vunit_blocks x" device_inv
proof unfold_locales
  fix u request assume "device_inv u"
  then show "\<exists>vus u'. device_alloc u request = Some (vus, u')" using device_alloc_grant by blast
next
  fix u request vus u' assume "device_inv u" "device_alloc u request = Some (vus, u')"
  then show "device_inv u'" using device_alloc_grant [of u request] by auto
next
  fix u request vus u' assume "device_inv u" "device_alloc u request = Some (vus, u')"
  then show "device_owned u' = device_owned u \<union> (\<Union>x\<in>set vus. vunit_blocks x)"
    using device_alloc_grant [of u request] by auto
next
  fix u request vus u' assume "device_inv u" "device_alloc u request = Some (vus, u')"
  then show "device_owned u \<inter> (\<Union>x\<in>set vus. vunit_blocks x) = {}"
    using device_alloc_grant [of u request] by auto
qed

section \<open>Initialization\<close>

lemma init_channels:
  fixes u defines "new \<equiv> \<lambda>i. ocssd_channel_new (word_of_nat i) (nluns (du_geo u)) (nblocks (du_geo u))"
  assumes "du_shared_channels u = []" "du_exclusive_channels u = []"
  shows "fold init_channel [0..<n] u =
    u\<lparr>du_shared_channels := map (\<lambda>i. set_shared (new i)) [0..<min 4 n],
      du_exclusive_channels := map new [4..<n], du_channel_count := du_channel_count u + int n\<rparr>"
proof (induction n)
  case 0
  then show ?case using assms by (cases u) simp
next
  case (Suc n)
  show ?case
  proof (cases "n < 4")
    case True
    then have "min 4 n = n" "min 4 (Suc n) = Suc n" by simp_all
    with True Suc show ?thesis
      by (cases u) (simp add: init_channel_def assign_to_shared_def Let_def new_def)
  next
    case False
    then have "min 4 n = 4" "min 4 (Suc n) = 4" by simp_all
    with False Suc show ?thesis
      by (cases u) (simp add: init_channel_def assign_to_shared_def Let_def new_def)
  qed
qed

lemma unat_of_nat_less: "n < 2 ^ 64 \<Longrightarrow> unat (word_of_nat n :: u64) = n"
  by (simp add: unsigned_of_nat take_bit_eq_mod)

lemma geo_ok_product: "geo_ok g \<Longrightarrow> unat (nblocks g) * unat (nluns g) < 2 ^ 64"
proof -
  assume "geo_ok g"
  then have "unat (nblocks g) * unat (nluns g) < 2 ^ 32 * 2 ^ 32"
    unfolding geo_ok_def by (intro mult_strict_mono) auto
  then show ?thesis by simp
qed

section \<open>Counting blocks\<close>

context channel_pool
begin

lemma pool_card:
  assumes "distinct (map chan chs)" "\<And>ch. ch \<in> set chs \<Longrightarrow> finite (part ch)"
  shows "finite (pool_owned part chs)"
    "card (pool_owned part chs) = sum_list (map (\<lambda>ch. card (part ch)) chs)"
  using assms
proof (induction chs)
  case (Cons ch chs)
  { case 1 with Cons show ?case by simp }
  { case 2
    have "part ch \<inter> pool_owned part chs = {}"
      using 2(1) part_channel [of _ ch] pool_channels [of _ chs] by fastforce
    with Cons 2 show ?case by (simp add: card_Un_disjoint) }
qed simp_all

end

lemma channel_blocks_card:
  assumes "channel_inv ch"
  shows "finite (channel_blocks ch)" "card (channel_blocks ch) = unat (ch_num_used_blocks ch)"
proof -
  show "finite (channel_blocks ch)" by (auto simp: channel_blocks_def)
  have "card (\<Union>l\<in>set ls. {unat (lun_id l)} \<times> {0..<lun_used l}) = sum_list (map lun_used ls)"
    if "distinct (map (\<lambda>l. unat (lun_id l)) ls)" for ls
    using that
  proof (induction ls)
    case (Cons l ls)
    have "({unat (lun_id l)} \<times> {0..<lun_used l}) \<inter> (\<Union>l\<in>set ls. {unat (lun_id l)} \<times> {0..<lun_used l}) = {}"
      using Cons.prems by fastforce
    with Cons show ?case by (simp add: card_Un_disjoint card_cartesian_product)
  qed simp
  from this [OF distinct_lun_ids [OF assms]] show "card (channel_blocks ch) = unat (ch_num_used_blocks ch)"
    using assms by (simp add: channel_blocks_def channel_inv_def)
qed

lemma channel_used_le: "channel_inv ch \<Longrightarrow> ch_num_used_blocks ch \<le> ch_num_total_blocks ch"
  using used_shares_bound [of "ch_num_blocks ch" "ch_luns ch" 0] channel_inv_length [of ch]
  by (simp add: channel_inv_def word_le_nat_alt)

lemma shared_free:
  assumes "shared_ok g ch"
  shows "card (shared_part ch) + unat (get_free_blocks ch) = unat (nluns g) * unat (nblocks g)"
    "finite (shared_part ch)"
proof -
  have inv: "channel_inv ch" and u: "ch_used ch = 0" and n: "ch_num_luns ch = nluns g" "ch_num_blocks ch = nblocks g"
    using assms by (auto simp: shared_ok_def geo_channel_def)
  show "finite (shared_part ch)" by (simp add: shared_part_def channel_blocks_card [OF inv])
  have "unat (ch_num_used_blocks ch) \<le> unat (ch_num_total_blocks ch)"
    using channel_used_le [OF inv] by (simp add: word_le_nat_alt)
  then show "card (shared_part ch) + unat (get_free_blocks ch) = unat (nluns g) * unat (nblocks g)"
    using inv u n channel_used_le [OF inv]
    by (simp add: shared_part_def card_cartesian_product channel_blocks_card get_free_blocks_def
        unat_sub channel_inv_def)
qed

lemma exclusive_free:
  assumes "exclusive_ok g ch"
  shows "card (exclusive_part ch) + unat (get_free_blocks ch) = unat (nluns g) * unat (nblocks g)"
    "finite (exclusive_part ch)"
  using assms by (auto simp: exclusive_ok_def geo_channel_def exclusive_part_def whole_channel_def
      card_cartesian_product get_free_blocks_def channel_inv_def)

lemma stats_loop_eq:
  assumes "unat b + sum_list (map (\<lambda>ch. unat (get_free_blocks ch)) chs) < 2 ^ 64"
    "unat c + length chs < 2 ^ 64"
  shows "unat (fst (stats_loop chs b c)) = unat b + sum_list (map (\<lambda>ch. unat (get_free_blocks ch)) chs) \<and>
    unat (snd (stats_loop chs b c)) = unat c + length (filter (\<lambda>ch. get_free_blocks ch > 0) chs)"
  using assms
proof (induction chs arbitrary: b c)
  case Nil
  then show ?case by simp
next
  case (Cons ch chs)
  then have "unat (b + get_free_blocks ch) = unat b + unat (get_free_blocks ch)" "unat (c + 1) = unat c + 1"
    by (simp_all add: unat_word_ariths)
  with Cons show ?case by (auto simp: Let_def word_gt_0)
qed

lemma pool_free:
  assumes "\<And>ch. ch \<in> set chs \<Longrightarrow> card (part ch) + unat (get_free_blocks ch) = k"
  shows "sum_list (map (\<lambda>ch. card (part ch)) chs) + sum_list (map (\<lambda>ch. unat (get_free_blocks ch)) chs) =
    length chs * k"
  using assms
proof (induction chs)
  case (Cons ch chs)
  then have "card (part ch) + unat (get_free_blocks ch) = k"
    "sum_list (map (\<lambda>ch. card (part ch)) chs) + sum_list (map (\<lambda>ch. unat (get_free_blocks ch)) chs) =
      length chs * k" by auto
  then show ?case by simp
qed simp

lemma device_card:
  assumes "device_inv u"
  shows "card (device_owned u) + sum_list (map (\<lambda>ch. unat (get_free_blocks ch))
      (du_shared_channels u @ du_exclusive_channels u)) =
    unat (nchannels (du_geo u)) * (unat (nluns (du_geo u)) * unat (nblocks (du_geo u)))"
proof -
  let ?g = "du_geo u" and ?s = "du_shared_channels u" and ?e = "du_exclusive_channels u"
  have s: "\<And>ch. ch \<in> set ?s \<Longrightarrow> shared_ok ?g ch" and e: "\<And>ch. ch \<in> set ?e \<Longrightarrow> exclusive_ok ?g ch"
    and d: "distinct (map chan ?s)" "distinct (map chan ?e)" "chan ` set ?s \<inter> chan ` set ?e = {}"
    using assms by (auto simp: device_inv_def list_all_iff)
  have cs: "finite (pool_owned shared_part ?s)"
    "card (pool_owned shared_part ?s) = sum_list (map (\<lambda>ch. card (shared_part ch)) ?s)"
    using shared.pool_card [OF d(1)] shared_free(2) [OF s] by blast+
  have ce: "finite (pool_owned exclusive_part ?e)"
    "card (pool_owned exclusive_part ?e) = sum_list (map (\<lambda>ch. card (exclusive_part ch)) ?e)"
    using exclusive.pool_card [OF d(2)] exclusive_free(2) [OF e] by blast+
  have "pool_owned shared_part ?s \<inter> pool_owned exclusive_part ?e = {}"
    using d(3) shared.pool_channels [of _ ?s] exclusive.pool_channels [of _ ?e] by fastforce
  then have "card (device_owned u) = sum_list (map (\<lambda>ch. card (shared_part ch)) ?s) +
      sum_list (map (\<lambda>ch. card (exclusive_part ch)) ?e)"
    by (simp add: device_owned_def card_Un_disjoint cs ce)
  moreover have "unat (nchannels ?g) = length ?s + length ?e" using assms by (simp add: device_inv_def)
  ultimately show ?thesis
    using pool_free [OF shared_free(1) [OF s], of ?s] pool_free [OF exclusive_free(1) [OF e], of ?e]
    by (simp add: distrib_right)
qed

lemma ocssd_unit_new_inv:
  assumes "dev_open name = Some geo" "geo_ok geo"
  obtains u where "ocssd_unit_new dev_open ip name = Inr u" "device_inv u" "device_owned u = {}"
    "du_name u = name" "du_geo u = geo" "du_channel_count u = int (unat (nchannels geo))"
    "map chan (du_shared_channels u) = [0..<min 4 (unat (nchannels geo))]"
    "map chan (du_exclusive_channels u) = [4..<unat (nchannels geo)]"
proof -
  let ?n = "unat (nchannels geo)"
  let ?u = "\<lparr>du_ip = ip, du_name = name,
    du_desc = map (\<lambda>c. if c = CHR ''/'' then CHR ''_'' else c) (ip @ name), du_geo = geo,
    du_channel_count = int ?n,
    du_shared_channels = map (\<lambda>i. set_shared (ocssd_channel_new (word_of_nat i) (nluns geo) (nblocks geo))) [0..<min 4 ?n],
    du_exclusive_channels = map (\<lambda>i. ocssd_channel_new (word_of_nat i) (nluns geo) (nblocks geo)) [4..<?n]\<rparr>"
  have new: "ocssd_unit_new dev_open ip name = Inr ?u"
    using assms(1) by (simp add: ocssd_unit_new_def initialize_dev_def init_channels)
  have n: "?n < 2 ^ 32" using assms(2) by (simp add: geo_ok_def)
  then have id: "unat (word_of_nat i :: u64) = i" if "i < ?n" for i
    using that by (intro unat_of_nat_less) simp
  note inv = channel_new_inv [OF geo_ok_product [OF assms(2)]]
  have ids: "map chan (du_shared_channels ?u) = [0..<min 4 ?n]" "map chan (du_exclusive_channels ?u) = [4..<?n]"
    by (auto simp: comp_def set_shared_def ocssd_channel_new_def id intro!: map_idI)
  have sh: "shared_ok geo (set_shared (ocssd_channel_new (word_of_nat i) (nluns geo) (nblocks geo)))"
    "exclusive_ok geo (ocssd_channel_new (word_of_nat i) (nluns geo) (nblocks geo))" if "i < ?n" for i
    using that n id [OF that] inv(1) [of "word_of_nat i"]
    by (auto simp: shared_ok_def exclusive_ok_def geo_channel_def set_shared_def channel_inv_def ocssd_channel_new_def)
  have "device_inv ?u"
    using assms(2) sh ids by (auto simp: device_inv_def list_all_iff comp_def)
  moreover have "device_owned ?u = {}"
    using inv(2) by (auto simp: device_owned_def pool_owned_def shared_part_def exclusive_part_def
        set_shared_def channel_blocks_def ocssd_channel_new_def)
  ultimately show thesis using that [OF new] ids by simp
qed

section \<open>How much an exclusive request is granted\<close>

text \<open>The exclusive channels a device can still give away.\<close>

definition free_exclusive :: "ocssd_unit \<Rightarrow> nat" where
  "free_exclusive u = length (filter (\<lambda>ch. ch_used ch = 0) (du_exclusive_channels u))"

lemma alloc_exclusive_loop_count:
  "alloc_exclusive_loop want chs c vu = (n, vu', chs') \<Longrightarrow> unat c < unat want \<Longrightarrow>
   unat n = min (unat want) (unat c + length (filter (\<lambda>ch. ch_used ch = 0) chs))"
proof (induction chs arbitrary: c vu n vu' chs')
  case Nil
  then show ?case by simp
next
  case (Cons ch chs)
  note s = unat_Suc_u64 [OF Cons.prems(2)]
  show ?case
  proof (cases "ch_used ch = 0 \<and> Suc (unat c) \<noteq> unat want")
    case True
    then have "unat (c + 1) < unat want" using s(1) Cons.prems(2) by simp
    with True show ?thesis
      using Cons.prems(1) s Cons.IH [of "c + 1"] by (auto simp: Let_def split: prod.splits)
  next
    case False
    then show ?thesis
      using Cons.prems s Cons.IH [of c] by (auto simp: Let_def split: prod.splits if_splits)
  qed
qed

lemma alloc_channels_exclusive_count:
  assumes "rq_shared rq \<noteq> 1" "alloc_channels u v rq = Some (n, v', u')"
  shows "unat n = min (unat (rq_num_channels rq)) (free_exclusive u)"
proof (cases "rq_num_channels rq = 0")
  case True
  then show ?thesis using assms(2) by (simp add: alloc_channels_def)
next
  case False
  then have "unat (0 :: u64) < unat (rq_num_channels rq)" by (simp add: unat_gt_0)
  from alloc_exclusive_loop_count [OF _ this] show ?thesis
    using assms False
    by (auto simp: alloc_channels_def alloc_exclusive_channels_def Let_def free_exclusive_def
        split: prod.splits)
qed

section \<open>How much a shared request is granted\<close>

text \<open>The blocks a shared virtual channel describes, and what it means that it stays within
  its quota of \<open>b\<close> blocks.\<close>

definition vchannel_size :: "virtual_ocssd_channel \<Rightarrow> nat" where
  "vchannel_size vch = sum_list (map (\<lambda>l. unat (vl_num_blocks l)) (vc_luns vch))"

lemma of_units_total:
  "vc_total_blocks (fold add_alloc_unit us ch) =
   vc_total_blocks ch + sum_list (map (\<lambda>u. ucast (snd (snd u))) us)"
  by (induction us arbitrary: ch) (auto simp: Let_def virtual_ocssd_lun_new_def add.assoc)

lemma vlun_sizes:
  "sum_list (map alloc_unit_size us) < 2 ^ 32 \<Longrightarrow>
   sum_list (map (\<lambda>l. unat (vl_num_blocks l)) (map vlun_of us)) = sum_list (map alloc_unit_size us) \<and>
   unat (sum_list (map (\<lambda>u. ucast (snd (snd u))) us) :: u32) = sum_list (map alloc_unit_size us)"
proof (induction us)
  case Nil
  then show ?case by simp
next
  case (Cons u us)
  obtain l f n where u: "u = (l, f, n)" by (cases u)
  have n: "unat (ucast n :: u32) = unat n" using Cons.prems u by (intro unat_ucast_u32) simp
  with Cons u show ?case
    by (simp add: vlun_of_def virtual_ocssd_lun_new_def unat_word_ariths)
qed

lemma of_units_size:
  assumes "sum_list (map alloc_unit_size us) < 2 ^ 32"
  shows "vchannel_size (virtual_ocssd_channel_of_units i s us) = sum_list (map alloc_unit_size us)"
    "unat (vc_total_blocks (virtual_ocssd_channel_of_units i s us)) = sum_list (map alloc_unit_size us)"
proof -
  show "vchannel_size (virtual_ocssd_channel_of_units i s us) = sum_list (map alloc_unit_size us)"
    using vlun_sizes [OF assms] by (simp add: vchannel_size_def of_units_fields)
  show "unat (vc_total_blocks (virtual_ocssd_channel_of_units i s us)) = sum_list (map alloc_unit_size us)"
    using vlun_sizes [OF assms]
    by (simp add: virtual_ocssd_channel_of_units_def of_units_total virtual_ocssd_channel_new_def)
qed

definition quota :: "nat \<Rightarrow> virtual_ocssd_channel \<Rightarrow> bool" where
  "quota b vch \<longleftrightarrow> 0 < unat (vc_total_blocks vch) \<and> unat (vc_total_blocks vch) \<le> b \<and>
     unat (vc_total_blocks vch) = vchannel_size vch"

lemma shared_quota:
  assumes "channel_inv ch" "channel_alloc_blocks ch [] b = Some (a, us, ch')" "a > 0" "unat b < 2 ^ 32"
  shows "quota (unat b) (virtual_ocssd_channel_of_units i s us)"
proof -
  define q where "q = unat b div unat (ch_num_luns ch)"
  have "shares q (ch_luns ch) \<le> unat b"
    using shares_le [of q "ch_luns ch"] channel_inv_length [OF assms(1)]
    by (metis div_times_less_eq_dividend le_trans q_def)
  moreover from this have "unat (word_of_nat (shares q (ch_luns ch)) :: u64) = shares q (ch_luns ch)"
    by (rule word_of_nat_unat_le)
  moreover have "sum_list (map alloc_unit_size us) = shares q (ch_luns ch)" "a = word_of_nat (shares q (ch_luns ch))"
    using channel_alloc_blocks_eq [OF assms(1) q_def, of "[]"] channel_units_size [OF assms(1) q_def] assms(2)
    by auto
  ultimately show ?thesis
    using assms(3,4) of_units_size [of us i s] by (simp add: quota_def word_less_nat_alt)
qed

lemma alloc_shared_loop_quota:
  "alloc_shared_loop b want chs c vu = Some (n, vu', chs') \<Longrightarrow> list_all channel_inv chs \<Longrightarrow>
   unat b < 2 ^ 32 \<Longrightarrow> list_all (quota (unat b)) (vu_channels vu) \<Longrightarrow> list_all (quota (unat b)) (vu_channels vu')"
proof (induction chs arbitrary: c vu n vu' chs')
  case Nil
  then show ?case by simp
next
  case (Cons ch chs)
  obtain a us ch1 where a: "channel_alloc_blocks ch [] b = Some (a, us, ch1)"
    using Cons.prems(1) by (auto simp: Option.bind_eq_Some_conv)
  note IH = Cons.IH [OF _ _ Cons.prems(3)]
  show ?case
  proof (cases "a > 0")
    case True
    then have "quota (unat b) (virtual_ocssd_channel_of_units (ucast (ch_channel_id ch1)) 1 us)"
      using shared_quota [OF _ a] Cons.prems by simp
    then show ?thesis using Cons.prems True a
      by (auto simp: Let_def unit_add_def Option.bind_eq_Some_conv split: if_splits elim!: IH)
  next
    case False
    then show ?thesis using Cons.prems a
      by (auto simp: Let_def Option.bind_eq_Some_conv elim!: IH)
  qed
qed

lemma grant_units_channels [simp]: "concat (map vu_channels (grant_units u vchs)) = vchs"
  by (simp add: grant_units_def)

lemma sum_quota: "list_all (quota b) vchs \<Longrightarrow> sum_list (map (\<lambda>vch. unat (vc_total_blocks vch)) vchs) \<le> length vchs * b"
  by (induction vchs) (auto simp: quota_def)

lemma alloc_channels_quota:
  assumes "device_inv u" "rq_shared rq = 1" "alloc_channels u v rq = Some (n, v', u')"
    "device_grant u v rq (n, v', u')" "v' = v\<lparr>v_units := v_units v @ vus\<rparr>"
  shows "list_all (quota (unat (rq_num_blocks rq div rq_num_channels rq))) (concat (map vu_channels vus))"
proof (cases "n = 0")
  case True
  then have "vus = []" using assms(4,5) by (cases v) (auto simp: device_grant_def grant_units_def)
  then show ?thesis by simp
next
  case False
  let ?b = "ucast (rq_num_blocks rq div rq_num_channels rq) :: u64"
  have b: "unat ?b = unat (rq_num_blocks rq div rq_num_channels rq)"
    using unat_bound [of "rq_num_blocks rq div rq_num_channels rq"]
    by (simp add: unsigned_ucast_eq take_bit_eq_mod)
  then have b32: "unat ?b < 2 ^ 32" using unat_bound [of "rq_num_blocks rq div rq_num_channels rq"] by simp
  have "rq_num_channels rq \<noteq> 0" using False assms(3) by (auto simp: alloc_channels_def)
  then obtain vu chs where r: "alloc_shared_loop ?b (rq_num_channels rq) (du_shared_channels u) 0
      (virtual_ocssd_unit_new (du_name u) (du_geo u)) = Some (n, vu, chs)" "v' = vssd_add v vu"
    using assms(2,3) False
    by (auto simp: alloc_channels_def alloc_shared_channels_def Let_def Option.bind_eq_Some_conv split: if_splits)
  have "list_all channel_inv (du_shared_channels u)"
    using assms(1) by (auto simp: device_inv_def list_all_iff shared_ok_def geo_channel_def)
  from alloc_shared_loop_quota [OF r(1) this b32]
  have "list_all (quota (unat ?b)) (vu_channels vu)" by (simp add: virtual_ocssd_unit_new_def)
  moreover have "vus = [vu]" using r(2) assms(5) by (cases v) (simp add: vssd_add_def)
  ultimately show ?thesis using b by simp
qed

text \<open>A small device: six channels of two LUNs with eight blocks.\<close>

definition sample_geo :: nvm_geo where
  "sample_geo = \<lparr>nchannels = 6, nluns = 2, nplanes = 2, nblocks = 8, npages = 4, nsectors = 4,
     page_nbytes = 16384, sector_nbytes = 4096, meta_nbytes = 64\<rparr>"

definition sample_unit :: ocssd_unit where
  "sample_unit = (case ocssd_unit_new (\<lambda>_. Some sample_geo) ''10.0.0.1'' ''/dev/nvme0n1'' of Inr u \<Rightarrow> u)"

lemma sample_unit_inv: "device_inv sample_unit" "du_geo sample_unit = sample_geo"
proof -
  obtain u where "ocssd_unit_new (\<lambda>_. Some sample_geo) ''10.0.0.1'' ''/dev/nvme0n1'' = Inr u"
    "device_inv u" "du_geo u = sample_geo"
    by (rule ocssd_unit_new_inv [of "\<lambda>_. Some sample_geo" "''/dev/nvme0n1''" sample_geo "''10.0.0.1''"])
      (simp_all add: geo_ok_def sample_geo_def)
  then show "device_inv sample_unit" "du_geo sample_unit = sample_geo" by (simp_all add: sample_unit_def)
qed

section \<open>Theorems\<close>

text \<open>C30: Opening a device throws when liblightnvm cannot open it.  Otherwise, for every geometry
  whose counts fit 32 bits, the unit satisfies its invariant, owns nothing yet, has the first four
  channels as shared and all others as exclusive channels, and counts them all.\<close>

theorem ocssd_unit_new_correct:
  "(dev_open name = None \<longrightarrow> ocssd_unit_new dev_open ip name = Inl open_dev_failed) \<and>
   (\<forall>geo. dev_open name = Some geo \<and> geo_ok geo \<longrightarrow>
     (\<exists>u. ocssd_unit_new dev_open ip name = Inr u \<and> device_inv u \<and> device_owned u = {} \<and>
       du_name u = name \<and> du_geo u = geo \<and> du_channel_count u = int (unat (nchannels geo)) \<and>
       map chan (du_shared_channels u) = [0..<min 4 (unat (nchannels geo))] \<and>
       map chan (du_exclusive_channels u) = [4..<unat (nchannels geo)]))"
proof (intro conjI allI impI)
  assume "dev_open name = None"
  then show "ocssd_unit_new dev_open ip name = Inl open_dev_failed" by (simp add: ocssd_unit_new_def)
next
  fix geo assume "dev_open name = Some geo \<and> geo_ok geo"
  then show "\<exists>u. ocssd_unit_new dev_open ip name = Inr u \<and> device_inv u \<and> device_owned u = {} \<and>
       du_name u = name \<and> du_geo u = geo \<and> du_channel_count u = int (unat (nchannels geo)) \<and>
       map chan (du_shared_channels u) = [0..<min 4 (unat (nchannels geo))] \<and>
       map chan (du_exclusive_channels u) = [4..<unat (nchannels geo)]"
    by (metis ocssd_unit_new_inv)
qed

theorem ocssd_unit_new_correct_witness:
  "\<exists>u. ocssd_unit_new (\<lambda>_. Some sample_geo) ''10.0.0.1'' ''/dev/nvme0n1'' = Inr u \<and>
    device_inv u \<and> device_owned u = {} \<and> map chan (du_shared_channels u) = [0, 1, 2, 3] \<and>
    map chan (du_exclusive_channels u) = [4, 5]"
proof -
  have "[4..<unat (nchannels sample_geo)] = [4, 5]"
    "[0..<min 4 (unat (nchannels sample_geo))] = [0, 1, 2, 3]" "geo_ok sample_geo"
    by (simp_all add: sample_geo_def upt_rec geo_ok_def)
  then show ?thesis
    using ocssd_unit_new_correct [of "\<lambda>_. Some sample_geo" "''/dev/nvme0n1''" "''10.0.0.1''"] by auto
qed

text \<open>C29: The statistics a device publishes are exact: the free blocks it reports and the blocks it
  has given away add up to all blocks of the device, and the two channel counts are the channels
  with free blocks.  (The geometry's block count has to fit a \<^verbatim>\<open>size_t\<close>.)\<close>

theorem get_ocssd_stats_correct:
  assumes "device_inv u"
    and "unat (nchannels (du_geo u)) * (unat (nluns (du_geo u)) * unat (nblocks (du_geo u))) < 2 ^ 64"
  shows "\<exists>shared exclusive blocks. get_ocssd_stats u = (0, shared, exclusive, blocks) \<and>
    card (device_owned u) + unat blocks =
      unat (nchannels (du_geo u)) * (unat (nluns (du_geo u)) * unat (nblocks (du_geo u))) \<and>
    unat shared = length (filter (\<lambda>ch. get_free_blocks ch > 0) (du_shared_channels u)) \<and>
    unat exclusive = length (filter (\<lambda>ch. get_free_blocks ch > 0) (du_exclusive_channels u))"
proof -
  let ?s = "du_shared_channels u" and ?e = "du_exclusive_channels u"
  let ?f = "\<lambda>chs. sum_list (map (\<lambda>ch. unat (get_free_blocks ch)) chs)"
  have c: "card (device_owned u) + (?f ?s + ?f ?e) =
      unat (nchannels (du_geo u)) * (unat (nluns (du_geo u)) * unat (nblocks (du_geo u)))"
    using device_card [OF assms(1)] by simp
  have len: "length ?s < 2 ^ 64" "length ?e < 2 ^ 64"
    using assms(1) unat_bound [of "nchannels (du_geo u)"] by (auto simp: device_inv_def)
  obtain b1 s where 1: "stats_loop ?s 0 0 = (b1, s)" by (metis surj_pair)
  obtain b2 e where 2: "stats_loop ?e b1 0 = (b2, e)" by (metis surj_pair)
  have b1: "unat b1 = ?f ?s" "unat s = length (filter (\<lambda>ch. get_free_blocks ch > 0) ?s)"
    using stats_loop_eq [of 0 ?s 0] 1 c assms(2) len by simp_all
  then have "unat b2 = ?f ?s + ?f ?e" "unat e = length (filter (\<lambda>ch. get_free_blocks ch > 0) ?e)"
    using stats_loop_eq [of b1 ?e 0] 2 c assms(2) len by simp_all
  then show ?thesis using c b1(2) by (simp add: get_ocssd_stats_def 1 2)
qed

theorem get_ocssd_stats_correct_witness:
  "\<exists>shared exclusive blocks. get_ocssd_stats sample_unit = (0, shared, exclusive, blocks) \<and>
    card (device_owned sample_unit) + unat blocks = 96"
  using get_ocssd_stats_correct [OF sample_unit_inv(1)]
  by (auto simp: sample_unit_inv(2) sample_geo_def)

text \<open>C15: A device gives a shared request at most what was asked for: the channels it grants are at
  most as many as requested, each holds at least one block and at most its equal part of the
  requested blocks, the totals announced to the client are the sizes of the granted block ranges,
  and together they do not exceed the request.\<close>

theorem shared_allocation_quota:
  assumes "device_inv u" and "rq_shared rq = 1"
  shows "\<exists>n vus u'. alloc_channels u v rq = Some (n, v\<lparr>v_units := v_units v @ vus\<rparr>, u') \<and>
    unat n = length (concat (map vu_channels vus)) \<and> n \<le> ucast (rq_num_channels rq) \<and>
    list_all (quota (unat (rq_num_blocks rq) div unat (rq_num_channels rq))) (concat (map vu_channels vus)) \<and>
    sum_list (map (\<lambda>vch. unat (vc_total_blocks vch)) (concat (map vu_channels vus)))
      \<le> unat (rq_num_blocks rq)"
proof -
  let ?b = "unat (rq_num_blocks rq) div unat (rq_num_channels rq)"
  obtain n v' u' where r: "alloc_channels u v rq = Some (n, v', u')" "device_grant u v rq (n, v', u')"
    using alloc_channels_grant [OF assms(1)] by fastforce
  then obtain vchs where g: "v' = v\<lparr>v_units := v_units v @ grant_units u vchs\<rparr>"
    "n \<le> ucast (rq_num_channels rq)" "unat n = length vchs" by (auto simp: device_grant_def)
  have q: "list_all (quota ?b) vchs"
    using alloc_channels_quota [OF assms r g(1)] by (simp add: unat_div)
  have "length vchs \<le> unat (rq_num_channels rq)" using g(2,3) by (simp add: ucast_le_iff)
  then have "length vchs * ?b \<le> unat (rq_num_channels rq) * ?b" by (rule mult_le_mono1)
  also have "\<dots> \<le> unat (rq_num_blocks rq)" by simp
  finally have s: "sum_list (map (\<lambda>vch. unat (vc_total_blocks vch)) vchs) \<le> unat (rq_num_blocks rq)"
    using sum_quota [OF q] by linarith
  show ?thesis
    by (rule exI [of _ n], rule exI [of _ "grant_units u vchs"], rule exI [of _ u'])
      (use r(1) g q s in simp)
qed

theorem shared_allocation_quota_witness:
  "\<exists>n vus u'. alloc_channels sample_unit virtual_ocssd_new (ocssd_alloc_request_new 2 6 1 0 0) =
      Some (n, virtual_ocssd_new\<lparr>v_units := v_units virtual_ocssd_new @ vus\<rparr>, u') \<and>
    sum_list (map (\<lambda>vch. unat (vc_total_blocks vch)) (concat (map vu_channels vus))) \<le> 6"
proof -
  have rq: "rq_shared (ocssd_alloc_request_new 2 6 1 0 0) = 1"
    "unat (rq_num_blocks (ocssd_alloc_request_new 2 6 1 0 0)) = 6"
    by (simp_all add: ocssd_alloc_request_new_def)
  from shared_allocation_quota [OF sample_unit_inv(1) rq(1), of virtual_ocssd_new] show ?thesis
    unfolding rq(2) by blast
qed

end
