(* ===== verification/Manager.thy ===== *)
theory Manager
  imports Device
begin

text \<open>
  The resource manager of a node (\<^verbatim>\<open>ocssd_manager\<close> and \<^verbatim>\<open>get_ip\<close> in
  \<^verbatim>\<open>src/ocssd_server.h\<close>): the list of devices, adding one, and allocating a virtual
  SSD by walking over the devices until the request is satisfied.  The theorems are the
  guarantees a client relies on: no two virtual SSDs ever share a physical block, whatever the
  sequence of requests; the counts returned; and how many blocks a request may be given.
\<close>

section \<open>The node's address\<close>

text \<open>An entry of \<^verbatim>\<open>getifaddrs\<close>: the interface's name and, when it has one, its
  address family and the address as \<^verbatim>\<open>inet_ntop\<close> prints it.\<close>

record ifaddr =
  ifa_name :: string
  ifa_addr :: "(int \<times> string) option"

definition AF_INET :: int where "AF_INET = 2"

fun get_ip :: "ifaddr list \<Rightarrow> string" where
  "get_ip [] = []"
| "get_ip (ifa # rest) =
     (case ifa_addr ifa of
        None \<Rightarrow> get_ip rest
      | Some (family, address) \<Rightarrow>
          if family = AF_INET \<and> ifa_name ifa = ''eno1'' then address else get_ip rest)"

section \<open>The manager\<close>

record ocssd_manager =
  mg_ip :: string
  mg_ocssds :: "ocssd_unit list"
  mg_count :: int
  mg_vssd_id :: u32

definition ocssd_manager_new :: "ifaddr list \<Rightarrow> ocssd_manager" where
  "ocssd_manager_new ifs = \<lparr>mg_ip = get_ip ifs, mg_ocssds = [], mg_count = 0, mg_vssd_id = 0\<rparr>"

definition add_ocssd ::
  "(string \<Rightarrow> nvm_geo option) \<Rightarrow> ocssd_manager \<Rightarrow> string \<Rightarrow> (cxx_exception + int) \<times> ocssd_manager" where
  "add_ocssd dev_open m name =
     (case ocssd_unit_new dev_open (mg_ip m) name of
        Inl e \<Rightarrow> (Inl e, m)
      | Inr u \<Rightarrow> (Inr 0, m\<lparr>mg_ocssds := mg_ocssds m @ [u], mg_count := mg_count m + 1\<rparr>))"

text \<open>The loop over the devices; the result is (channels, virtual SSD, request, devices).\<close>

fun alloc_resource_loop ::
  "ocssd_unit list \<Rightarrow> virtual_ocssd \<Rightarrow> ocssd_alloc_request \<Rightarrow> u64 \<Rightarrow>
     (u64 \<times> virtual_ocssd \<times> ocssd_alloc_request \<times> ocssd_unit list) option" where
  "alloc_resource_loop [] vssd request channels = Some (channels, vssd, request, [])"
| "alloc_resource_loop (u # us) vssd request channels = do {
     (ret, vssd, u') \<leftarrow> alloc_channels u vssd request;
     let channels' = channels + ret;
     let request' = dec_channels request ret;
     if rq_num_channels request' = 0 then Some (channels', vssd, request', u' # us)
     else do {
       (n, v, r, us') \<leftarrow> alloc_resource_loop us vssd request' channels';
       Some (n, v, r, u' # us') } }"

definition alloc_ocssd_resource ::
  "ocssd_manager \<Rightarrow> virtual_ocssd \<Rightarrow> ocssd_alloc_request \<Rightarrow>
     (u64 \<times> virtual_ocssd \<times> ocssd_alloc_request \<times> ocssd_manager) option" where
  "alloc_ocssd_resource m vssd request = do {
     (channels, vssd, request, us) \<leftarrow> alloc_resource_loop (mg_ocssds m) vssd request 0;
     Some (channels, vssd\<lparr>v_id := mg_vssd_id m\<rparr>, request,
           m\<lparr>mg_ocssds := us, mg_vssd_id := mg_vssd_id m + 1\<rparr>) }"

definition persist :: "ocssd_manager \<Rightarrow> int" where
  "persist m = 0"

section \<open>Invariant and ownership\<close>

definition name_ok :: "string \<Rightarrow> bool" where
  "name_ok s \<longleftrightarrow> CHR 0x00 \<notin> set s \<and> length s + 4 < 2 ^ 32"

definition devices_inv :: "ocssd_unit list \<Rightarrow> bool" where
  "devices_inv us \<longleftrightarrow> list_all (\<lambda>u. device_inv u \<and> name_ok (du_name u)) us \<and> distinct (map du_name us)"

definition manager_inv :: "ocssd_manager \<Rightarrow> bool" where
  "manager_inv m \<longleftrightarrow> devices_inv (mg_ocssds m) \<and> length (mg_ocssds m) < 2 ^ 32"

type_synonym node_block = "string \<times> dev_block"

definition devices_owned :: "ocssd_unit list \<Rightarrow> node_block set" where
  "devices_owned us = (\<Union>u\<in>set us. {du_name u} \<times> device_owned u)"

definition manager_owned :: "ocssd_manager \<Rightarrow> node_block set" where
  "manager_owned m = devices_owned (mg_ocssds m)"

definition vunits_blocks :: "virtual_ocssd_unit list \<Rightarrow> node_block set" where
  "vunits_blocks vus = (\<Union>vu\<in>set vus. {vu_dev_name vu} \<times> vunit_blocks vu)"

definition vssd_blocks :: "virtual_ocssd \<Rightarrow> node_block set" where
  "vssd_blocks v = vunits_blocks (v_units v)"

definition vssd_channels :: "virtual_ocssd_unit list \<Rightarrow> virtual_ocssd_channel list" where
  "vssd_channels vus = concat (map vu_channels vus)"

lemma vunits_blocks_simps [simp]:
  "vunits_blocks [] = {}" "vunits_blocks (xs @ ys) = vunits_blocks xs \<union> vunits_blocks ys"
  by (auto simp: vunits_blocks_def)

lemma devices_owned_simps [simp]:
  "devices_owned [] = {}" "devices_owned (u # us) = {du_name u} \<times> device_owned u \<union> devices_owned us"
  by (auto simp: devices_owned_def)

lemma vssd_channels_simps [simp]:
  "vssd_channels [] = []" "vssd_channels (xs @ ys) = vssd_channels xs @ vssd_channels ys"
  by (auto simp: vssd_channels_def)

section \<open>The loop over the devices\<close>

text \<open>What one device contributes, in the terms of the node.\<close>

lemma alloc_channels_step:
  assumes "device_inv u" "name_ok (du_name u)"
  obtains n vus u' where
    "alloc_channels u v request = Some (n, v\<lparr>v_units := v_units v @ vus\<rparr>, u')"
    "device_inv u'" "du_name u' = du_name u" "unat n \<le> unat (rq_num_channels request)"
    "unat n = length (vssd_channels vus)" "list_all unit_ok vus" "length vus \<le> 1"
    "{du_name u} \<times> device_owned u' = {du_name u} \<times> device_owned u \<union> vunits_blocks vus"
    "({du_name u} \<times> device_owned u) \<inter> vunits_blocks vus = {}"
proof -
  obtain n v' u' where r: "alloc_channels u v request = Some (n, v', u')"
    "device_grant u v request (n, v', u')" using alloc_channels_grant [OF assms(1)] by fastforce
  then obtain vchs where g: "v' = v\<lparr>v_units := v_units v @ grant_units u vchs\<rparr>"
    "n \<le> ucast (rq_num_channels request)" "unat n = length vchs" "list_all channel_ok vchs"
    "device_inv u'" "du_name u' = du_name u"
    "device_owned u' = device_owned u \<union> vchannels_blocks (du_geo u) vchs"
    "device_owned u \<inter> vchannels_blocks (du_geo u) vchs = {}"
    by (auto simp: device_grant_def)
  have n: "unat n \<le> unat (rq_num_channels request)" using g(2) by (simp add: ucast_le_iff)
  have b: "vunits_blocks (grant_units u vchs) = {du_name u} \<times> vchannels_blocks (du_geo u) vchs"
    by (auto simp: vunits_blocks_def grant_units_def vunit_blocks_def vchannels_blocks_def)
  have "length vchs < 2 ^ 32"
    using n g(3) unat_bound [of "rq_num_channels request"] by simp
  then have ok: "list_all unit_ok (grant_units u vchs)"
    using g(4) assms(2) by (simp add: unit_ok_def name_ok_def grant_units_def)
  have chs: "vssd_channels (grant_units u vchs) = vchs" "length (grant_units u vchs) \<le> 1"
    by (auto simp: vssd_channels_def grant_units_def)
  show thesis
    by (rule that [OF r(1) [unfolded g(1)] g(5,6) n _ ok chs(2)]) (use g b chs in auto)
qed

text \<open>The loop grants what the devices grant, one after the other.\<close>

definition node_grant ::
  "ocssd_unit list \<Rightarrow> virtual_ocssd \<Rightarrow> ocssd_alloc_request \<Rightarrow> u64 \<Rightarrow>
     u64 \<times> virtual_ocssd \<times> ocssd_alloc_request \<times> ocssd_unit list \<Rightarrow> bool" where
  "node_grant us v rq c res \<longleftrightarrow> (case res of (n, v', rq', us') \<Rightarrow> \<exists>vus.
     v' = v\<lparr>v_units := v_units v @ vus\<rparr> \<and> unat n = unat c + length (vssd_channels vus) \<and>
     length (vssd_channels vus) \<le> unat (rq_num_channels rq) \<and>
     rq' = rq\<lparr>rq_num_channels := word_of_nat (unat (rq_num_channels rq) - length (vssd_channels vus))\<rparr> \<and>
     list_all unit_ok vus \<and> length vus \<le> length us \<and>
     devices_inv us' \<and> map du_name us' = map du_name us \<and>
     devices_owned us' = devices_owned us \<union> vunits_blocks vus \<and>
     devices_owned us \<inter> vunits_blocks vus = {})"

lemma devices_owned_new: "du_name u \<notin> set (map du_name us) \<Longrightarrow> ({du_name u} \<times> A) \<inter> devices_owned us = {}"
  by (auto simp: devices_owned_def)

lemma devices_inv_Cons:
  "devices_inv (u # us) \<longleftrightarrow> device_inv u \<and> name_ok (du_name u) \<and> du_name u \<notin> set (map du_name us) \<and> devices_inv us"
  by (auto simp: devices_inv_def)

lemma dec_channels_eq:
  assumes "unat n \<le> unat (rq_num_channels rq)"
  shows "dec_channels rq n = rq\<lparr>rq_num_channels := word_of_nat (unat (rq_num_channels rq) - unat n)\<rparr>"
    "rq_num_channels (dec_channels rq n) = 0 \<longleftrightarrow> unat n = unat (rq_num_channels rq)"
    "unat (rq_num_channels (dec_channels rq n)) = unat (rq_num_channels rq) - unat n"
proof -
  have n: "unat (ucast n :: u32) = unat n"
    using assms unat_bound [of "rq_num_channels rq"] by (intro unat_ucast_u32) simp
  then have u: "unat (rq_num_channels rq - ucast n) = unat (rq_num_channels rq) - unat n"
    using assms by (simp add: unat_sub word_le_nat_alt)
  then show "unat (rq_num_channels (dec_channels rq n)) = unat (rq_num_channels rq) - unat n"
    by (simp add: dec_channels_def)
  then show "rq_num_channels (dec_channels rq n) = 0 \<longleftrightarrow> unat n = unat (rq_num_channels rq)"
    using assms by (auto simp: unat_eq_0 [symmetric])
  have "rq_num_channels rq - ucast n = word_of_nat (unat (rq_num_channels rq) - unat n)"
    by (simp add: u [symmetric])
  then show "dec_channels rq n = rq\<lparr>rq_num_channels := word_of_nat (unat (rq_num_channels rq) - unat n)\<rparr>"
    by (simp add: dec_channels_def)
qed

lemma node_grant_last:
  assumes "devices_inv (u # us)" "device_inv u'" "du_name u' = du_name u"
    "unat n = length (vssd_channels vus)" "unat n \<le> unat (rq_num_channels rq)"
    "unat (c + n) = unat c + unat n" "list_all unit_ok vus" "length vus \<le> 1"
    "{du_name u} \<times> device_owned u' = {du_name u} \<times> device_owned u \<union> vunits_blocks vus"
    "({du_name u} \<times> device_owned u) \<inter> vunits_blocks vus = {}"
  shows "node_grant (u # us) v rq c (c + n, v\<lparr>v_units := v_units v @ vus\<rparr>, dec_channels rq n, u' # us)"
proof -
  have "devices_owned us \<inter> vunits_blocks vus = {}"
    using devices_owned_new [of u us "device_owned u'"] assms(1,9) by (auto simp: devices_inv_Cons)
  then show ?thesis
    using assms dec_channels_eq(1) [OF assms(5)]
    by (auto simp: node_grant_def devices_inv_Cons intro!: exI [of _ vus])
qed

lemma node_grant_more:
  assumes "devices_inv (u # us)" "device_inv u'" "du_name u' = du_name u"
    "unat n = length (vssd_channels vus)" "unat n \<le> unat (rq_num_channels rq)"
    "unat (c + n) = unat c + unat n" "list_all unit_ok vus" "length vus \<le> 1"
    "{du_name u} \<times> device_owned u' = {du_name u} \<times> device_owned u \<union> vunits_blocks vus"
    "({du_name u} \<times> device_owned u) \<inter> vunits_blocks vus = {}"
    "node_grant us (v\<lparr>v_units := v_units v @ vus\<rparr>) (dec_channels rq n) (c + n) (k, v', rq', us')"
  shows "node_grant (u # us) v rq c (k, v', rq', u' # us')"
proof -
  obtain vus2 where t: "v' = v\<lparr>v_units := (v_units v @ vus) @ vus2\<rparr>"
    "unat k = unat (c + n) + length (vssd_channels vus2)"
    "length (vssd_channels vus2) \<le> unat (rq_num_channels (dec_channels rq n))"
    "rq' = (dec_channels rq n)\<lparr>rq_num_channels :=
       word_of_nat (unat (rq_num_channels (dec_channels rq n)) - length (vssd_channels vus2))\<rparr>"
    "list_all unit_ok vus2" "length vus2 \<le> length us" "devices_inv us'" "map du_name us' = map du_name us"
    "devices_owned us' = devices_owned us \<union> vunits_blocks vus2"
    "devices_owned us \<inter> vunits_blocks vus2 = {}"
    using assms(11) by (auto simp: node_grant_def)
  have new: "du_name u \<notin> set (map du_name us)" using assms(1) by (simp add: devices_inv_Cons)
  then have new': "du_name u \<notin> set (map du_name us')" using t(8) by metis
  have inv: "devices_inv (u' # us')"
    using assms(1-3) t(7) new' by (simp add: devices_inv_Cons)
  have d1: "devices_owned us \<inter> vunits_blocks vus = {}"
    using devices_owned_new [OF new, of "device_owned u'"] assms(9) by auto
  have d2: "({du_name u} \<times> A) \<inter> vunits_blocks vus2 = {}" for A
    using devices_owned_new [OF new', of A] t(9) by auto
  have d: "devices_owned (u # us) \<inter> vunits_blocks (vus @ vus2) = {}"
    using d1 d2 assms(10) t(10) by auto
  have o: "devices_owned (u' # us') = devices_owned (u # us) \<union> vunits_blocks (vus @ vus2)"
    using assms(3,9) t(9) by auto
  have r: "rq' = rq\<lparr>rq_num_channels := word_of_nat (unat (rq_num_channels rq) -
      length (vssd_channels (vus @ vus2)))\<rparr>"
    unfolding t(4) dec_channels_eq(3) [OF assms(5)] by (simp add: dec_channels_eq(1) [OF assms(5)] assms(4))
  show ?thesis
    unfolding node_grant_def prod.case
    by (intro exI [of _ "vus @ vus2"] conjI d o r inv)
      (use assms(3-8) t dec_channels_eq(3) [OF assms(5)] in auto)
qed

lemma alloc_resource_loop_grant:
  assumes "devices_inv us" "unat c + unat (rq_num_channels rq) < 2 ^ 64"
  shows "\<exists>n v' rq' us'. alloc_resource_loop us v rq c = Some (n, v', rq', us') \<and>
    node_grant us v rq c (n, v', rq', us')"
  using assms
proof (induction us arbitrary: v rq c)
  case Nil
  then show ?case by (auto simp: node_grant_def intro!: exI [of _ "[]"])
next
  case (Cons u us)
  have u: "device_inv u" "name_ok (du_name u)" and us: "devices_inv us"
    using Cons.prems(1) by (auto simp: devices_inv_def)
  obtain n vus u' where st:
    "alloc_channels u v rq = Some (n, v\<lparr>v_units := v_units v @ vus\<rparr>, u')"
    "device_inv u'" "du_name u' = du_name u" "unat n \<le> unat (rq_num_channels rq)"
    "unat n = length (vssd_channels vus)" "list_all unit_ok vus" "length vus \<le> 1"
    "{du_name u} \<times> device_owned u' = {du_name u} \<times> device_owned u \<union> vunits_blocks vus"
    "({du_name u} \<times> device_owned u) \<inter> vunits_blocks vus = {}"
    using alloc_channels_step [OF u] .
  have c: "unat (c + n) = unat c + unat n"
    using Cons.prems(2) st(4) by (simp add: unat_word_ariths)
  show ?case
  proof (cases "rq_num_channels (dec_channels rq n) = 0")
    case True
    then show ?thesis
      using st(1) node_grant_last [OF Cons.prems(1) st(2,3,5,4) c st(6-9)] by (auto simp: Let_def)
  next
    case False
    have "unat (c + n) + unat (rq_num_channels (dec_channels rq n)) < 2 ^ 64"
      using Cons.prems(2) c st(4) dec_channels_eq(3) [OF st(4)] by simp
    from Cons.IH [OF us this] obtain k v' rq' us' where t:
      "alloc_resource_loop us (v\<lparr>v_units := v_units v @ vus\<rparr>) (dec_channels rq n) (c + n) = Some (k, v', rq', us')"
      "node_grant us (v\<lparr>v_units := v_units v @ vus\<rparr>) (dec_channels rq n) (c + n) (k, v', rq', us')"
      by blast
    with False st(1) node_grant_more [OF Cons.prems(1) st(2,3,5,4) c st(6-9) t(2)]
    show ?thesis by (auto simp: Let_def)
  qed
qed

lemma unat_of_nat32: "n < 2 ^ 32 \<Longrightarrow> unat (word_of_nat n :: u32) = n"
  by (simp add: unsigned_of_nat take_bit_eq_mod)

section \<open>The manager is a block allocator\<close>

lemma alloc_ocssd_resource_grant:
  assumes "manager_inv m"
  obtains n rq' m' vus where
    "alloc_ocssd_resource m v rq = Some (n, \<lparr>v_id = mg_vssd_id m, v_units = v_units v @ vus\<rparr>, rq', m')"
    "manager_inv m'" "mg_vssd_id m' = mg_vssd_id m + 1" "unat n = length (vssd_channels vus)"
    "unat n \<le> unat (rq_num_channels rq)"
    "unat (rq_num_channels rq') = unat (rq_num_channels rq) - unat n"
    "list_all unit_ok vus" "length vus \<le> length (mg_ocssds m)"
    "manager_owned m' = manager_owned m \<union> vunits_blocks vus" "manager_owned m \<inter> vunits_blocks vus = {}"
proof -
  have "unat (0 :: u64) + unat (rq_num_channels rq) < 2 ^ 64"
    using unat_bound [of "rq_num_channels rq"] by simp
  then obtain n v' rq' us' where r: "alloc_resource_loop (mg_ocssds m) v rq 0 = Some (n, v', rq', us')"
    "node_grant (mg_ocssds m) v rq 0 (n, v', rq', us')"
    using alloc_resource_loop_grant assms unfolding manager_inv_def by blast
  then obtain vus where g: "v' = v\<lparr>v_units := v_units v @ vus\<rparr>"
    "unat n = length (vssd_channels vus)" "length (vssd_channels vus) \<le> unat (rq_num_channels rq)"
    "rq' = rq\<lparr>rq_num_channels := word_of_nat (unat (rq_num_channels rq) - length (vssd_channels vus))\<rparr>"
    "list_all unit_ok vus" "length vus \<le> length (mg_ocssds m)"
    "devices_inv us'" "map du_name us' = map du_name (mg_ocssds m)"
    "devices_owned us' = devices_owned (mg_ocssds m) \<union> vunits_blocks vus"
    "devices_owned (mg_ocssds m) \<inter> vunits_blocks vus = {}"
    by (auto simp: node_grant_def)
  have len: "length us' = length (mg_ocssds m)" using g(8) by (metis length_map)
  have rq: "unat (rq_num_channels rq') = unat (rq_num_channels rq) - unat n"
  proof -
    have "unat (rq_num_channels rq) - unat n < 2 ^ 32"
      using unat_bound [of "rq_num_channels rq"] by simp
    then have "unat (word_of_nat (unat (rq_num_channels rq) - unat n) :: u32) = unat (rq_num_channels rq) - unat n"
      by (rule unat_of_nat32)
    then show ?thesis unfolding g(4) g(2) [symmetric] by (simp del: of_nat_diff)
  qed
  show thesis
    by (rule that [of n vus rq' "m\<lparr>mg_ocssds := us', mg_vssd_id := mg_vssd_id m + 1\<rparr>"])
      (use r(1) g rq len assms in \<open>auto simp: alloc_ocssd_resource_def manager_inv_def manager_owned_def\<close>)
qed

definition manager_alloc ::
  "ocssd_manager \<Rightarrow> ocssd_alloc_request \<Rightarrow> (virtual_ocssd \<times> ocssd_manager) option" where
  "manager_alloc m request =
     map_option (\<lambda>(_, v, _, m'). (v, m')) (alloc_ocssd_resource m virtual_ocssd_new request)"

lemma manager_alloc_grant:
  assumes "manager_inv m"
  shows "\<exists>v m'. manager_alloc m rq = Some (v, m') \<and> manager_inv m' \<and>
    v_id v = mg_vssd_id m \<and> mg_vssd_id m' = mg_vssd_id m + 1 \<and> vssd_ok v \<and>
    manager_owned m' = manager_owned m \<union> vssd_blocks v \<and> manager_owned m \<inter> vssd_blocks v = {}"
proof -
  obtain n rq' m' vus where g:
    "alloc_ocssd_resource m virtual_ocssd_new rq =
       Some (n, \<lparr>v_id = mg_vssd_id m, v_units = v_units virtual_ocssd_new @ vus\<rparr>, rq', m')"
    "manager_inv m'" "mg_vssd_id m' = mg_vssd_id m + 1" "list_all unit_ok vus"
    "length vus \<le> length (mg_ocssds m)"
    "manager_owned m' = manager_owned m \<union> vunits_blocks vus" "manager_owned m \<inter> vunits_blocks vus = {}"
    using alloc_ocssd_resource_grant [OF assms] by metis
  then show ?thesis using assms
    by (auto simp: manager_alloc_def virtual_ocssd_new_def vssd_blocks_def vssd_ok_def manager_inv_def)
qed

interpretation manager: block_allocator manager_alloc manager_owned vssd_blocks manager_inv
proof unfold_locales
  fix m rq assume "manager_inv m"
  then show "\<exists>v m'. manager_alloc m rq = Some (v, m')" using manager_alloc_grant by blast
next
  fix m rq v m' assume "manager_inv m" "manager_alloc m rq = Some (v, m')"
  then show "manager_inv m'" using manager_alloc_grant [of m rq] by auto
next
  fix m rq v m' assume "manager_inv m" "manager_alloc m rq = Some (v, m')"
  then show "manager_owned m' = manager_owned m \<union> vssd_blocks v"
    using manager_alloc_grant [of m rq] by auto
next
  fix m rq v m' assume "manager_inv m" "manager_alloc m rq = Some (v, m')"
  then show "manager_owned m \<inter> vssd_blocks v = {}" using manager_alloc_grant [of m rq] by auto
qed

lemma alloc_run_ids:
  "manager_inv m \<Longrightarrow> alloc_run manager_alloc m rqs = Some (vs, m') \<Longrightarrow>
   map v_id vs = map (\<lambda>i. mg_vssd_id m + word_of_nat i) [0..<length rqs]"
proof (induction rqs arbitrary: m vs)
  case Nil
  then show ?case by simp
next
  case (Cons rq rqs)
  obtain v m1 vs1 where r: "manager_alloc m rq = Some (v, m1)" "alloc_run manager_alloc m1 rqs = Some (vs1, m')"
    "vs = v # vs1" using Cons.prems(2) by (rule manager.run_ConsE)
  have "v_id v = mg_vssd_id m" "mg_vssd_id m1 = mg_vssd_id m + 1"
    using manager_alloc_grant [OF Cons.prems(1), of rq] r(1) by auto
  moreover have "map v_id vs1 = map (\<lambda>i. mg_vssd_id m1 + word_of_nat i) [0..<length rqs]"
    by (rule Cons.IH [OF manager.alloc_inv [OF Cons.prems(1) r(1)] r(2)])
  ultimately show ?case
    by (simp add: r(3) upt_conv_Cons map_Suc_upt [symmetric] comp_def add.assoc del: upt_Suc)
qed

lemma alloc_run_ok:
  "manager_inv m \<Longrightarrow> alloc_run manager_alloc m rqs = Some (vs, m') \<Longrightarrow> list_all vssd_ok vs"
proof (induction rqs arbitrary: m vs)
  case Nil
  then show ?case by simp
next
  case (Cons rq rqs)
  obtain v m1 vs1 where r: "manager_alloc m rq = Some (v, m1)" "alloc_run manager_alloc m1 rqs = Some (vs1, m')"
    "vs = v # vs1" using Cons.prems(2) by (rule manager.run_ConsE)
  have "vssd_ok v" using manager_alloc_grant [OF Cons.prems(1), of rq] r(1) by auto
  then show ?case
    using Cons.IH [OF manager.alloc_inv [OF Cons.prems(1) r(1)] r(2)] r(3) by simp
qed

section \<open>How many exclusive channels a request gets\<close>

lemma alloc_resource_loop_exclusive:
  "devices_inv us \<Longrightarrow> rq_shared rq \<noteq> 1 \<Longrightarrow> unat c + unat (rq_num_channels rq) < 2 ^ 64 \<Longrightarrow>
   alloc_resource_loop us v rq c = Some (n, v', rq', us') \<Longrightarrow>
   unat n = unat c + min (unat (rq_num_channels rq)) (sum_list (map free_exclusive us))"
proof (induction us arbitrary: v rq c us')
  case Nil
  then show ?case by simp
next
  case (Cons u us)
  have u: "device_inv u" "name_ok (du_name u)" and us: "devices_inv us"
    using Cons.prems(1) by (auto simp: devices_inv_def)
  obtain k vus u' where st: "alloc_channels u v rq = Some (k, v\<lparr>v_units := v_units v @ vus\<rparr>, u')"
    "unat k \<le> unat (rq_num_channels rq)"
    using alloc_channels_step [OF u] by metis
  note dec = dec_channels_eq(2,3) [OF st(2)]
  have k: "unat k = min (unat (rq_num_channels rq)) (free_exclusive u)"
    by (rule alloc_channels_exclusive_count [OF Cons.prems(2) st(1)])
  have c: "unat (c + k) = unat c + unat k" using Cons.prems(3) st(2) by (simp add: unat_word_ariths)
  show ?case
  proof (cases "rq_num_channels (dec_channels rq k) = 0")
    case True
    then show ?thesis using Cons.prems(4) st(1) c k dec by (simp add: Let_def)
  next
    case False
    then obtain us1 where "alloc_resource_loop us (v\<lparr>v_units := v_units v @ vus\<rparr>) (dec_channels rq k) (c + k)
        = Some (n, v', rq', us1)"
      using Cons.prems(4) st(1) by (auto simp: Let_def Option.bind_eq_Some_conv)
    moreover have "rq_shared (dec_channels rq k) \<noteq> 1" using Cons.prems(2) by (simp add: dec_channels_def)
    moreover have "unat (c + k) + unat (rq_num_channels (dec_channels rq k)) < 2 ^ 64"
      using Cons.prems(3) c dec(2) st(2) by linarith
    ultimately have "unat n = unat (c + k) +
        min (unat (rq_num_channels (dec_channels rq k))) (sum_list (map free_exclusive us))"
      using Cons.IH [OF us] by blast
    then show ?thesis unfolding c dec(2) k list.map sum_list.Cons by arith
  qed
qed

section \<open>Adding devices\<close>

lemma add_ocssd_inv:
  assumes "manager_inv m" "dev_open name = Some geo" "geo_ok geo" "name_ok name"
    "name \<notin> set (map du_name (mg_ocssds m))" "Suc (length (mg_ocssds m)) < 2 ^ 32"
  obtains u where "add_ocssd dev_open m name =
      (Inr 0, m\<lparr>mg_ocssds := mg_ocssds m @ [u], mg_count := mg_count m + 1\<rparr>)"
    "du_name u = name" "du_geo u = geo"
    "manager_inv (m\<lparr>mg_ocssds := mg_ocssds m @ [u], mg_count := mg_count m + 1\<rparr>)"
    "manager_owned (m\<lparr>mg_ocssds := mg_ocssds m @ [u], mg_count := mg_count m + 1\<rparr>) = manager_owned m"
proof -
  obtain u where u: "ocssd_unit_new dev_open (mg_ip m) name = Inr u" "device_inv u"
    "device_owned u = {}" "du_name u = name" "du_geo u = geo"
    using ocssd_unit_new_inv [of dev_open name geo, OF assms(2,3)] by metis
  show thesis
    by (rule that [of u])
      (use u assms in \<open>auto simp: add_ocssd_def manager_inv_def devices_inv_def manager_owned_def devices_owned_def\<close>)
qed

text \<open>A node with one small device, and one with two identical devices of two channels.\<close>

definition pair_geo :: nvm_geo where
  "pair_geo = \<lparr>nchannels = 2, nluns = 1, nplanes = 2, nblocks = 1024, npages = 4, nsectors = 4,
     page_nbytes = 16384, sector_nbytes = 4096, meta_nbytes = 64\<rparr>"

definition sample_manager :: ocssd_manager where
  "sample_manager = snd (add_ocssd (\<lambda>_. Some sample_geo) (ocssd_manager_new []) ''/dev/nvme0n1'')"

definition two_devices :: ocssd_manager where
  "two_devices = snd (add_ocssd (\<lambda>_. Some pair_geo)
     (snd (add_ocssd (\<lambda>_. Some pair_geo) (ocssd_manager_new []) ''/dev/nvme0n1'')) ''/dev/nvme1n1'')"

lemma ocssd_manager_new_inv: "manager_inv (ocssd_manager_new ifs)"
  by (simp add: manager_inv_def devices_inv_def ocssd_manager_new_def)

lemma sample_manager_inv: "manager_inv sample_manager"
  unfolding sample_manager_def
  by (rule add_ocssd_inv [OF ocssd_manager_new_inv, of "\<lambda>_. Some sample_geo" "''/dev/nvme0n1''" sample_geo "[]"])
    (simp_all add: geo_ok_def name_ok_def sample_geo_def ocssd_manager_new_def)

lemma two_devices_inv: "manager_inv two_devices"
proof -
  obtain u where 1: "add_ocssd (\<lambda>_. Some pair_geo) (ocssd_manager_new []) ''/dev/nvme0n1'' =
      (Inr 0, (ocssd_manager_new [])\<lparr>mg_ocssds := mg_ocssds (ocssd_manager_new []) @ [u],
         mg_count := mg_count (ocssd_manager_new []) + 1\<rparr>)" "du_name u = ''/dev/nvme0n1''"
      "manager_inv ((ocssd_manager_new [])\<lparr>mg_ocssds := mg_ocssds (ocssd_manager_new []) @ [u],
         mg_count := mg_count (ocssd_manager_new []) + 1\<rparr>)"
    by (rule add_ocssd_inv [OF ocssd_manager_new_inv, of "\<lambda>_. Some pair_geo" "''/dev/nvme0n1''" pair_geo "[]"])
      (simp_all add: geo_ok_def name_ok_def pair_geo_def ocssd_manager_new_def)
  show ?thesis
    unfolding two_devices_def 1(1) snd_conv
    by (rule add_ocssd_inv [OF 1(3), of "\<lambda>_. Some pair_geo" "''/dev/nvme1n1''" pair_geo])
      (simp_all add: geo_ok_def name_ok_def pair_geo_def ocssd_manager_new_def 1(2))
qed

section \<open>Theorems\<close>

text \<open>C1: Isolation.  Whatever sequence of allocation requests a node receives, every request is
  answered, the invariant is kept, the virtual SSDs get consecutive identifiers, no two of them
  describe a common block, none describes a block that was already given away, and what the node
  has given away afterwards is exactly what was given away before and what it described.\<close>

theorem vssd_isolation:
  assumes "manager_inv m"
  shows "\<exists>vs m'. alloc_run manager_alloc m rqs = Some (vs, m') \<and> length vs = length rqs \<and>
    manager_inv m' \<and> list_all vssd_ok vs \<and>
    map v_id vs = map (\<lambda>i. mg_vssd_id m + word_of_nat i) [0..<length rqs] \<and>
    separate (map vssd_blocks vs) \<and>
    manager_owned m \<inter> (\<Union>v\<in>set vs. vssd_blocks v) = {} \<and>
    manager_owned m' = manager_owned m \<union> (\<Union>v\<in>set vs. vssd_blocks v)"
proof -
  obtain vs m' where r: "alloc_run manager_alloc m rqs = Some (vs, m')" "length vs = length rqs"
    using manager.run_returns [OF assms] by blast
  show ?thesis
    using r manager.run_inv [OF assms r(1)] alloc_run_ids [OF assms r(1)] alloc_run_ok [OF assms r(1)]
      manager.run_separate [OF assms r(1)] manager.run_fresh [OF assms r(1)]
      manager.run_owned [OF assms r(1)] by auto
qed

theorem vssd_isolation_witness:
  "\<exists>vs m'. alloc_run manager_alloc sample_manager
      [ocssd_alloc_request_new 2 6 1 0 0, ocssd_alloc_request_new 1 0 0 0 0] = Some (vs, m') \<and>
    length vs = 2 \<and> separate (map vssd_blocks vs)"
  using vssd_isolation [OF sample_manager_inv,
      of "[ocssd_alloc_request_new 2 6 1 0 0, ocssd_alloc_request_new 1 0 0 0 0]"] by auto

text \<open>C21: One allocation.  It always returns; the channels it reports are the channels of the units
  it appended to the virtual SSD, at most as many as requested; the request is left with the
  remainder; and every appended unit can be sent to the client.\<close>

theorem alloc_ocssd_resource_correct:
  assumes "manager_inv m"
  shows "\<exists>n vus rq' m'. alloc_ocssd_resource m v rq =
      Some (n, \<lparr>v_id = mg_vssd_id m, v_units = v_units v @ vus\<rparr>, rq', m') \<and>
    manager_inv m' \<and> mg_vssd_id m' = mg_vssd_id m + 1 \<and>
    unat n = length (vssd_channels vus) \<and>
    unat (rq_num_channels rq') + unat n = unat (rq_num_channels rq) \<and>
    list_all unit_ok vus \<and> length vus \<le> length (mg_ocssds m) \<and>
    manager_owned m' = manager_owned m \<union> vunits_blocks vus \<and> manager_owned m \<inter> vunits_blocks vus = {}"
proof -
  obtain n rq' m' vus where
    "alloc_ocssd_resource m v rq = Some (n, \<lparr>v_id = mg_vssd_id m, v_units = v_units v @ vus\<rparr>, rq', m')"
    "manager_inv m'" "mg_vssd_id m' = mg_vssd_id m + 1" "unat n = length (vssd_channels vus)"
    "unat n \<le> unat (rq_num_channels rq)"
    "unat (rq_num_channels rq') = unat (rq_num_channels rq) - unat n"
    "list_all unit_ok vus" "length vus \<le> length (mg_ocssds m)"
    "manager_owned m' = manager_owned m \<union> vunits_blocks vus" "manager_owned m \<inter> vunits_blocks vus = {}"
    using alloc_ocssd_resource_grant [OF assms] .
  then show ?thesis by (intro exI [of _ n] exI [of _ vus] exI [of _ rq'] exI [of _ m']) simp
qed

theorem alloc_ocssd_resource_correct_witness:
  "\<exists>n vus rq' m'. alloc_ocssd_resource sample_manager virtual_ocssd_new (ocssd_alloc_request_new 2 6 1 0 0) =
      Some (n, \<lparr>v_id = mg_vssd_id sample_manager, v_units = v_units virtual_ocssd_new @ vus\<rparr>, rq', m') \<and>
    manager_inv m' \<and> unat n = length (vssd_channels vus) \<and>
    manager_owned m' = manager_owned sample_manager \<union> vunits_blocks vus"
  using alloc_ocssd_resource_correct [OF sample_manager_inv, of virtual_ocssd_new
      "ocssd_alloc_request_new 2 6 1 0 0"] by blast

text \<open>C20: An exclusive request is granted in full as long as the node has unused exclusive
  channels: the number of channels is the smaller of the request and of what all devices have
  left together.\<close>

theorem exclusive_request_complete:
  assumes "manager_inv m" and "rq_shared rq \<noteq> 1"
  shows "\<exists>n v' rq' m'. alloc_ocssd_resource m v rq = Some (n, v', rq', m') \<and>
    unat n = min (unat (rq_num_channels rq)) (sum_list (map free_exclusive (mg_ocssds m)))"
proof -
  have c: "unat (0 :: u64) + unat (rq_num_channels rq) < 2 ^ 64"
    using unat_bound [of "rq_num_channels rq"] by simp
  have d: "devices_inv (mg_ocssds m)" using assms(1) by (simp add: manager_inv_def)
  obtain n v' rq' us' where r: "alloc_resource_loop (mg_ocssds m) v rq 0 = Some (n, v', rq', us')"
    using alloc_resource_loop_grant [OF d c] by blast
  from alloc_resource_loop_exclusive [OF d assms(2) c r] show ?thesis
    by (simp add: alloc_ocssd_resource_def r)
qed

theorem exclusive_request_complete_witness:
  "\<exists>n v' rq' m'. alloc_ocssd_resource sample_manager virtual_ocssd_new (ocssd_alloc_request_new 5 0 0 0 0) =
      Some (n, v', rq', m') \<and> unat n = 2"
proof -
  have "sum_list (map free_exclusive (mg_ocssds sample_manager)) = 2" by code_simp
  then show ?thesis
    using exclusive_request_complete [OF sample_manager_inv, of "ocssd_alloc_request_new 5 0 0 0 0"
        virtual_ocssd_new] by (simp add: ocssd_alloc_request_new_def)
qed

text \<open>Adding a device.  When liblightnvm cannot open it the exception leaves the manager as it
  was; otherwise the device is appended, the invariant is kept, and nothing of the node's storage
  changes hands.\<close>

theorem add_ocssd_correct:
  assumes "manager_inv m"
  shows "(dev_open name = None \<longrightarrow> add_ocssd dev_open m name = (Inl open_dev_failed, m)) \<and>
    (\<forall>geo. dev_open name = Some geo \<and> geo_ok geo \<and> name_ok name \<and>
       name \<notin> set (map du_name (mg_ocssds m)) \<and> Suc (length (mg_ocssds m)) < 2 ^ 32 \<longrightarrow>
     (\<exists>u. add_ocssd dev_open m name =
         (Inr 0, m\<lparr>mg_ocssds := mg_ocssds m @ [u], mg_count := mg_count m + 1\<rparr>) \<and>
       du_name u = name \<and> du_geo u = geo \<and>
       manager_inv (snd (add_ocssd dev_open m name)) \<and>
       manager_owned (snd (add_ocssd dev_open m name)) = manager_owned m))"
proof (intro conjI allI impI)
  assume "dev_open name = None"
  then show "add_ocssd dev_open m name = (Inl open_dev_failed, m)"
    by (simp add: add_ocssd_def ocssd_unit_new_def)
next
  fix geo assume g: "dev_open name = Some geo \<and> geo_ok geo \<and> name_ok name \<and>
    name \<notin> set (map du_name (mg_ocssds m)) \<and> Suc (length (mg_ocssds m)) < 2 ^ 32"
  then obtain u where u: "add_ocssd dev_open m name =
      (Inr 0, m\<lparr>mg_ocssds := mg_ocssds m @ [u], mg_count := mg_count m + 1\<rparr>)"
    "du_name u = name" "du_geo u = geo"
    "manager_inv (m\<lparr>mg_ocssds := mg_ocssds m @ [u], mg_count := mg_count m + 1\<rparr>)"
    "manager_owned (m\<lparr>mg_ocssds := mg_ocssds m @ [u], mg_count := mg_count m + 1\<rparr>) = manager_owned m"
    using add_ocssd_inv [OF assms, of dev_open name geo] by metis
  then show "\<exists>u. add_ocssd dev_open m name =
         (Inr 0, m\<lparr>mg_ocssds := mg_ocssds m @ [u], mg_count := mg_count m + 1\<rparr>) \<and>
       du_name u = name \<and> du_geo u = geo \<and>
       manager_inv (snd (add_ocssd dev_open m name)) \<and>
       manager_owned (snd (add_ocssd dev_open m name)) = manager_owned m"
    by (intro exI [of _ u]) simp
qed

theorem add_ocssd_correct_witness:
  "\<exists>u. add_ocssd (\<lambda>_. Some sample_geo) (ocssd_manager_new []) ''/dev/nvme0n1'' =
      (Inr 0, (ocssd_manager_new [])\<lparr>mg_ocssds := mg_ocssds (ocssd_manager_new []) @ [u],
         mg_count := mg_count (ocssd_manager_new []) + 1\<rparr>) \<and> du_geo u = sample_geo"
  using add_ocssd_correct [OF ocssd_manager_new_inv, of "\<lambda>_. Some sample_geo" "''/dev/nvme0n1''" "[]"]
  by (simp add: geo_ok_def name_ok_def sample_geo_def ocssd_manager_new_def) blast

text \<open>Over several devices a shared request can be given more blocks than it asked for: each
  device divides the full number of requested blocks by the channels that are still missing.  On a
  node with two devices, a request for 4 channels and 1024 blocks is given 1536 blocks.\<close>

theorem shared_request_overcommitted:
  "manager_inv two_devices \<and>
   (\<exists>n v rq' m'. alloc_ocssd_resource two_devices virtual_ocssd_new (ocssd_alloc_request_new 4 1024 1 0 0) =
      Some (n, v, rq', m') \<and> n = 4 \<and>
      sum_list (map (\<lambda>vch. unat (vc_total_blocks vch)) (vssd_channels (v_units v))) = 1536)"
proof -
  have "map_option (\<lambda>(n, v, _). (n, sum_list (map (\<lambda>vch. unat (vc_total_blocks vch)) (vssd_channels (v_units v)))))
      (alloc_ocssd_resource two_devices virtual_ocssd_new (ocssd_alloc_request_new 4 1024 1 0 0)) = Some (4, 1536)"
    by code_simp
  then show ?thesis using two_devices_inv by auto
qed

end
