(* ===== verification/Vblk.thy ===== *)
theory Vblk
  imports Device
begin

text \<open>
  Virtual blocks (\<^verbatim>\<open>generate_addr\<close> and \<^verbatim>\<open>nvm_vblk_test\<close> in
  \<^verbatim>\<open>src/ocssd_server.h\<close>, \<^verbatim>\<open>initialize_vssd_blocks\<close> in
  \<^verbatim>\<open>src/ocssd_conn.h\<close>).  For remote access the server stripes the blocks of a virtual
  unit: each round of its loop takes the next unused block of every LUN that has one left and
  makes a virtual block of them.  liblightnvm is a parameter, the record \<open>nvm\<close> of the functions the
  sources call, over a device state \<^typ>\<open>'d\<close>, with \<^term>\<open>None\<close> for a call whose behaviour is undefined.
  The theorems show that the loop ends, never indexes outside its vector, and that the blocks it
  hands to \<^verbatim>\<open>nvm_vblk_alloc\<close> are exactly the blocks of the unit, each once, and at most
  one per LUN in a virtual block.
\<close>

section \<open>liblightnvm\<close>

type_synonym nvm_vblk = nat

definition NULL :: nvm_vblk where "NULL = 0"

text \<open>\<open>set_addr c l b\<close> is the address with \<^verbatim>\<open>ppa = 0\<close> and then the fields
  \<^verbatim>\<open>g.ch\<close>, \<^verbatim>\<open>g.lun\<close> and \<^verbatim>\<open>g.blk\<close> assigned.  Reads return the
  bytes they store at the front of the caller's buffer.  \<open>nvm_buf_alloc n\<close> is the content of a fresh
  buffer of \<open>n\<close> bytes.\<close>

record ('a, 'd) nvm =
  set_addr :: "u32 \<Rightarrow> u32 \<Rightarrow> u32 \<Rightarrow> 'a"
  nvm_buf_alloc :: "u64 \<Rightarrow> byte list"
  nvm_vblk_alloc :: "'d \<Rightarrow> string \<Rightarrow> 'a list \<Rightarrow> nvm_vblk \<times> 'd"
  nvm_vblk_free :: "'d \<Rightarrow> nvm_vblk \<Rightarrow> 'd option"
  nvm_vblk_get_nbytes :: "'d \<Rightarrow> nvm_vblk \<Rightarrow> u64 option"
  nvm_vblk_erase :: "'d \<Rightarrow> nvm_vblk \<Rightarrow> (int \<times> 'd) option"
  nvm_vblk_write :: "'d \<Rightarrow> nvm_vblk \<Rightarrow> byte list \<Rightarrow> (int \<times> 'd) option"
  nvm_vblk_read :: "'d \<Rightarrow> nvm_vblk \<Rightarrow> u64 \<Rightarrow> (int \<times> byte list \<times> 'd) option"
  nvm_vblk_pread :: "'d \<Rightarrow> nvm_vblk \<Rightarrow> u64 \<Rightarrow> u64 \<Rightarrow> (int \<times> byte list \<times> 'd) option"

section \<open>Addresses\<close>

definition generate_addr ::
  "('a, 'd) nvm \<Rightarrow> 'a list \<Rightarrow> u32 list \<Rightarrow> u32 \<Rightarrow> u32 \<Rightarrow> nat \<Rightarrow> ('a list \<times> u32 list) option" where
  "generate_addr lib addrs curr_blocks channel_id lun i =
     (if i < length curr_blocks
      then Some (addrs @ [set_addr lib channel_id lun (curr_blocks ! i)],
                 curr_blocks[i := curr_blocks ! i + 1])
      else None)"

text \<open>The inner loops over the LUNs of a channel, as pairs (LUN, block_end), and the loop over the
  channels; the state is (addrs, curr_blocks, i).\<close>

fun stripe_luns ::
  "('a, 'd) nvm \<Rightarrow> u32 \<Rightarrow> (u32 \<times> u32) list \<Rightarrow> 'a list \<times> u32 list \<times> nat \<Rightarrow> ('a list \<times> u32 list \<times> nat) option" where
  "stripe_luns lib channel_id [] st = Some st"
| "stripe_luns lib channel_id ((lun, block_end) # luns) (addrs, curr_blocks, i) =
     (if i < length curr_blocks then do {
        (addrs, curr_blocks) \<leftarrow>
          (if curr_blocks ! i < block_end then generate_addr lib addrs curr_blocks channel_id lun i
           else Some (addrs, curr_blocks));
        stripe_luns lib channel_id luns (addrs, curr_blocks, i + 1) }
      else None)"

definition lun_ends :: "nvm_geo \<Rightarrow> virtual_ocssd_channel \<Rightarrow> (u32 \<times> u32) list" where
  "lun_ends geo vchannel =
     (if is_shared vchannel
      then map (\<lambda>l. (vl_lun_id l, vl_block_start l + vl_num_blocks l)) (vc_luns vchannel)
      else map (\<lambda>lun. (word_of_nat lun, ucast (nblocks geo))) [0..<unat (vc_num_luns vchannel)])"

fun stripe_channels ::
  "('a, 'd) nvm \<Rightarrow> nvm_geo \<Rightarrow> virtual_ocssd_channel list \<Rightarrow> 'a list \<times> u32 list \<times> nat \<Rightarrow>
     ('a list \<times> u32 list \<times> nat) option" where
  "stripe_channels lib geo [] st = Some st"
| "stripe_channels lib geo (vchannel # vchannels) st = do {
     st \<leftarrow> stripe_luns lib (vc_channel_id vchannel) (lun_ends geo vchannel) st;
     stripe_channels lib geo vchannels st }"

section \<open>Testing a virtual block\<close>

definition req_size :: u64 where "req_size = 262144"

fun write_loop :: "('a, 'd) nvm \<Rightarrow> nvm_vblk \<Rightarrow> byte list \<Rightarrow> nat \<Rightarrow> int \<Rightarrow> 'd \<Rightarrow> (bool \<times> int \<times> 'd) option" where
  "write_loop lib blk data 0 ret d = Some (True, ret, d)"
| "write_loop lib blk data (Suc n) ret d = do {
     (ret, d) \<leftarrow> nvm_vblk_write lib d blk data;
     if ret < 0 then Some (False, ret, d) else write_loop lib blk data n ret d }"

fun read_loop :: "('a, 'd) nvm \<Rightarrow> nvm_vblk \<Rightarrow> nat \<Rightarrow> int \<Rightarrow> 'd \<Rightarrow> (bool \<times> int \<times> 'd) option" where
  "read_loop lib blk 0 ret d = Some (True, ret, d)"
| "read_loop lib blk (Suc n) ret d = do {
     (ret, _, d) \<leftarrow> nvm_vblk_read lib d blk req_size;
     if ret < 0 then Some (False, ret, d) else read_loop lib blk n ret d }"

text \<open>\<^verbatim>\<open>int count = blk_size / req_size\<close> narrows to 32 bits.\<close>

definition nvm_vblk_test :: "('a, 'd) nvm \<Rightarrow> 'd \<Rightarrow> nvm_vblk \<Rightarrow> (int \<times> 'd) option" where
  "nvm_vblk_test lib d blk = do {
     blk_size \<leftarrow> nvm_vblk_get_nbytes lib d blk;
     let count = nat (sint (ucast (blk_size div req_size) :: 32 word));
     (ret, d) \<leftarrow> nvm_vblk_erase lib d blk;
     if ret \<noteq> 0 then Some (ret, d)
     else do {
       (ok, ret, d) \<leftarrow> write_loop lib blk (nvm_buf_alloc lib req_size) count ret d;
       if \<not> ok then Some (ret, d)
       else do {
         (ok, ret, d) \<leftarrow> read_loop lib blk count ret d;
         if \<not> ok then Some (ret, d) else Some (0, d) } } }"

section \<open>The blocks of a virtual SSD\<close>

text \<open>The state the loop changes: the device, \<^verbatim>\<open>blks_array_\<close>,
  \<^verbatim>\<open>blk_size_\<close> (not initialised by the constructor) and \<^verbatim>\<open>count\<close>.\<close>

record 'd vblks =
  vb_dev :: 'd
  vb_array :: "nvm_vblk list"
  vb_size :: "u64 option"
  vb_count :: int

fun free_all :: "('a, 'd) nvm \<Rightarrow> nvm_vblk list \<Rightarrow> 'd \<Rightarrow> 'd option" where
  "free_all lib [] d = Some d"
| "free_all lib (b # bs) d = do { d \<leftarrow> nvm_vblk_free lib d b; free_all lib bs d }"

text \<open>The part of an iteration behind the check for an empty address list; \<open>Inl\<close> is
  \<^verbatim>\<open>return -ENOMEM\<close>, \<open>Inr\<close> goes on with the next iteration.\<close>

definition vblk_step ::
  "('a, 'd) nvm \<Rightarrow> string \<Rightarrow> 'a list \<Rightarrow> 'd vblks \<Rightarrow> ('d vblks + 'd vblks) option" where
  "vblk_step lib dev addrs s =
     (let (blk, d) = nvm_vblk_alloc lib (vb_dev s) dev addrs in do {
        (ret, d) \<leftarrow> nvm_vblk_test lib d blk;
        if ret < 0 then do {
          d \<leftarrow> nvm_vblk_free lib d blk;
          Some (Inr (s\<lparr>vb_dev := d\<rparr>)) }
        else if blk = NULL then do {
          d \<leftarrow> free_all lib (vb_array s) d;
          Some (Inl (s\<lparr>vb_dev := d\<rparr>)) }
        else do {
          size \<leftarrow> nvm_vblk_get_nbytes lib d blk;
          Some (Inr (s\<lparr>vb_dev := d, vb_array := vb_array s @ [blk], vb_size := Some size,
                       vb_count := vb_count s + 1\<rparr>)) } })"

text \<open>What the blocks still to be taken add up to bounds the number of iterations.\<close>

definition slots :: "nvm_geo \<Rightarrow> virtual_ocssd_channel list \<Rightarrow> (u32 \<times> u32 \<times> u32) list" where
  "slots geo vchannels = concat (map (\<lambda>vch. map (Pair (vc_channel_id vch)) (lun_ends geo vch)) vchannels)"

definition left_over :: "(u32 \<times> u32 \<times> u32) list \<Rightarrow> u32 list \<Rightarrow> nat" where
  "left_over sl bs = sum_list (map (\<lambda>((_, _, e), b). unat e - unat b) (zip sl bs))"

text \<open>One round, slot by slot.\<close>

fun picks :: "('a, 'd) nvm \<Rightarrow> (u32 \<times> u32 \<times> u32) list \<Rightarrow> u32 list \<Rightarrow> 'a list" where
  "picks lib ((c, l, e) # sl) (b # bs) = (if b < e then [set_addr lib c l b] else []) @ picks lib sl bs"
| "picks lib _ _ = []"

fun bumps :: "(u32 \<times> u32 \<times> u32) list \<Rightarrow> u32 list \<Rightarrow> u32 list" where
  "bumps ((c, l, e) # sl) (b # bs) = (if b < e then b + 1 else b) # bumps sl bs"
| "bumps _ bs = bs"

lemma stripe_luns_eq:
  "stripe_luns lib c luns (addrs, pre @ bs, length pre) =
   (if length luns \<le> length bs
    then Some (addrs @ picks lib (map (Pair c) luns) bs,
      pre @ bumps (map (Pair c) luns) bs, length pre + length luns)
    else None)"
proof (induction luns arbitrary: addrs pre bs)
  case Nil
  then show ?case by simp
next
  case (Cons le luns)
  obtain l e where le: "le = (l, e)" by (cases le)
  show ?case
  proof (cases bs)
    case Nil
    then show ?thesis by (simp add: le)
  next
    case (Cons b bs')
    then show ?thesis
      using Cons.IH [of "addrs @ [set_addr lib c l b]" "pre @ [b + 1]" bs']
        Cons.IH [of addrs "pre @ [b]" bs']
      by (simp add: le generate_addr_def nth_append list_update_append)
  qed
qed

lemma picks_append:
  "length sl \<le> length bs \<Longrightarrow> picks lib (sl @ sl') bs = picks lib sl bs @ picks lib sl' (drop (length sl) bs)"
  by (induction lib sl bs rule: picks.induct) auto

lemma bumps_append:
  "length sl \<le> length bs \<Longrightarrow>
   bumps (sl @ sl') bs = take (length sl) (bumps sl bs) @ bumps sl' (drop (length sl) bs)"
  by (induction sl bs rule: bumps.induct) auto

lemma length_bumps [simp]: "length (bumps sl bs) = length bs"
  by (induction sl bs rule: bumps.induct) auto

lemma drop_bumps: "length sl \<le> length bs \<Longrightarrow> drop (length sl) (bumps sl bs) = drop (length sl) bs"
  by (induction sl bs rule: bumps.induct) auto

lemma length_slots: "length (slots geo vchs) = sum_list (map (\<lambda>vch. length (lun_ends geo vch)) vchs)"
  by (induction vchs) (auto simp: slots_def)

lemma stripe_channels_eq:
  "stripe_channels lib geo vchs (addrs, pre @ bs, length pre) =
   (if length (slots geo vchs) \<le> length bs
    then Some (addrs @ picks lib (slots geo vchs) bs, pre @ bumps (slots geo vchs) bs,
      length pre + length (slots geo vchs))
    else None)"
proof (induction vchs arbitrary: addrs pre bs)
  case Nil
  then show ?case by (simp add: slots_def)
next
  case (Cons vch vchs)
  let ?sl = "map (Pair (vc_channel_id vch)) (lun_ends geo vch)"
  have sl: "slots geo (vch # vchs) = ?sl @ slots geo vchs" by (simp add: slots_def)
  show ?case
  proof (cases "length (lun_ends geo vch) \<le> length bs")
    case False
    then show ?thesis by (simp add: stripe_luns_eq sl)
  next
    case True
    let ?pre = "pre @ take (length ?sl) (bumps ?sl bs)"
    have split: "pre @ bumps ?sl bs = ?pre @ drop (length ?sl) bs"
      using drop_bumps [of ?sl bs] True append_take_drop_id [of "length ?sl" "bumps ?sl bs"]
      by (metis append.assoc length_map)
    have len: "length pre + length (lun_ends geo vch) = length ?pre" using True by simp
    have "stripe_channels lib geo (vch # vchs) (addrs, pre @ bs, length pre) =
        stripe_channels lib geo vchs (addrs @ picks lib ?sl bs, pre @ bumps ?sl bs,
          length pre + length (lun_ends geo vch))"
      using True by (simp add: stripe_luns_eq)
    also have "\<dots> = stripe_channels lib geo vchs (addrs @ picks lib ?sl bs, ?pre @ drop (length ?sl) bs, length ?pre)"
      by (simp only: split len)
    also have "\<dots> = (if length (slots geo vchs) \<le> length (drop (length ?sl) bs)
        then Some ((addrs @ picks lib ?sl bs) @ picks lib (slots geo vchs) (drop (length ?sl) bs),
          ?pre @ bumps (slots geo vchs) (drop (length ?sl) bs), length ?pre + length (slots geo vchs))
        else None)" by (rule Cons.IH)
    also have "length (slots geo vchs) \<le> length (drop (length ?sl) bs) \<longleftrightarrow>
        length (slots geo (vch # vchs)) \<le> length bs" using True by (simp add: sl) arith
    finally show ?thesis using True by (simp add: sl picks_append bumps_append)
  qed
qed

lemma left_over_bumps:
  "left_over sl (bumps sl bs) \<le> left_over sl bs \<and>
   (picks lib sl bs \<noteq> [] \<longrightarrow> left_over sl (bumps sl bs) < left_over sl bs)"
proof (induction sl bs rule: bumps.induct)
  case (1 c l e sl b bs)
  have "unat (b + 1) = Suc (unat b)" if "b < e"
    using that unat_bound [of e] by (simp add: unat_word_ariths word_less_nat_alt)
  with 1 show ?case by (auto simp: left_over_def word_less_nat_alt split: if_splits)
qed (auto simp: left_over_def)

lemma stripe_left_over:
  assumes "stripe_channels lib geo vchs ([], bs, 0) = Some (addrs, bs', i)" "addrs \<noteq> []"
  shows "left_over (slots geo vchs) bs' < left_over (slots geo vchs) bs"
  using assms stripe_channels_eq [of lib geo vchs "[]" "[]" bs] left_over_bumps [of "slots geo vchs" bs lib]
  by (auto split: if_splits)

function vblks_loop ::
  "('a, 'd) nvm \<Rightarrow> nvm_geo \<Rightarrow> string \<Rightarrow> virtual_ocssd_channel list \<Rightarrow> u32 list \<Rightarrow> 'd vblks \<Rightarrow>
     ('d vblks + 'd vblks) option" where
  "vblks_loop lib geo dev vchannels curr_blocks s =
     (case stripe_channels lib geo vchannels ([], curr_blocks, 0) of
        None \<Rightarrow> None
      | Some (addrs, curr_blocks', i) \<Rightarrow>
          if addrs = [] then Some (Inr s)
          else (case vblk_step lib dev addrs s of
                  None \<Rightarrow> None
                | Some (Inl s') \<Rightarrow> Some (Inl s')
                | Some (Inr s') \<Rightarrow> vblks_loop lib geo dev vchannels curr_blocks' s'))"
  by pat_completeness auto
termination
  by (relation "measure (\<lambda>(lib, geo, dev, vchs, bs, s). left_over (slots geo vchs) bs)")
    (auto intro: stripe_left_over)

declare vblks_loop.simps [simp del]

definition ENOMEM :: int where "ENOMEM = 12"

text \<open>The result is (return value, state, \<^verbatim>\<open>num_blks_\<close> if it was set).\<close>

definition initialize_vssd_blocks ::
  "('a, 'd) nvm \<Rightarrow> nvm_geo \<Rightarrow> string \<Rightarrow> virtual_ocssd_unit \<Rightarrow> 'd vblks \<Rightarrow> (int \<times> 'd vblks \<times> u64 option) option" where
  "initialize_vssd_blocks lib geo dev vunit s = do {
     r \<leftarrow> vblks_loop lib geo dev (vu_channels vunit) (unit_generate_units vunit []) (s\<lparr>vb_count := 0\<rparr>);
     Some (case r of Inl s' \<Rightarrow> (- ENOMEM, s', None)
           | Inr s' \<Rightarrow> (0, s', Some (word_of_int (vb_count s')))) }"

section \<open>The stripes of a unit\<close>

text \<open>The block ranges of a unit, (channel, LUN, first, behind the last), in the order of the
  loops; stripe \<open>k\<close> takes the \<open>k\<close>-th block of every range that has one.\<close>

type_synonym block_range = "u32 \<times> u32 \<times> nat \<times> nat"

definition channel_ranges :: "nvm_geo \<Rightarrow> virtual_ocssd_channel \<Rightarrow> block_range list" where
  "channel_ranges geo vch =
     (if vc_shared vch = 1
      then map (\<lambda>l. (vc_channel_id vch, vl_lun_id l, unat (vl_block_start l),
             unat (vl_block_start l) + unat (vl_num_blocks l))) (vc_luns vch)
      else map (\<lambda>l. (vc_channel_id vch, word_of_nat l, 0, unat (nblocks geo))) [0..<unat (vc_num_luns vch)])"

definition ranges :: "nvm_geo \<Rightarrow> virtual_ocssd_channel list \<Rightarrow> block_range list" where
  "ranges geo vchs = concat (map (channel_ranges geo) vchs)"

definition stripe :: "block_range list \<Rightarrow> nat \<Rightarrow> (u32 \<times> u32 \<times> nat) list" where
  "stripe rs k = concat (map (\<lambda>(c, l, s, e). if s + k < e then [(c, l, s + k)] else []) rs)"

definition rounds :: "block_range list \<Rightarrow> nat" where
  "rounds rs = fold (\<lambda>(_, _, s, e) m. max m (e - s)) rs 0"

definition addresses :: "('a, 'd) nvm \<Rightarrow> (u32 \<times> u32 \<times> nat) list \<Rightarrow> 'a list" where
  "addresses lib bs = map (\<lambda>(c, l, b). set_addr lib c l (word_of_nat b)) bs"

fun run_stripes :: "('a, 'd) nvm \<Rightarrow> string \<Rightarrow> 'a list list \<Rightarrow> 'd vblks \<Rightarrow> ('d vblks + 'd vblks) option" where
  "run_stripes lib dev [] s = Some (Inr s)"
| "run_stripes lib dev (a # as) s =
     (case vblk_step lib dev a s of
        None \<Rightarrow> None
      | Some (Inl s') \<Rightarrow> Some (Inl s')
      | Some (Inr s') \<Rightarrow> run_stripes lib dev as s')"

definition vchannel_wf :: "virtual_ocssd_channel \<Rightarrow> bool" where
  "vchannel_wf vch \<longleftrightarrow> (vc_shared vch = 1 \<and>
       list_all (\<lambda>l. unat (vl_block_start l) + unat (vl_num_blocks l) < 2 ^ 32) (vc_luns vch)) \<or>
     vc_shared vch = 0"

definition range_ok :: "block_range \<Rightarrow> bool" where
  "range_ok r \<longleftrightarrow> (case r of (c, l, s, e) \<Rightarrow> s \<le> e \<and> e < 2 ^ 32)"

text \<open>The vector \<^verbatim>\<open>curr_blocks\<close> before round \<open>k\<close>.\<close>

definition cursor_blocks :: "block_range list \<Rightarrow> nat \<Rightarrow> u32 list" where
  "cursor_blocks rs k = map (\<lambda>(c, l, s, e). word_of_nat (min (s + k) e)) rs"

definition range_slots :: "block_range list \<Rightarrow> (u32 \<times> u32 \<times> u32) list" where
  "range_slots rs = map (\<lambda>(c, l, s, e). (c, l, word_of_nat e)) rs"

lemma of_nat_less_u32: "a < 2 ^ 32 \<Longrightarrow> b < 2 ^ 32 \<Longrightarrow> (word_of_nat a :: u32) < word_of_nat b \<longleftrightarrow> a < b"
  by (simp add: word_less_nat_alt unsigned_of_nat take_bit_eq_mod)

lemma picks_stripe:
  "list_all range_ok rs \<Longrightarrow> picks lib (range_slots rs) (cursor_blocks rs k) = addresses lib (stripe rs k)"
proof (induction rs)
  case Nil
  then show ?case by (simp add: range_slots_def addresses_def stripe_def)
next
  case (Cons r rs)
  obtain c l s e where r: "r = (c, l, s, e)" by (cases r)
  with Cons show ?case
    by (auto simp: range_slots_def cursor_blocks_def addresses_def stripe_def range_ok_def of_nat_less_u32 min_def)
qed

lemma bumps_cursor:
  "list_all range_ok rs \<Longrightarrow> bumps (range_slots rs) (cursor_blocks rs k) = cursor_blocks rs (Suc k)"
proof (induction rs)
  case Nil
  then show ?case by (simp add: range_slots_def cursor_blocks_def)
next
  case (Cons r rs)
  obtain c l s e where r: "r = (c, l, s, e)" by (cases r)
  with Cons show ?case
    by (auto simp: range_slots_def cursor_blocks_def range_ok_def of_nat_less_u32 min_def le_Suc_eq)
qed

lemma rounds_gt: "k < fold (\<lambda>(_, _, s, e) m. max m (e - s)) rs m \<longleftrightarrow>
    k < m \<or> (\<exists>(c, l, s, e) \<in> set rs. s + k < e)" for m :: nat
proof (induction rs arbitrary: m)
  case (Cons r rs)
  obtain c l s e where "r = (c, l, s, e)" by (cases r)
  with Cons show ?case by (auto simp: max_def)
qed simp

lemma stripe_Nil: "stripe rs k = [] \<longleftrightarrow> rounds rs \<le> k"
  using rounds_gt [of k rs 0] by (fastforce simp: stripe_def rounds_def not_less [symmetric])

lemma vblks_loop_stripes:
  assumes "list_all range_ok rs" "slots geo vchs = range_slots rs" "k \<le> rounds rs"
  shows "vblks_loop lib geo dev vchs (cursor_blocks rs k) s =
    run_stripes lib dev (map (\<lambda>k. addresses lib (stripe rs k)) [k..<rounds rs]) s"
  using assms(3)
proof (induction "rounds rs - k" arbitrary: k s)
  case 0
  then have "stripe rs k = []" by (simp add: stripe_Nil)
  moreover have "stripe_channels lib geo vchs ([], cursor_blocks rs k, 0) =
      Some (addresses lib (stripe rs k), cursor_blocks rs (Suc k), length rs)"
    using stripe_channels_eq [of lib geo vchs "[]" "[]" "cursor_blocks rs k"] assms(2)
      picks_stripe [OF assms(1), of lib k] bumps_cursor [OF assms(1), of k]
    by (simp add: cursor_blocks_def range_slots_def)
  ultimately show ?case using 0 by (subst vblks_loop.simps) (simp add: addresses_def)
next
  case (Suc n)
  then have k: "k < rounds rs" by simp
  then have ne: "addresses lib (stripe rs k) \<noteq> []" by (simp add: addresses_def stripe_Nil)
  have st: "stripe_channels lib geo vchs ([], cursor_blocks rs k, 0) =
      Some (addresses lib (stripe rs k), cursor_blocks rs (Suc k), length rs)"
    using stripe_channels_eq [of lib geo vchs "[]" "[]" "cursor_blocks rs k"] assms(2)
      picks_stripe [OF assms(1), of lib k] bumps_cursor [OF assms(1), of k]
    by (simp add: cursor_blocks_def range_slots_def)
  have IH: "vblks_loop lib geo dev vchs (cursor_blocks rs (Suc k)) s' =
      run_stripes lib dev (map (\<lambda>k. addresses lib (stripe rs k)) [Suc k..<rounds rs]) s'" for s'
    using Suc.hyps(2) k by (intro Suc.hyps(1)) auto
  show ?case
    using k ne st IH by (subst vblks_loop.simps) (simp add: upt_conv_Cons split: option.split sum.split)
qed

lemma channel_slots:
  assumes "vchannel_wf vch" "unat (nblocks geo) < 2 ^ 32"
  shows "map (Pair (vc_channel_id vch)) (lun_ends geo vch) = range_slots (channel_ranges geo vch)"
    "channel_generate_units vch us = us @ cursor_blocks (channel_ranges geo vch) 0"
    "list_all range_ok (channel_ranges geo vch)"
proof -
  have nb: "word_of_nat (unat (nblocks geo)) = (ucast (nblocks geo) :: u32)"
    using assms(2) by (simp add: word_unat_eq_iff unsigned_of_nat take_bit_eq_mod unat_ucast_u32)
  have sum: "word_of_nat (unat a + unat b) = a + b" for a b :: u32 by simp
  show "map (Pair (vc_channel_id vch)) (lun_ends geo vch) = range_slots (channel_ranges geo vch)"
    using assms(1) nb by (auto simp: vchannel_wf_def lun_ends_def range_slots_def channel_ranges_def is_shared_def)
  show "channel_generate_units vch us = us @ cursor_blocks (channel_ranges geo vch) 0"
    using assms(1) by (auto simp: vchannel_wf_def channel_generate_units_def cursor_blocks_def channel_ranges_def
        comp_def map_replicate_const min_def)
  show "list_all range_ok (channel_ranges geo vch)"
    using assms by (auto simp: vchannel_wf_def channel_ranges_def range_ok_def list_all_iff)
qed

lemma unit_slots:
  assumes "list_all vchannel_wf vchs" "unat (nblocks geo) < 2 ^ 32"
  shows "slots geo vchs = range_slots (ranges geo vchs)"
    "fold channel_generate_units vchs us = us @ cursor_blocks (ranges geo vchs) 0"
    "list_all range_ok (ranges geo vchs)"
  using assms(1)
  by (induction vchs arbitrary: us)
    (auto simp: slots_def ranges_def range_slots_def cursor_blocks_def channel_slots [OF _ assms(2)])

text \<open>The loop is a run over the unit's stripes.\<close>

lemma initialize_vssd_blocks_stripes:
  assumes "list_all vchannel_wf (vu_channels vunit)" "unat (nblocks geo) < 2 ^ 32"
  shows "initialize_vssd_blocks lib geo dev vunit s = do {
     r \<leftarrow> run_stripes lib dev (map (\<lambda>k. addresses lib (stripe (ranges geo (vu_channels vunit)) k))
            [0..<rounds (ranges geo (vu_channels vunit))]) (s\<lparr>vb_count := 0\<rparr>);
     Some (case r of Inl s' \<Rightarrow> (- ENOMEM, s', None)
           | Inr s' \<Rightarrow> (0, s', Some (word_of_int (vb_count s')))) }"
proof -
  note u = unit_slots [OF assms]
  have "unit_generate_units vunit [] = cursor_blocks (ranges geo (vu_channels vunit)) 0"
    by (simp add: unit_generate_units_def u(2))
  then show ?thesis
    by (simp add: initialize_vssd_blocks_def vblks_loop_stripes [OF u(3) u(1)])
qed

section \<open>The stripes partition the blocks of the unit\<close>

definition unat_block :: "u32 \<times> u32 \<times> nat \<Rightarrow> dev_block" where
  "unat_block x = (case x of (c, l, b) \<Rightarrow> (unat c, unat l, b))"

abbreviation range_lun :: "block_range \<Rightarrow> u32 \<times> u32" where
  "range_lun r \<equiv> (fst r, fst (snd r))"

lemma in_stripe: "(c, l, b) \<in> set (stripe rs k) \<longleftrightarrow> (\<exists>s e. (c, l, s, e) \<in> set rs \<and> b = s + k \<and> b < e)"
  by (force simp: stripe_def)

lemma stripe_luns_distinct:
  "distinct (map range_lun rs) \<Longrightarrow> distinct (map (\<lambda>(c, l, b). (c, l)) (stripe rs k))"
proof (induction rs)
  case Nil
  then show ?case by (simp add: stripe_def)
next
  case (Cons r rs)
  obtain c l s e where r: "r = (c, l, s, e)" by (cases r)
  have "(c, l) \<notin> set (map (\<lambda>(c, l, b). (c, l)) (stripe rs k))"
    using Cons.prems in_stripe [of c l _ rs k] by (force simp: r)
  moreover have "stripe (r # rs) k = (if s + k < e then [(c, l, s + k)] else []) @ stripe rs k"
    by (simp add: stripe_def r)
  ultimately show ?case using Cons by auto
qed

lemma range_lun_unique:
  "distinct (map range_lun rs) \<Longrightarrow> (c, l, s, e) \<in> set rs \<Longrightarrow> (c, l, s', e') \<in> set rs \<Longrightarrow> s = s' \<and> e = e'"
  by (induction rs) force+

lemma stripes_distinct:
  assumes "distinct (map range_lun rs)"
  shows "distinct (concat (map (stripe rs) [0..<n]))"
proof (induction n)
  case (Suc n)
  have "x \<notin> set (stripe rs k)" if "x \<in> set (stripe rs n)" "k < n" for x k
  proof
    assume k: "x \<in> set (stripe rs k)"
    note n = that
    obtain c l b where x: "x = (c, l, b)" by (rule prod_cases3)
    obtain s e s' e' where "(c, l, s, e) \<in> set rs" "b = s + n" "(c, l, s', e') \<in> set rs" "b = s' + k"
      using n(1) k unfolding x in_stripe by blast
    then show False using range_lun_unique [OF assms] n(2) by fastforce
  qed
  moreover have "distinct (stripe rs n)"
    using stripe_luns_distinct [OF assms, of n] by (simp add: distinct_map)
  ultimately show ?case using Suc by auto
qed simp

lemma stripes_blocks:
  "(c, l, b) \<in> set (concat (map (stripe rs) [0..<rounds rs])) \<longleftrightarrow> (\<exists>s e. (c, l, s, e) \<in> set rs \<and> s \<le> b \<and> b < e)"
  (is "?L \<longleftrightarrow> ?R")
proof
  assume ?L
  then obtain k where "(c, l, b) \<in> set (stripe rs k)" by auto
  then show ?R unfolding in_stripe by (metis le_add1)
next
  assume ?R
  then obtain s e where r: "(c, l, s, e) \<in> set rs" "s \<le> b" "b < e" by blast
  then have "(c, l, b) \<in> set (stripe rs (b - s))"
    unfolding in_stripe by (intro exI [of _ s] exI [of _ e]) auto
  moreover have "b - s < rounds rs"
    using r rounds_gt [of "b - s" rs 0] unfolding rounds_def by force
  ultimately show ?L by auto
qed

fun range_blocks :: "block_range \<Rightarrow> dev_block set" where
  "range_blocks (c, l, s, e) = {unat c} \<times> {unat l} \<times> {s..<e}"

lemma vchannel_blocks_ranges:
  assumes "vchannel_wf vch"
  shows "vchannel_blocks geo vch = (\<Union>r\<in>set (channel_ranges geo vch). range_blocks r)"
proof (cases "vc_shared vch = 1")
  case True
  then show ?thesis by (auto simp: vchannel_blocks_def is_shared_def channel_ranges_def vlun_blocks_def)
next
  case False
  then have sh: "vc_shared vch = 0" using assms by (simp add: vchannel_wf_def)
  have id: "unat (word_of_nat l :: u32) = l" if "l < unat (vc_num_luns vch)" for l
    using that unat_bound [of "vc_num_luns vch"] by (simp add: unsigned_of_nat take_bit_eq_mod)
  have "(\<Union>r\<in>set (channel_ranges geo vch). range_blocks r) =
      (\<Union>l\<in>{0..<unat (vc_num_luns vch)}. {unat (vc_channel_id vch)} \<times> {l} \<times> {0..<unat (nblocks geo)})"
    using sh id by (auto simp: channel_ranges_def)
  also have "\<dots> = vchannel_blocks geo vch" using sh by (auto simp: vchannel_blocks_def is_shared_def)
  finally show ?thesis by simp
qed

lemma stripes_range_blocks:
  "unat_block ` set (concat (map (stripe rs) [0..<rounds rs])) = (\<Union>r\<in>set rs. range_blocks r)"
  (is "unat_block ` ?S = ?R")
proof (intro set_eqI iffI)
  fix x assume "x \<in> unat_block ` ?S"
  then obtain y where y: "y \<in> ?S" "x = unat_block y" by blast
  obtain c l b where clb: "y = (c, l, b)" by (rule prod_cases3)
  obtain s e where "(c, l, s, e) \<in> set rs" "s \<le> b" "b < e"
    using y(1) unfolding clb stripes_blocks by blast
  then have "x \<in> range_blocks (c, l, s, e)" "(c, l, s, e) \<in> set rs"
    using y(2) clb by (simp_all add: unat_block_def)
  then show "x \<in> ?R" by blast
next
  fix x assume "x \<in> ?R"
  then obtain r where r: "r \<in> set rs" "x \<in> range_blocks r" by blast
  obtain c l s e where q: "r = (c, l, s, e)" by (rule prod_cases4)
  then obtain b where b: "x = (unat c, unat l, b)" "s \<le> b" "b < e" using r(2) by auto
  then have "(c, l, b) \<in> ?S" using r(1) unfolding q stripes_blocks by blast
  then show "x \<in> unat_block ` ?S" using b(1) by (force simp: unat_block_def)
qed

lemma stripes_vchannels_blocks:
  assumes "list_all vchannel_wf vchs"
  shows "unat_block ` set (concat (map (stripe (ranges geo vchs)) [0..<rounds (ranges geo vchs)])) =
    vchannels_blocks geo vchs"
proof -
  have "(\<Union>r\<in>set (ranges geo vchs). range_blocks r) =
      (\<Union>vch\<in>set vchs. \<Union>r\<in>set (channel_ranges geo vch). range_blocks r)"
    by (auto simp: ranges_def)
  also have "\<dots> = (\<Union>vch\<in>set vchs. vchannel_blocks geo vch)"
    using assms by (intro SUP_cong refl) (simp add: vchannel_blocks_ranges list_all_iff)
  finally show ?thesis by (simp only: stripes_range_blocks vchannels_blocks_def)
qed

section \<open>Allocated units can be striped\<close>

definition unit_stripes_ok :: "virtual_ocssd_unit \<Rightarrow> bool" where
  "unit_stripes_ok vu \<longleftrightarrow> list_all vchannel_wf (vu_channels vu) \<and> unat (nblocks (vu_geo vu)) < 2 ^ 32 \<and>
     distinct (map range_lun (ranges (vu_geo vu) (vu_channels vu)))"

definition channel_stripes_ok :: "nvm_geo \<Rightarrow> virtual_ocssd_channel \<Rightarrow> bool" where
  "channel_stripes_ok geo vch \<longleftrightarrow> vchannel_wf vch \<and> distinct (map range_lun (channel_ranges geo vch))"

lemma channel_ranges_channel: "r \<in> set (channel_ranges geo vch) \<Longrightarrow> fst r = vc_channel_id vch"
  by (auto simp: channel_ranges_def split: if_splits)

lemma ranges_distinct:
  "list_all (channel_stripes_ok geo) vchs \<Longrightarrow> distinct (map vc_channel_id vchs) \<Longrightarrow>
   distinct (map range_lun (ranges geo vchs))"
proof (induction vchs)
  case Nil
  then show ?case by (simp add: ranges_def)
next
  case (Cons vch vchs)
  have "fst r \<noteq> vc_channel_id vch" if "r \<in> set (ranges geo vchs)" for r
  proof -
    obtain v where "v \<in> set vchs" "r \<in> set (channel_ranges geo v)" using \<open>r \<in> set (ranges geo vchs)\<close>
      by (auto simp: ranges_def)
    then show ?thesis using channel_ranges_channel [of r geo v] Cons.prems(2) by (auto simp: image_iff)
  qed
  then have "range_lun ` set (channel_ranges geo vch) \<inter> range_lun ` set (ranges geo vchs) = {}"
    using channel_ranges_channel [of _ geo vch] by fastforce
  moreover have "ranges geo (vch # vchs) = channel_ranges geo vch @ ranges geo vchs" by (simp add: ranges_def)
  ultimately show ?case using Cons by (simp add: channel_stripes_ok_def)
qed

lemma exclusive_stripes_ok: "channel_stripes_ok geo (virtual_ocssd_channel_new i 0 nb n)"
proof -
  have "inj_on (\<lambda>l. word_of_nat l :: u32) {0..<unat n}"
    using unat_bound [of n] by (intro inj_onI) (simp add: word_unat_eq_iff unsigned_of_nat take_bit_eq_mod)
  then show ?thesis
    by (simp add: channel_stripes_ok_def vchannel_wf_def virtual_ocssd_channel_new_def channel_ranges_def
        comp_def distinct_map inj_on_def)
qed

lemma shared_stripes_ok:
  assumes "geo_ok geo" "geo_channel geo ch" "channel_alloc_blocks ch [] b = Some (a, us, ch')"
  shows "channel_stripes_ok geo (virtual_ocssd_channel_of_units i 1 us)"
proof -
  have inv: "channel_inv ch" using assms(2) by (simp add: geo_channel_def)
  have us: "us = channel_units (unat b div unat (ch_num_luns ch)) ch b"
    using channel_alloc_blocks_eq [OF inv refl, of "[]"] assms(3) by simp
  have bounds: "unat l < 2 ^ 32 \<and> unat f + unat n < 2 ^ 32" if "(l, f, n) \<in> set us" for l f n
    using channel_units_bounds [OF inv, of l f n] that assms(1,2) us by (fastforce simp: geo_ok_def geo_channel_def)
  have "map (\<lambda>u. unat (vl_lun_id (vlun_of u))) us = map (\<lambda>u. unat (fst u)) us"
    using bounds by (auto simp: vlun_of_def virtual_ocssd_lun_new_def unat_ucast_u32)
  then have "map unat (map (\<lambda>u. vl_lun_id (vlun_of u)) us) = map (\<lambda>u. unat (fst u)) us"
    by (simp only: map_map comp_def)
  then have "distinct (map unat (map (\<lambda>u. vl_lun_id (vlun_of u)) us))"
    unfolding us using channel_units_luns [OF inv] by metis
  then have d: "distinct (map (\<lambda>u. vl_lun_id (vlun_of u)) us)" by (simp only: distinct_map)
  moreover have "unat (vl_block_start (vlun_of u)) + unat (vl_num_blocks (vlun_of u)) < 2 ^ 32" if "u \<in> set us" for u
  proof -
    obtain l f n where u: "u = (l, f, n)" by (rule prod_cases3)
    have b: "unat f + unat n < 2 ^ 32" using bounds that u by blast
    then have "unat f < 2 ^ 32" "unat n < 2 ^ 32" by linarith+
    with b show ?thesis by (simp add: u vlun_of_def virtual_ocssd_lun_new_def unat_ucast_u32)
  qed
  moreover have "distinct (map (Pair i) (map (\<lambda>u. vl_lun_id (vlun_of u)) us))"
    using d by (simp add: distinct_map inj_on_def)
  ultimately show ?thesis
    by (auto simp: channel_stripes_ok_def vchannel_wf_def of_units_fields channel_ranges_def list_all_iff comp_def)
qed

text \<open>\<open>thinned xs ys\<close>: \<open>xs\<close> is \<open>ys\<close> with some elements left out, as far as it matters here.\<close>

definition thinned :: "'a list \<Rightarrow> 'a list \<Rightarrow> bool" where
  "thinned xs ys \<longleftrightarrow> set xs \<subseteq> set ys \<and> (distinct ys \<longrightarrow> distinct xs)"

lemma thinned_intros [intro, simp]:
  "thinned [] ys" "thinned xs ys \<Longrightarrow> thinned xs (y # ys)" "thinned xs ys \<Longrightarrow> thinned (y # xs) (y # ys)"
  by (auto simp: thinned_def)

lemma alloc_shared_loop_stripes:
  "alloc_shared_loop b want chs c vu = Some (n, vu', chs') \<Longrightarrow> geo_ok geo \<Longrightarrow> list_all (geo_channel geo) chs \<Longrightarrow>
   \<exists>vchs. vu_channels vu' = vu_channels vu @ vchs \<and> list_all (channel_stripes_ok geo) vchs \<and>
     thinned (map vc_channel_id vchs) (map (\<lambda>ch. ucast (ch_channel_id ch)) chs)"
proof (induction chs arbitrary: c vu n vu' chs')
  case Nil
  then show ?case by simp
next
  case (Cons ch chs)
  obtain a us ch1 where a: "channel_alloc_blocks ch [] b = Some (a, us, ch1)"
    using Cons.prems(1) by (auto simp: Option.bind_eq_Some_conv)
  have id: "ch_channel_id ch1 = ch_channel_id ch"
    using a by (auto simp: channel_alloc_blocks_def Let_def split: if_splits prod.splits)
  let ?v = "virtual_ocssd_channel_of_units (ucast (ch_channel_id ch)) 1 us"
  have ok: "channel_stripes_ok geo ?v" using shared_stripes_ok [OF Cons.prems(2) _ a] Cons.prems(3) by simp
  have rest: "list_all (geo_channel geo) chs" using Cons.prems(3) by simp
  note IH = Cons.IH [OF _ Cons.prems(2) rest]
  consider (last) "vu' = unit_add vu ?v"
    | (more) chs1 where "alloc_shared_loop b want chs (c + 1) (unit_add vu ?v) = Some (n, vu', chs1)"
    | (skip) chs1 where "alloc_shared_loop b want chs c vu = Some (n, vu', chs1)"
    using Cons.prems(1) a id by (auto simp: Let_def Option.bind_eq_Some_conv split: if_splits)
  then show ?case
  proof cases
    case last
    then show ?thesis using ok by (intro exI [of _ "[?v]"]) (simp add: unit_add_def of_units_fields)
  next
    case more
    from IH [OF this] obtain vchs where "vu_channels vu' = vu_channels vu @ ?v # vchs"
      "list_all (channel_stripes_ok geo) vchs"
      "thinned (map vc_channel_id vchs) (map (\<lambda>ch. ucast (ch_channel_id ch)) chs)" by (auto simp: unit_add_def)
    then show ?thesis using ok by (intro exI [of _ "?v # vchs"]) (simp add: of_units_fields)
  next
    case skip
    from IH [OF this] show ?thesis by auto
  qed
qed

lemma alloc_exclusive_loop_stripes:
  "alloc_exclusive_loop want chs c vu = (n, vu', chs') \<Longrightarrow>
   \<exists>vchs. vu_channels vu' = vu_channels vu @ vchs \<and> list_all (channel_stripes_ok geo) vchs \<and>
     thinned (map vc_channel_id vchs) (map (\<lambda>ch. ucast (ch_channel_id ch)) chs)"
proof (induction chs arbitrary: c vu n vu' chs')
  case Nil
  then show ?case by simp
next
  case (Cons ch chs)
  let ?v = "virtual_ocssd_channel_new (ucast (ch_channel_id ch)) 0
    (ucast (ch_num_total_blocks ch)) (ucast (ch_num_luns ch))"
  have id: "vc_channel_id ?v = ucast (ch_channel_id ch)" by (simp add: virtual_ocssd_channel_new_def)
  consider (last) "vu' = unit_add vu ?v"
    | (more) chs1 where "alloc_exclusive_loop want chs (c + 1) (unit_add vu ?v) = (n, vu', chs1)"
    | (skip) chs1 where "alloc_exclusive_loop want chs c vu = (n, vu', chs1)"
    using Cons.prems by (auto simp: Let_def set_used_def split: if_splits prod.splits)
  then show ?case
  proof cases
    case last
    then show ?thesis using exclusive_stripes_ok id by (intro exI [of _ "[?v]"]) (simp add: unit_add_def)
  next
    case more
    from Cons.IH [OF this] obtain vchs where "vu_channels vu' = vu_channels vu @ ?v # vchs"
      "list_all (channel_stripes_ok geo) vchs"
      "thinned (map vc_channel_id vchs) (map (\<lambda>ch. ucast (ch_channel_id ch)) chs)" by (auto simp: unit_add_def)
    then show ?thesis using exclusive_stripes_ok id by (intro exI [of _ "?v # vchs"]) simp
  next
    case skip
    from Cons.IH [OF this] show ?thesis by auto
  qed
qed

lemma alloc_shared_loop_unit:
  "alloc_shared_loop b want chs c vu = Some (n, vu', chs') \<Longrightarrow>
   vu_geo vu' = vu_geo vu \<and> vu_dev_name vu' = vu_dev_name vu"
  by (induction chs arbitrary: c vu n vu' chs')
    (fastforce simp: Let_def unit_add_def Option.bind_eq_Some_conv split: if_splits)+

lemma alloc_exclusive_loop_unit:
  "alloc_exclusive_loop want chs c vu = (n, vu', chs') \<Longrightarrow>
   vu_geo vu' = vu_geo vu \<and> vu_dev_name vu' = vu_dev_name vu"
  by (induction chs arbitrary: c vu n vu' chs')
    (fastforce simp: Let_def unit_add_def split: if_splits prod.splits)+

lemma unit_stripes_okI:
  assumes "device_inv u" "vu_geo vu = du_geo u" "list_all (channel_stripes_ok (du_geo u)) (vu_channels vu)"
    "thinned (map vc_channel_id (vu_channels vu)) (map (\<lambda>ch. ucast (ch_channel_id ch)) chs)"
    "list_all (geo_channel (du_geo u)) chs" "distinct (map chan chs)"
  shows "unit_stripes_ok vu"
proof -
  have "map unat (map (\<lambda>ch. ucast (ch_channel_id ch) :: u32) chs) = map chan chs"
    using assms(5) by (auto simp: list_all_iff geo_channel_def unat_ucast_u32)
  then have "distinct (map (\<lambda>ch. ucast (ch_channel_id ch) :: u32) chs)"
    using assms(6) by (metis distinct_map)
  then have "distinct (map vc_channel_id (vu_channels vu))" using assms(4) by (simp add: thinned_def)
  with ranges_distinct [OF assms(3)] show ?thesis
    using assms(1-3) by (auto simp: unit_stripes_ok_def list_all_iff channel_stripes_ok_def device_inv_def geo_ok_def)
qed

lemma alloc_channels_stripes:
  assumes "device_inv u" "alloc_channels u v rq = Some (n, v\<lparr>v_units := v_units v @ vus\<rparr>, u')" "vu \<in> set vus"
  shows "unit_stripes_ok vu \<and> vu_dev_name vu = du_name u \<and> vu_geo vu = du_geo u"
proof -
  let ?new = "virtual_ocssd_unit_new (du_name u) (du_geo u)"
  have inv: "geo_ok (du_geo u)" "list_all (geo_channel (du_geo u)) (du_shared_channels u)"
    "list_all (geo_channel (du_geo u)) (du_exclusive_channels u)" "distinct (map chan (du_shared_channels u))"
    "distinct (map chan (du_exclusive_channels u))"
    using assms(1) by (auto simp: device_inv_def shared_ok_def exclusive_ok_def list_all_iff)
  have vus: "vus = [x]" if "v\<lparr>v_units := v_units v @ vus\<rparr> = vssd_add v x" for x
    using that by (cases v) (simp add: vssd_add_def)
  have no: "v\<lparr>v_units := v_units v @ vus\<rparr> \<noteq> v" using assms(3) by (cases v) auto
  show ?thesis
  proof (cases "rq_shared rq = 1")
    case True
    then obtain b x chs where x: "alloc_shared_loop b (rq_num_channels rq) (du_shared_channels u) 0 ?new = Some (n, x, chs)"
      "v\<lparr>v_units := v_units v @ vus\<rparr> = vssd_add v x"
      using assms(2) no
      by (auto simp: alloc_channels_def alloc_shared_channels_def Let_def Option.bind_eq_Some_conv split: if_splits)
    have r: "alloc_shared_loop b (rq_num_channels rq) (du_shared_channels u) 0 ?new = Some (n, vu, chs)"
      using x(1) vus [OF x(2)] assms(3) by simp
    have g: "vu_geo vu = du_geo u \<and> vu_dev_name vu = du_name u"
      using alloc_shared_loop_unit [OF r] by (simp add: virtual_ocssd_unit_new_def)
    show ?thesis
      using alloc_shared_loop_stripes [OF r inv(1,2)] g
      by (auto intro!: unit_stripes_okI [OF assms(1) _ _ _ inv(2,4)] simp: virtual_ocssd_unit_new_def)
  next
    case False
    then obtain x chs where x: "alloc_exclusive_loop (rq_num_channels rq) (du_exclusive_channels u) 0 ?new = (n, x, chs)"
      "v\<lparr>v_units := v_units v @ vus\<rparr> = vssd_add v x"
      using assms(2) no
      by (auto simp: alloc_channels_def alloc_exclusive_channels_def Let_def split: if_splits prod.splits)
    have r: "alloc_exclusive_loop (rq_num_channels rq) (du_exclusive_channels u) 0 ?new = (n, vu, chs)"
      using x(1) vus [OF x(2)] assms(3) by simp
    have g: "vu_geo vu = du_geo u \<and> vu_dev_name vu = du_name u"
      using alloc_exclusive_loop_unit [OF r] by (simp add: virtual_ocssd_unit_new_def)
    show ?thesis
      using alloc_exclusive_loop_stripes [OF r, of "du_geo u"] g
      by (auto intro!: unit_stripes_okI [OF assms(1) _ _ _ inv(3,5)] simp: virtual_ocssd_unit_new_def)
  qed
qed

section \<open>A library whose calls succeed\<close>

text \<open>What liblightnvm documents for a device without faults: an allocation gives a block, and
  erasing, writing and reading it succeed (a non-negative result, 0 for an erase).\<close>

definition reliable :: "('a, 'd) nvm \<Rightarrow> bool" where
  "reliable lib \<longleftrightarrow>
     (\<forall>d dev as. fst (nvm_vblk_alloc lib d dev as) \<noteq> NULL) \<and>
     (\<forall>d b. b \<noteq> NULL \<longrightarrow> nvm_vblk_get_nbytes lib d b \<noteq> None) \<and>
     (\<forall>d b. b \<noteq> NULL \<longrightarrow> (\<exists>d'. nvm_vblk_erase lib d b = Some (0, d'))) \<and>
     (\<forall>d b xs. b \<noteq> NULL \<longrightarrow> (\<exists>r d'. nvm_vblk_write lib d b xs = Some (r, d') \<and> 0 \<le> r)) \<and>
     (\<forall>d b n. b \<noteq> NULL \<longrightarrow> (\<exists>r xs d'. nvm_vblk_read lib d b n = Some (r, xs, d') \<and> 0 \<le> r))"

lemma write_loop_ok:
  "reliable lib \<Longrightarrow> blk \<noteq> NULL \<Longrightarrow> \<exists>r d'. write_loop lib blk xs n ret d = Some (True, r, d')"
proof (induction n arbitrary: ret d)
  case (Suc n)
  then obtain r d' where "nvm_vblk_write lib d blk xs = Some (r, d')" "0 \<le> r"
    unfolding reliable_def by metis
  with Suc show ?case by simp
qed simp

lemma read_loop_ok:
  "reliable lib \<Longrightarrow> blk \<noteq> NULL \<Longrightarrow> \<exists>r d'. read_loop lib blk n ret d = Some (True, r, d')"
proof (induction n arbitrary: ret d)
  case (Suc n)
  then obtain r xs d' where "nvm_vblk_read lib d blk req_size = Some (r, xs, d')" "0 \<le> r"
    unfolding reliable_def by metis
  with Suc show ?case by simp
qed simp

lemma nvm_vblk_test_ok:
  assumes "reliable lib" "blk \<noteq> NULL"
  shows "\<exists>d'. nvm_vblk_test lib d blk = Some (0, d')"
proof -
  obtain sz d1 where 1: "nvm_vblk_get_nbytes lib d blk = Some sz" "nvm_vblk_erase lib d blk = Some (0, d1)"
    using assms unfolding reliable_def by (metis option.exhaust)
  let ?n = "nat (sint (ucast (sz div req_size) :: 32 word))"
  obtain r2 d2 where 2: "write_loop lib blk (nvm_buf_alloc lib req_size) ?n 0 d1 = Some (True, r2, d2)"
    using write_loop_ok [OF assms] by blast
  obtain r3 d3 where 3: "read_loop lib blk ?n r2 d2 = Some (True, r3, d3)"
    using read_loop_ok [OF assms] by blast
  show ?thesis using 1 2 3 by (simp add: nvm_vblk_test_def Let_def)
qed

lemma vblk_step_ok:
  assumes "reliable lib"
  shows "\<exists>d blk sz. blk \<noteq> NULL \<and> vblk_step lib dev addrs s =
    Some (Inr (s\<lparr>vb_dev := d, vb_array := vb_array s @ [blk], vb_size := Some sz, vb_count := vb_count s + 1\<rparr>))"
proof -
  obtain blk d where a: "nvm_vblk_alloc lib (vb_dev s) dev addrs = (blk, d)" by (metis surj_pair)
  then have b: "blk \<noteq> NULL" using assms unfolding reliable_def by (metis fst_conv)
  obtain d' where t: "nvm_vblk_test lib d blk = Some (0, d')" using nvm_vblk_test_ok [OF assms b] by blast
  obtain sz where "nvm_vblk_get_nbytes lib d' blk = Some sz"
    using assms b unfolding reliable_def by (metis option.exhaust)
  with a b t show ?thesis by (auto simp: vblk_step_def)
qed

lemma run_stripes_ok:
  assumes "reliable lib"
  shows "\<exists>s' blks. run_stripes lib dev as s = Some (Inr s') \<and> vb_array s' = vb_array s @ blks \<and>
    length blks = length as \<and> NULL \<notin> set blks \<and> vb_count s' = vb_count s + int (length as)"
proof (induction as arbitrary: s)
  case Nil
  then show ?case by simp
next
  case (Cons a as)
  obtain d blk sz where st: "blk \<noteq> NULL" "vblk_step lib dev a s =
      Some (Inr (s\<lparr>vb_dev := d, vb_array := vb_array s @ [blk], vb_size := Some sz, vb_count := vb_count s + 1\<rparr>))"
    using vblk_step_ok [OF assms] by blast
  let ?s = "s\<lparr>vb_dev := d, vb_array := vb_array s @ [blk], vb_size := Some sz, vb_count := vb_count s + 1\<rparr>"
  obtain s' blks where "run_stripes lib dev as ?s = Some (Inr s')" "vb_array s' = vb_array ?s @ blks"
    "length blks = length as" "NULL \<notin> set blks" "vb_count s' = vb_count ?s + int (length as)"
    using Cons.IH [of ?s] by blast
  then show ?case using st by (intro exI [of _ s'] exI [of _ "blk # blks"]) simp
qed

text \<open>A library that hands out increasing handles and accepts everything.\<close>

definition counting_nvm :: "(u32 \<times> u32 \<times> u32, nat) nvm" where
  "counting_nvm = \<lparr>set_addr = (\<lambda>c l b. (c, l, b)), nvm_buf_alloc = (\<lambda>n. []),
     nvm_vblk_alloc = (\<lambda>d dev as. (Suc d, Suc d)), nvm_vblk_free = (\<lambda>d b. Some d),
     nvm_vblk_get_nbytes = (\<lambda>d b. Some 524288), nvm_vblk_erase = (\<lambda>d b. Some (0, d)),
     nvm_vblk_write = (\<lambda>d b xs. Some (0, d)), nvm_vblk_read = (\<lambda>d b n. Some (0, [], d)),
     nvm_vblk_pread = (\<lambda>d b n off. Some (0, [], d))\<rparr>"

lemma counting_nvm_reliable: "reliable counting_nvm"
  by (simp add: reliable_def counting_nvm_def NULL_def)

definition sample_vunit :: virtual_ocssd_unit where
  "sample_vunit = \<lparr>vu_dev_name = ''/dev/nvme0n1'', vu_geo = sample_geo,
     vu_channels = [virtual_ocssd_channel_of_units 0 1 [(0, 0, 3), (1, 2, 1)], virtual_ocssd_channel_new 4 0 16 2]\<rparr>"

lemma sample_vunit_ok: "unit_stripes_ok sample_vunit"
  by (simp add: unit_stripes_ok_def sample_vunit_def sample_geo_def vchannel_wf_def ranges_def channel_ranges_def
      virtual_ocssd_channel_of_units_def virtual_ocssd_channel_new_def virtual_ocssd_lun_new_def Let_def upt_rec)

text \<open>A library that records the address lists of its virtual blocks: what
  \<^verbatim>\<open>initialize_vssd_blocks\<close> asks liblightnvm for.\<close>

definition recording_nvm :: "(u32 \<times> u32 \<times> u32, (u32 \<times> u32 \<times> u32) list list) nvm" where
  "recording_nvm = \<lparr>set_addr = (\<lambda>c l b. (c, l, b)), nvm_buf_alloc = (\<lambda>n. []),
     nvm_vblk_alloc = (\<lambda>d dev as. (Suc (length d), d @ [as])), nvm_vblk_free = (\<lambda>d b. Some d),
     nvm_vblk_get_nbytes = (\<lambda>d b. Some 524288), nvm_vblk_erase = (\<lambda>d b. Some (0, d)),
     nvm_vblk_write = (\<lambda>d b xs. Some (0, d)), nvm_vblk_read = (\<lambda>d b n. Some (0, [], d)),
     nvm_vblk_pread = (\<lambda>d b n off. Some (0, [], d))\<rparr>"

definition striped :: "virtual_ocssd_unit \<Rightarrow> (u32 \<times> u32 \<times> u32) list list option" where
  "striped vu = do {
     (ret, s, num) \<leftarrow> initialize_vssd_blocks recording_nvm (vu_geo vu) (vu_dev_name vu) vu
       \<lparr>vb_dev = [], vb_array = [], vb_size = None, vb_count = 0\<rparr>;
     Some (vb_dev s) }"

definition address_block :: "u32 \<times> u32 \<times> u32 \<Rightarrow> dev_block" where
  "address_block a = (case a of (c, l, b) \<Rightarrow> (unat c, unat l, unat b))"

lemma recording_loops:
  "write_loop recording_nvm blk xs n 0 d = Some (True, 0, d)"
  "read_loop recording_nvm blk n 0 d = Some (True, 0, d)"
  by (induction n) (simp_all add: recording_nvm_def)

lemma recording_step:
  "vblk_step recording_nvm dev addrs s =
     Some (Inr (s\<lparr>vb_dev := vb_dev s @ [addrs], vb_array := vb_array s @ [Suc (length (vb_dev s))],
       vb_size := Some 524288, vb_count := vb_count s + 1\<rparr>))"
proof -
  have "nvm_vblk_test recording_nvm d blk = Some (0, d)" for d blk
    by (simp add: nvm_vblk_test_def Let_def recording_nvm_def recording_loops [unfolded recording_nvm_def])
  then show ?thesis by (simp add: vblk_step_def) (simp add: recording_nvm_def NULL_def)
qed

lemma recording_run: "\<exists>s'. run_stripes recording_nvm dev as s = Some (Inr s') \<and> vb_dev s' = vb_dev s @ as"
proof (induction as arbitrary: s)
  case (Cons a as)
  let ?s = "s\<lparr>vb_dev := vb_dev s @ [a], vb_array := vb_array s @ [Suc (length (vb_dev s))],
    vb_size := Some 524288, vb_count := vb_count s + 1\<rparr>"
  show ?case using Cons.IH [of ?s] by (simp add: recording_step)
qed simp

lemma address_blocks: "map address_block (map (\<lambda>(c, l, b). (c, l, word_of_nat b)) bs) = map unat_block bs"
  if "list_all (\<lambda>(c, l, b). b < 2 ^ 32) bs"
  using that by (auto simp: address_block_def unat_block_def list_all_iff unsigned_of_nat take_bit_eq_mod)

lemma striped_eq:
  assumes "unit_stripes_ok vu" and "rs = ranges (vu_geo vu) (vu_channels vu)"
  shows "striped vu = Some (map (\<lambda>k. addresses recording_nvm (stripe rs k)) [0..<rounds rs])"
proof -
  let ?s = "\<lparr>vb_dev = [], vb_array = [], vb_size = None, vb_count = 0\<rparr>"
  obtain s' where "run_stripes recording_nvm (vu_dev_name vu)
      (map (\<lambda>k. addresses recording_nvm (stripe rs k)) [0..<rounds rs]) (?s\<lparr>vb_count := 0\<rparr>) = Some (Inr s')"
    "vb_dev s' = map (\<lambda>k. addresses recording_nvm (stripe rs k)) [0..<rounds rs]"
    using recording_run [of "vu_dev_name vu" _ "?s\<lparr>vb_count := 0\<rparr>"] by auto
  then show ?thesis
    using assms initialize_vssd_blocks_stripes [of vu "vu_geo vu" recording_nvm "vu_dev_name vu" ?s]
    by (simp add: striped_def unit_stripes_ok_def)
qed

lemma stripe_blocks_bound:
  "list_all range_ok rs \<Longrightarrow> list_all (\<lambda>(c, l, b). b < 2 ^ 32) (stripe rs k)"
  by (induction rs) (auto simp: stripe_def range_ok_def split: prod.splits)

lemma striped_blocks:
  assumes "unit_stripes_ok vu" and "rs = ranges (vu_geo vu) (vu_channels vu)"
  obtains log where "striped vu = Some log" "length log = rounds rs"
    "\<And>k. k < rounds rs \<Longrightarrow> log ! k = addresses recording_nvm (stripe rs k)"
    "map address_block (concat log) = map unat_block (concat (map (stripe rs) [0..<rounds rs]))"
proof -
  let ?log = "map (\<lambda>k. addresses recording_nvm (stripe rs k)) [0..<rounds rs]"
  have "list_all range_ok rs"
    using assms unit_slots [of "vu_channels vu" "vu_geo vu"] by (simp add: unit_stripes_ok_def)
  then have "map address_block (addresses recording_nvm (stripe rs k)) = map unat_block (stripe rs k)" for k
    using address_blocks [OF stripe_blocks_bound, of rs k] by (simp add: addresses_def recording_nvm_def)
  then have "map address_block (concat ?log) = map unat_block (concat (map (stripe rs) [0..<rounds rs]))"
    by (simp add: map_concat comp_def)
  then show thesis using that [of ?log] striped_eq [OF assms] by simp
qed

lemma inj_unat_block: "inj unat_block"
  by (auto simp: inj_def unat_block_def word_unat_eq_iff)

lemma addresses_luns:
  "map (\<lambda>(c, l, b). (c, l)) (addresses recording_nvm bs) = map (\<lambda>(c, l, b). (c, l)) bs"
  by (auto simp: addresses_def recording_nvm_def)

lemma logged_blocks:
  assumes "unit_stripes_ok vu" and "rs = ranges (vu_geo vu) (vu_channels vu)"
    and "map address_block (concat log) = map unat_block (concat (map (stripe rs) [0..<rounds rs]))"
  shows "address_block ` set (concat log) = vunit_blocks vu"
proof -
  have "address_block ` set (concat log) = unat_block ` set (concat (map (stripe rs) [0..<rounds rs]))"
    using arg_cong [OF assms(3), of set] by (simp only: set_map)
  also have "\<dots> = vchannels_blocks (vu_geo vu) (vu_channels vu)"
    unfolding assms(2) using assms(1) by (intro stripes_vchannels_blocks) (simp add: unit_stripes_ok_def)
  finally show ?thesis by (simp only: vunit_blocks_def vchannels_blocks_def)
qed

section \<open>Theorems\<close>

text \<open>C10: Every unit a device grants can be striped for remote access: the loop of
  \<^verbatim>\<open>initialize_vssd_blocks\<close> ends without indexing outside its vector, and it is a run over
  the unit's stripes, whatever liblightnvm answers.\<close>

theorem granted_unit_striped:
  assumes "device_inv u" and "alloc_channels u v rq = Some (n, v\<lparr>v_units := v_units v @ vus\<rparr>, u')"
    and "vu \<in> set vus"
  shows "unit_stripes_ok vu \<and>
    initialize_vssd_blocks lib (vu_geo vu) dev vu s = do {
      r \<leftarrow> run_stripes lib dev (map (\<lambda>k. addresses lib (stripe (ranges (vu_geo vu) (vu_channels vu)) k))
            [0..<rounds (ranges (vu_geo vu) (vu_channels vu))]) (s\<lparr>vb_count := 0\<rparr>);
      Some (case r of Inl s' \<Rightarrow> (- ENOMEM, s', None)
            | Inr s' \<Rightarrow> (0, s', Some (word_of_int (vb_count s')))) }"
proof -
  have ok: "unit_stripes_ok vu" using alloc_channels_stripes [OF assms] by simp
  then show ?thesis
    using initialize_vssd_blocks_stripes [of vu "vu_geo vu"] by (simp add: unit_stripes_ok_def)
qed

theorem granted_unit_striped_witness:
  "\<exists>n vu u'. alloc_channels sample_unit virtual_ocssd_new (ocssd_alloc_request_new 2 6 1 0 1) =
      Some (n, virtual_ocssd_new\<lparr>v_units := v_units virtual_ocssd_new @ [vu]\<rparr>, u') \<and> unit_stripes_ok vu"
proof -
  let ?rq = "ocssd_alloc_request_new 2 6 1 0 1"
  obtain n v' u' where r: "alloc_channels sample_unit virtual_ocssd_new ?rq = Some (n, v', u')"
    using alloc_channels_grant [OF sample_unit_inv(1), of virtual_ocssd_new ?rq] by auto
  have "map_option (\<lambda>(_, v, _). length (v_units v)) (alloc_channels sample_unit virtual_ocssd_new ?rq) = Some 1"
    by code_simp
  then obtain vu where "v_units v' = [vu]" using r by (auto simp: length_Suc_conv)
  moreover have "v_id v' = v_id virtual_ocssd_new"
    using alloc_channels_grant [OF sample_unit_inv(1), of virtual_ocssd_new ?rq] r
    by (auto simp: device_grant_def)
  ultimately have "v' = virtual_ocssd_new\<lparr>v_units := v_units virtual_ocssd_new @ [vu]\<rparr>"
    by (simp add: virtual_ocssd_new_def)
  with granted_unit_striped [OF sample_unit_inv(1), of virtual_ocssd_new ?rq n "[vu]" u' vu] r
  show ?thesis by auto
qed

text \<open>C9: The virtual blocks of a unit partition its blocks.  \<^verbatim>\<open>initialize_vssd_blocks\<close>
  hands every block of the unit to \<^verbatim>\<open>nvm_vblk_alloc\<close> in exactly one of its calls and no
  other block in any; no call is for an empty list, and none has two blocks of one LUN.\<close>

theorem stripes_partition_unit:
  assumes "unit_stripes_ok vu"
  shows "\<exists>log. striped vu = Some log \<and> distinct (concat log) \<and>
    address_block ` set (concat log) = vunit_blocks vu \<and>
    list_all (\<lambda>as. as \<noteq> [] \<and> distinct (map (\<lambda>(c, l, b). (c, l)) as)) log"
proof -
  define rs where "rs = ranges (vu_geo vu) (vu_channels vu)"
  obtain log where log: "striped vu = Some log" "length log = rounds rs"
    "\<And>k. k < rounds rs \<Longrightarrow> log ! k = addresses recording_nvm (stripe rs k)"
    "map address_block (concat log) = map unat_block (concat (map (stripe rs) [0..<rounds rs]))"
    using striped_blocks [OF assms rs_def] by blast
  have d: "distinct (map range_lun rs)" using assms by (simp add: unit_stripes_ok_def rs_def)
  have "distinct (map address_block (concat log))"
    unfolding log(4) using stripes_distinct [OF d] by (simp add: distinct_map inj_on_subset [OF inj_unat_block])
  then have "distinct (concat log)" by (simp add: distinct_map)
  moreover have "address_block ` set (concat log) = vunit_blocks vu"
    by (rule logged_blocks [OF assms rs_def log(4)])
  moreover have "log ! k \<noteq> [] \<and> distinct (map (\<lambda>(c, l, b). (c, l)) (log ! k))" if "k < rounds rs" for k
    using log(3) [OF that] stripe_luns_distinct [OF d, of k] stripe_Nil [of rs k] that
    by (simp add: addresses_luns) (simp add: addresses_def)
  then have "list_all (\<lambda>as. as \<noteq> [] \<and> distinct (map (\<lambda>(c, l, b). (c, l)) as)) log"
    by (simp add: list_all_length log(2))
  ultimately show ?thesis using log(1) by blast
qed

theorem stripes_partition_unit_witness:
  "\<exists>log. striped sample_vunit = Some log \<and> distinct (concat log) \<and>
     address_block ` set (concat log) = vunit_blocks sample_vunit"
  using stripes_partition_unit [OF sample_vunit_ok] by blast



end
