(* ===== verification/Conn.thy ===== *)
theory Conn
  imports Manager Vblk
begin

text \<open>
  A client connection (\<^verbatim>\<open>src/ocssd_conn.h\<close>): the reassembly of a 24-byte command, the
  four request handlers, publishing the resources and the queue of replies.  Parameters stand for
  what the handlers call: liblightnvm (\<open>nvm\<close> and \<open>dev_open\<close>) and the content of memory fresh from
  \<^verbatim>\<open>malloc\<close>.  The socket's input is the list of pieces in which it arrives.  Calls of
  \<^verbatim>\<open>azure_insert_entity\<close> are recorded in order.  A handler's result is \<^term>\<open>None\<close> for
  undefined behaviour, \<open>Some (Inl e)\<close> when an exception leaves it (nothing in the program catches
  one), and otherwise the return value with the new state.  Diagnostics are left out.
\<close>

section \<open>The socket\<close>

text \<open>\<open>Data bs\<close> is what one segment brings, \<open>Closed\<close> the peer's orderly shutdown, \<open>Failed\<close> an
  error.  With nothing to read the non-blocking socket returns -1.  One \<^verbatim>\<open>read(2)\<close> moves at
  most \<open>0x7ffff000\<close> bytes.\<close>

datatype chunk = Data "byte list" | Closed | Failed

datatype read_result = Got "byte list" | Eof | Err

definition SSIZE_CAP :: nat where "SSIZE_CAP = 0x7ffff000"

fun sock_read :: "nat \<Rightarrow> chunk list \<Rightarrow> read_result \<times> chunk list" where
  "sock_read n [] = (Err, [])"
| "sock_read n (Data [] # cs) = (Err, cs)"
| "sock_read n (Data (b # bs) # cs) =
     (let k = min n SSIZE_CAP
      in if Suc (length bs) \<le> k then (Got (b # bs), cs)
         else (Got (take k (b # bs)), Data (drop k (b # bs)) # cs))"
| "sock_read n (Closed # cs) = (Eof, Closed # cs)"
| "sock_read n (Failed # cs) = (Err, Failed # cs)"

section \<open>Connection state\<close>

record bufferq =
  bq_buf :: "byte list"
  bq_len :: u64
  bq_offset :: u64

text \<open>\<open>malloc size\<close> is the object a call returns; a null pointer is the object without bytes.\<close>

definition bufferq_new :: "(u64 \<Rightarrow> byte list) \<Rightarrow> u64 \<Rightarrow> bufferq" where
  "bufferq_new malloc n = \<lparr>bq_buf = malloc n, bq_len = n, bq_offset = 0\<rparr>"

datatype conn_state = RECEIVING_COMMAND | RECEIVING_WRITE_DATA

text \<open>\<open>cn_open\<close>: the descriptor is open; \<open>cn_ev_read\<close>, \<open>cn_ev_write\<close>: the event is added
  (pending in libevent).  \<^verbatim>\<open>num_blks_\<close> and \<^verbatim>\<open>blk_size_\<close> are not initialised by
  the constructor.\<close>

record ocssd_conn =
  cn_connfd :: int
  cn_ipaddr :: string
  cn_message_end :: nat
  cn_message_buf :: "byte list"
  cn_state :: conn_state
  cn_remote_vssd :: int
  cn_dev :: "(string \<times> nvm_geo) option"
  cn_num_blks :: "u64 option"
  cn_blk_size :: "u64 option"
  cn_blks_array :: "nvm_vblk list"
  cn_writeq :: "bufferq list"
  cn_open :: bool
  cn_ev_read :: bool
  cn_ev_write :: bool

text \<open>\<open>junk\<close> is what the message buffer holds when the object is created.\<close>

definition ocssd_conn_new :: "byte list \<Rightarrow> int \<Rightarrow> string \<Rightarrow> ocssd_conn" where
  "ocssd_conn_new junk connfd ipaddr =
     \<lparr>cn_connfd = connfd, cn_ipaddr = ipaddr, cn_message_end = 0, cn_message_buf = junk,
      cn_state = RECEIVING_COMMAND, cn_remote_vssd = 0, cn_dev = None, cn_num_blks = None,
      cn_blk_size = None, cn_blks_array = [], cn_writeq = [], cn_open = True,
      cn_ev_read = False, cn_ev_write = False\<rparr>"

definition disconnect :: "ocssd_conn \<Rightarrow> ocssd_conn" where
  "disconnect c = c\<lparr>cn_open := False, cn_ev_read := False\<rparr>"

text \<open>What the handlers share: the manager, the device and the record of published entities.\<close>

type_synonym entity = "string \<times> u64 \<times> u64 \<times> u64"

record 'd world =
  w_manager :: ocssd_manager
  w_dev :: 'd
  w_published :: "entity list"

record ('a, 'd) platform =
  pf_nvm :: "('a, 'd) nvm"
  pf_dev_open :: "string \<Rightarrow> nvm_geo option"
  pf_malloc :: "u64 \<Rightarrow> byte list"

type_synonym 'd handled = "(cxx_exception + int \<times> ocssd_conn \<times> 'd world) option"

section \<open>Publishing\<close>

definition publish_unit :: "ocssd_unit \<Rightarrow> entity list \<Rightarrow> entity list" where
  "publish_unit u log =
     (let (ret, shared, exclusive, blocks) = get_ocssd_stats u
      in if ret = 0 then log @ [(du_desc u, shared, exclusive, blocks)] else log)"

definition publish_resource :: "ocssd_manager \<Rightarrow> entity list \<Rightarrow> int \<times> entity list" where
  "publish_resource m log = (int (length (mg_ocssds m)), fold publish_unit (mg_ocssds m) log)"

section \<open>Allocation requests\<close>

definition VSSD_BUFFER_SIZE :: u64 where "VSSD_BUFFER_SIZE = 1024"

definition opening_device_failed :: cxx_exception where
  "opening_device_failed = runtime_error ''FAILED: opening device''"

definition initialize_remote_vssd ::
  "('a, 'd) platform \<Rightarrow> ocssd_conn \<Rightarrow> 'd world \<Rightarrow> virtual_ocssd \<Rightarrow> 'd handled" where
  "initialize_remote_vssd pf c w vssd =
     (case v_units vssd of
        [] \<Rightarrow> None
      | vunit # _ \<Rightarrow>
          (let dev_path = vu_dev_name vunit in
           case pf_dev_open pf dev_path of
             None \<Rightarrow> Some (Inl opening_device_failed)
           | Some geo \<Rightarrow> do {
               (ret, s, num) \<leftarrow> initialize_vssd_blocks (pf_nvm pf) geo dev_path vunit
                 \<lparr>vb_dev = w_dev w, vb_array = cn_blks_array c, vb_size = cn_blk_size c, vb_count = 0\<rparr>;
               Some (Inr (0, c\<lparr>cn_dev := Some (dev_path, geo), cn_blks_array := vb_array s,
                     cn_blk_size := vb_size s,
                     cn_num_blks := (case num of None \<Rightarrow> cn_num_blks c | Some n \<Rightarrow> Some n)\<rparr>,
                   w\<lparr>w_dev := vb_dev s\<rparr>)) }))"

definition send_vssd ::
  "ocssd_conn \<Rightarrow> 'd world \<Rightarrow> virtual_ocssd \<Rightarrow> bufferq \<Rightarrow> 'd handled" where
  "send_vssd c w vssd bq = do {
     (out, len) \<leftarrow> virtual_ocssd_serialize (bq_buf bq) vssd;
     let bq = bq\<lparr>bq_buf := out, bq_len := word_of_nat len\<rparr>;
     Some (Inr (0, c\<lparr>cn_writeq := cn_writeq c @ [bq], cn_ev_write := True\<rparr>,
           w\<lparr>w_published := snd (publish_resource (w_manager w) (w_published w))\<rparr>)) }"

definition process_alloc_request :: "('a, 'd) platform \<Rightarrow> ocssd_conn \<Rightarrow> 'd world \<Rightarrow> 'd handled" where
  "process_alloc_request pf c w = do {
     r \<leftarrow> ocssd_alloc_request_parse (cn_message_buf c);
     (case r of
        Inl e \<Rightarrow> Some (Inl e)
      | Inr request \<Rightarrow> do {
          (ret, vssd, request, m) \<leftarrow> alloc_ocssd_resource (w_manager w) virtual_ocssd_new request;
          let w = w\<lparr>w_manager := m\<rparr>;
          if ret = 0 \<or> length (v_units vssd) < 1 then Some (Inr (-1, c, w))
          else let bq = bufferq_new (pf_malloc pf) VSSD_BUFFER_SIZE in
            if rq_remote request \<noteq> 0 then do {
              r \<leftarrow> initialize_remote_vssd pf (c\<lparr>cn_remote_vssd := 1\<rparr>) w vssd;
              (case r of Inl e \<Rightarrow> Some (Inl e) | Inr (_, c, w) \<Rightarrow> send_vssd c w vssd bq) }
            else send_vssd c w vssd bq }) }"

section \<open>Block requests\<close>

definition GetBlockPointer :: "ocssd_conn \<Rightarrow> nat \<Rightarrow> nvm_vblk option" where
  "GetBlockPointer c blk_idx =
     (if blk_idx < length (cn_blks_array c) then Some (cn_blks_array c ! blk_idx) else None)"

definition process_read_request :: "('a, 'd) platform \<Rightarrow> ocssd_conn \<Rightarrow> 'd world \<Rightarrow> 'd handled" where
  "process_read_request pf c w = do {
     r \<leftarrow> ocssd_io_request_parse (cn_message_buf c);
     (case r of
        Inl e \<Rightarrow> Some (Inl e)
      | Inr request \<Rightarrow> do {
          blk \<leftarrow> GetBlockPointer c (unat (io_block_index request));
          if blk = NULL then Some (Inr (-1, c, w))
          else let bq = bufferq_new (pf_malloc pf) (io_count request) in do {
            (ret, data, d) \<leftarrow> nvm_vblk_pread (pf_nvm pf) (w_dev w) blk (io_count request) (io_offset request);
            m \<leftarrow> poke (bq_buf bq) 0 data;
            Some (Inr (0, c\<lparr>cn_writeq := cn_writeq c @ [bq\<lparr>bq_buf := m\<rparr>], cn_ev_write := True\<rparr>,
                  w\<lparr>w_dev := d\<rparr>)) } }) }"

text \<open>The loop that receives the data of a write request: (complete, buffer, rest of the input).  A
  \<^verbatim>\<open>read(2)\<close> into memory that is not there fails.\<close>

lemma sock_read_progress: "sock_read n inp = (Got bs, inp') \<Longrightarrow> 0 < n \<Longrightarrow> bs \<noteq> [] \<and> length bs \<le> n"
  by (induction n inp rule: sock_read.induct) (auto simp: Let_def SSIZE_CAP_def split: if_splits)

function receive_data :: "nat \<Rightarrow> byte list \<Rightarrow> nat \<Rightarrow> chunk list \<Rightarrow> bool \<times> byte list \<times> chunk list" where
  "receive_data count buffer received inp =
     (if received < count then
        (case sock_read (count - received) inp of
           (Got bs, inp') \<Rightarrow>
             (case poke buffer received bs of
                None \<Rightarrow> (False, buffer, inp)
              | Some m \<Rightarrow> receive_data count m (received + length bs) inp')
         | (_, inp') \<Rightarrow> (False, buffer, inp'))
      else (True, buffer, inp))"
  by pat_completeness auto
termination
proof (relation "measure (\<lambda>(count, buffer, received, inp). count - received)", goal_cases)
  case (2 count buffer received inp r inp' bs m)
  then have "bs \<noteq> []" using sock_read_progress [of "count - received" inp bs inp'] by auto
  then show ?case using 2(1) by (cases bs) auto
qed simp

declare receive_data.simps [simp del]

definition process_write_request ::
  "('a, 'd) platform \<Rightarrow> ocssd_conn \<Rightarrow> 'd world \<Rightarrow> chunk list \<Rightarrow> ('d handled \<times> chunk list)" where
  "process_write_request pf c w inp =
     (case ocssd_io_request_parse (cn_message_buf c) of
        None \<Rightarrow> (None, inp)
      | Some (Inl e) \<Rightarrow> (Some (Inl e), inp)
      | Some (Inr request) \<Rightarrow>
          (case GetBlockPointer c (unat (io_block_index request)) of
             None \<Rightarrow> (None, inp)
           | Some blk \<Rightarrow>
               if blk = NULL then (Some (Inr (-1, c, w)), inp)
               else let bq = bufferq_new (pf_malloc pf) (io_count request);
                        (complete, data, inp') = receive_data (unat (io_count request)) (bq_buf bq) 0 inp
                    in if \<not> complete then (Some (Inr (-1, disconnect c, w)), inp')
                       else (do { (ret, d) \<leftarrow> nvm_vblk_write (pf_nvm pf) (w_dev w) blk
                                    (take (unat (io_count request)) data);
                                  Some (Inr (0, c, w\<lparr>w_dev := d\<rparr>)) }, inp')))"

definition process_erase_request :: "('a, 'd) platform \<Rightarrow> ocssd_conn \<Rightarrow> 'd world \<Rightarrow> 'd handled" where
  "process_erase_request pf c w = do {
     r \<leftarrow> ocssd_io_request_parse (cn_message_buf c);
     (case r of
        Inl e \<Rightarrow> Some (Inl e)
      | Inr request \<Rightarrow> do {
          blk \<leftarrow> GetBlockPointer c (unat (io_block_index request));
          if blk = NULL then Some (Inr (-1, c, w))
          else do {
            (ret, d) \<leftarrow> nvm_vblk_erase (pf_nvm pf) (w_dev w) blk;
            Some (Inr (0, c, w\<lparr>w_dev := d\<rparr>)) } }) }"

section \<open>Commands\<close>

text \<open>The loop that fills the message buffer: (complete, connection, rest of the input).\<close>

function read_command :: "ocssd_conn \<Rightarrow> chunk list \<Rightarrow> bool \<times> ocssd_conn \<times> chunk list" where
  "read_command c inp =
     (if cn_message_end c < MESSAGE_BUFFER_SIZE then
        (case sock_read (MESSAGE_BUFFER_SIZE - cn_message_end c) inp of
           (Got bs, inp') \<Rightarrow>
             read_command (c\<lparr>cn_message_buf := take (cn_message_end c) (cn_message_buf c) @ bs @
                               drop (cn_message_end c + length bs) (cn_message_buf c),
                             cn_message_end := cn_message_end c + length bs\<rparr>) inp'
         | (_, inp') \<Rightarrow> (False, disconnect c, inp'))
      else (True, c, inp))"
  by pat_completeness auto
termination
proof (relation "measure (\<lambda>(c, inp). MESSAGE_BUFFER_SIZE - cn_message_end c)", goal_cases)
  case (2 c inp r inp' bs)
  then have "bs \<noteq> []" using sock_read_progress [of "MESSAGE_BUFFER_SIZE - cn_message_end c" inp bs inp'] by auto
  then show ?case using 2(1) by (cases bs) auto
qed simp

declare read_command.simps [simp del]

text \<open>The \<^verbatim>\<open>switch (header)\<close>.\<close>

definition dispatch ::
  "('a, 'd) platform \<Rightarrow> ocssd_conn \<Rightarrow> 'd world \<Rightarrow> chunk list \<Rightarrow> 'd handled \<times> chunk list" where
  "dispatch pf c w inp =
     (case get_header (cn_message_buf c) of
        None \<Rightarrow> (None, inp)
      | Some header \<Rightarrow>
          if header = REQUEST_MAGIC then (process_alloc_request pf c w, inp)
          else if header = READ_BLOCK_MAGIC then (process_read_request pf c w, inp)
          else if header = WRITE_BLOCK_MAGIC then process_write_request pf c w inp
          else if header = ERASE_BLOCK_MAGIC then (process_erase_request pf c w, inp)
          else (Some (Inr (-1, c, w)), inp))"

definition process_command ::
  "('a, 'd) platform \<Rightarrow> ocssd_conn \<Rightarrow> 'd world \<Rightarrow> chunk list \<Rightarrow> 'd handled \<times> chunk list" where
  "process_command pf c w inp =
     (let (complete, c, inp) = read_command c inp
      in if \<not> complete then (Some (Inr (-1, c, w)), inp)
         else dispatch pf (c\<lparr>cn_message_end := 0\<rparr>) w inp)"

definition process_write_data :: "int" where "process_write_data = 0"

definition process_incoming_requests ::
  "('a, 'd) platform \<Rightarrow> ocssd_conn \<Rightarrow> 'd world \<Rightarrow> chunk list \<Rightarrow> 'd handled \<times> chunk list" where
  "process_incoming_requests pf c w inp =
     (if cn_state c = RECEIVING_COMMAND then process_command pf c w inp
      else (Some (Inr (process_write_data, c, w)), inp))"

section \<open>Reassembly\<close>

text \<open>The bytes that can be read before the first interruption.\<close>

fun arrived :: "chunk list \<Rightarrow> byte list" where
  "arrived (Data (b # bs) # cs) = (b # bs) @ arrived cs"
| "arrived _ = []"

lemma sock_read_Got: "sock_read n inp = (Got bs, inp') \<Longrightarrow> 0 < n \<Longrightarrow> arrived inp = bs @ arrived inp'"
proof (induction n inp rule: sock_read.induct)
  case (3 n b bs' cs)
  show ?case
  proof (cases "Suc (length bs') \<le> min n SSIZE_CAP")
    case True
    then show ?thesis using 3 by auto
  next
    case False
    let ?k = "min n SSIZE_CAP"
    have "drop ?k (b # bs') \<noteq> []" using False by (simp add: not_le)
    then obtain x xs where x: "drop ?k (b # bs') = x # xs" by (cases "drop ?k (b # bs')") auto
    then have e: "bs = take ?k (b # bs')" "inp' = Data (x # xs) # cs"
      using 3(1) False by (auto simp: Let_def)
    have "take ?k (b # bs') @ x # xs = b # bs'" using append_take_drop_id [of ?k "b # bs'"] x by simp
    then show ?thesis unfolding e by (metis append.assoc arrived.simps(1))
  qed
qed auto

lemma sock_read_none:
  "arrived inp = [] \<Longrightarrow> \<exists>r inp'. sock_read n inp = (r, inp') \<and> (r = Eof \<or> r = Err)"
  by (induction n inp rule: sock_read.induct) auto

lemma sock_read_some:
  assumes "arrived inp \<noteq> []"
  shows "\<exists>bs inp'. sock_read n inp = (Got bs, inp')"
  using assms by (induction n inp rule: sock_read.induct) (auto simp: Let_def)

lemma receive_data_arrived:
  assumes "received \<le> count" "count \<le> length buffer"
  shows "if count - received \<le> length (arrived inp)
    then \<exists>inp'. receive_data count buffer received inp =
        (True, take received buffer @ take (count - received) (arrived inp) @ drop count buffer, inp') \<and>
      arrived inp' = drop (count - received) (arrived inp)
    else \<exists>m inp'. receive_data count buffer received inp = (False, m, inp')"
  using assms
proof (induction count buffer received inp rule: receive_data.induct)
  case (1 count buffer received inp)
  show ?case
  proof (cases "received < count")
    case False
    then show ?thesis using 1(2) by (subst (1 2) receive_data.simps) auto
  next
    case lt: True
    show ?thesis
    proof (cases "arrived inp = []")
      case True
      then obtain r inp' where "sock_read (count - received) inp = (r, inp')" "r = Eof \<or> r = Err"
        using sock_read_none by blast
      then show ?thesis using lt True by (subst (1 2) receive_data.simps) auto
    next
      case False
      then obtain bs inp' where r: "sock_read (count - received) inp = (Got bs, inp')"
        using sock_read_some by blast
      have bs: "length bs \<le> count - received" "arrived inp = bs @ arrived inp'"
        using sock_read_progress [OF r] sock_read_Got [OF r] lt by auto
      let ?m = "take received buffer @ bs @ drop (received + length bs) buffer"
      have p: "poke buffer received bs = Some ?m" using bs(1) lt 1(3) by (simp add: poke_def)
      have step: "receive_data count buffer received inp = receive_data count ?m (received + length bs) inp'"
        using lt r p by (subst receive_data.simps) simp
      have len: "received + length bs \<le> count" "count \<le> length ?m" using bs(1) lt 1(3) by auto
      have t: "take (received + length bs) ?m = take received buffer @ bs" using 1(3) lt by simp
      have dr: "drop count ?m = drop count buffer"
        using len(1) lt 1(3) by simp
      have k: "count - (received + length bs) \<le> length (arrived inp') \<longleftrightarrow> count - received \<le> length (arrived inp)"
        "take (count - received) (arrived inp) = bs @ take (count - (received + length bs)) (arrived inp')"
        "drop (count - received) (arrived inp) = drop (count - (received + length bs)) (arrived inp')"
        using bs by auto
      from 1(1) [OF lt r [symmetric] refl p len] show ?thesis
        unfolding step t dr k append_assoc .
    qed
  qed
qed

lemma read_command_arrived:
  assumes "cn_message_end c \<le> MESSAGE_BUFFER_SIZE" "length (cn_message_buf c) = MESSAGE_BUFFER_SIZE"
  shows "if MESSAGE_BUFFER_SIZE - cn_message_end c \<le> length (arrived inp)
    then \<exists>inp'. read_command c inp = (True, c\<lparr>cn_message_buf := take (cn_message_end c) (cn_message_buf c) @
            take (MESSAGE_BUFFER_SIZE - cn_message_end c) (arrived inp),
          cn_message_end := MESSAGE_BUFFER_SIZE\<rparr>, inp') \<and>
      arrived inp' = drop (MESSAGE_BUFFER_SIZE - cn_message_end c) (arrived inp)
    else \<exists>m e inp'. read_command c inp =
      (False, disconnect (c\<lparr>cn_message_buf := m, cn_message_end := e\<rparr>), inp') \<and>
      length m = MESSAGE_BUFFER_SIZE \<and> e < MESSAGE_BUFFER_SIZE"
  using assms
proof (induction c inp rule: read_command.induct)
  case (1 c inp)
  let ?N = MESSAGE_BUFFER_SIZE and ?e = "cn_message_end c" and ?b = "cn_message_buf c"
  show ?case
  proof (cases "?e < ?N")
    case False
    then show ?thesis using 1(2,3) by (subst (1 2) read_command.simps) (cases c, auto)
  next
    case lt: True
    show ?thesis
    proof (cases "arrived inp = []")
      case True
      then obtain r inp' where r: "sock_read (?N - ?e) inp = (r, inp')" "r = Eof \<or> r = Err"
        using sock_read_none by blast
      then have "read_command c inp = (False, disconnect (c\<lparr>cn_message_buf := ?b, cn_message_end := ?e\<rparr>), inp')"
        using lt by (subst read_command.simps) auto
      then have "\<exists>m e inp'. read_command c inp =
          (False, disconnect (c\<lparr>cn_message_buf := m, cn_message_end := e\<rparr>), inp') \<and> length m = ?N \<and> e < ?N"
        using lt 1(3) by blast
      then show ?thesis using lt True by simp
    next
      case False
      then obtain bs inp' where r: "sock_read (?N - ?e) inp = (Got bs, inp')"
        using sock_read_some by blast
      have bs: "length bs \<le> ?N - ?e" "arrived inp = bs @ arrived inp'"
        using sock_read_progress [OF r] sock_read_Got [OF r] lt by auto
      let ?m = "take ?e ?b @ bs @ drop (?e + length bs) ?b"
      let ?c = "c\<lparr>cn_message_buf := ?m, cn_message_end := ?e + length bs\<rparr>"
      have step: "read_command c inp = read_command ?c inp'"
        using lt r by (subst read_command.simps) simp
      have len: "cn_message_end ?c \<le> ?N" "length (cn_message_buf ?c) = ?N" using bs(1) lt 1(3) by auto
      have t: "take (cn_message_end ?c) (cn_message_buf ?c) = take ?e ?b @ bs" using 1(3) lt by simp
      have k: "?N - cn_message_end ?c \<le> length (arrived inp') \<longleftrightarrow> ?N - ?e \<le> length (arrived inp)"
        "take (?N - ?e) (arrived inp) = bs @ take (?N - cn_message_end ?c) (arrived inp')"
        "drop (?N - ?e) (arrived inp) = drop (?N - cn_message_end ?c) (arrived inp')"
        using bs by auto
      have upd: "?c\<lparr>cn_message_buf := x, cn_message_end := y\<rparr> = c\<lparr>cn_message_buf := x, cn_message_end := y\<rparr>" for x y
        by simp
      from 1(1) [OF lt r [symmetric] refl len] show ?thesis
        unfolding step t k upd append_assoc .
    qed
  qed
qed

definition conn_ready :: "ocssd_conn \<Rightarrow> bool" where
  "conn_ready c \<longleftrightarrow> cn_message_end c = 0 \<and> length (cn_message_buf c) = MESSAGE_BUFFER_SIZE \<and>
     cn_state c = RECEIVING_COMMAND"

lemma incoming_dispatch:
  assumes "conn_ready c" "arrived inp = msg @ rest" "length msg = MESSAGE_BUFFER_SIZE"
  obtains inp' where "process_incoming_requests pf c w inp =
      dispatch pf (c\<lparr>cn_message_buf := msg\<rparr>) w inp'" "arrived inp' = rest"
proof -
  have c: "cn_message_end c = 0" "length (cn_message_buf c) = MESSAGE_BUFFER_SIZE"
    "cn_state c = RECEIVING_COMMAND" using assms(1) by (simp_all add: conn_ready_def)
  obtain inp' where r: "read_command c inp =
      (True, c\<lparr>cn_message_buf := msg, cn_message_end := MESSAGE_BUFFER_SIZE\<rparr>, inp')" "arrived inp' = rest"
    using read_command_arrived [of c inp] c assms(2,3) by auto
  have "c\<lparr>cn_message_buf := msg, cn_message_end := 0\<rparr> = c\<lparr>cn_message_buf := msg\<rparr>" using c(1) by (cases c) simp
  with r c(3) show thesis
    by (intro that [of inp']) (simp_all add: process_incoming_requests_def process_command_def)
qed

section \<open>Handlers\<close>

lemma publish_resource_eq:
  "publish_resource m log = (int (length (mg_ocssds m)),
     log @ map (\<lambda>u. (du_desc u, snd (get_ocssd_stats u))) (mg_ocssds m))"
proof -
  have "fst (get_ocssd_stats u) = 0" for u by (simp add: get_ocssd_stats_def Let_def split: prod.split)
  then have "publish_unit u log = log @ [(du_desc u, snd (get_ocssd_stats u))]" for u log
    by (auto simp: publish_unit_def Let_def split: prod.split) (metis fst_conv)
  then have "fold publish_unit us log = log @ map (\<lambda>u. (du_desc u, snd (get_ocssd_stats u))) us" for us log
    by (induction us arbitrary: log) auto
  then show ?thesis by (simp add: publish_resource_def)
qed

lemma get_header_image:
  assumes "length buffer = REQUEST_ALLOC_SIZE" "ocssd_alloc_request_serialize buffer rq = Some (msg, REQUEST_ALLOC_SIZE)"
  shows "msg = alloc_image rq"
  using assms by (simp add: alloc_serialize_image put_start REQUEST_ALLOC_SIZE_def)

lemma send_vssd_ok:
  assumes "vssd_ok v" "vssd_width v \<le> length (bq_buf bq)" "length (bq_buf bq) < 2 ^ 64" "bq_offset bq = 0"
  obtains reply where
    "send_vssd c w v bq = Some (Inr (0, c\<lparr>cn_writeq := cn_writeq c @ [reply], cn_ev_write := True\<rparr>,
       w\<lparr>w_published := w_published w @ map (\<lambda>u. (du_desc u, snd (get_ocssd_stats u))) (mg_ocssds (w_manager w))\<rparr>))"
    "unat (bq_len reply) = vssd_width v" "bq_offset reply = 0" "length (bq_buf reply) = length (bq_buf bq)"
    "\<forall>tail. virtual_ocssd_deserialize virtual_ocssd_new (take (vssd_width v) (bq_buf reply) @ tail) =
       Some (v, vssd_width v)"
proof -
  obtain us where us: "imgs unit_img (v_units v) us" "length (vssd_head v @ us) = vssd_width v"
    "virtual_ocssd_serialize (bq_buf bq) v =
      Option.bind (put (start (bq_buf bq)) (vssd_head v @ us)) (\<lambda>p. Some (buf p, pos p))"
    using vssd_serialize_put [OF assms(1)] .
  let ?out = "vssd_head v @ us @ drop (vssd_width v) (bq_buf bq)"
  have ser: "virtual_ocssd_serialize (bq_buf bq) v = Some (?out, vssd_width v)"
    using us assms(2) by (simp add: put_def poke_def)
  have des: "virtual_ocssd_deserialize virtual_ocssd_new ((vssd_head v @ us) @ tail) = Some (v, vssd_width v)" for tail
    by (subst vssd_deserialize_reads [OF assms(1) us(1)])
      (use us(2) in \<open>simp_all add: reads_start_iff virtual_ocssd_new_def\<close>)
  have tk: "take (vssd_width v) ?out = vssd_head v @ us"
    using us(2) by (metis append_assoc append_eq_conv_conj)
  have len: "length ?out = length (bq_buf bq)" using us(2) assms(2) by simp
  have w: "unat (word_of_nat (vssd_width v) :: u64) = vssd_width v"
    using assms(2,3) by (intro unat_of_nat_less) simp
  show thesis
    by (rule that [of "bq\<lparr>bq_buf := ?out, bq_len := word_of_nat (vssd_width v)\<rparr>"])
      (use ser des len w tk assms(4) in \<open>simp_all add: send_vssd_def publish_resource_eq\<close>)
qed

lemma send_vssd_overflow:
  assumes "vssd_ok v" "length (bq_buf bq) < vssd_width v"
  shows "send_vssd c w v bq = None"
proof -
  obtain us where "length (vssd_head v @ us) = vssd_width v" "virtual_ocssd_serialize (bq_buf bq) v =
      Option.bind (put (start (bq_buf bq)) (vssd_head v @ us)) (\<lambda>p. Some (buf p, pos p))"
    using vssd_serialize_put [OF assms(1)] by blast
  moreover from this(1) assms(2) have "put (start (bq_buf bq)) (vssd_head v @ us) = None"
    by (simp only: put_None_iff cursor.simps add_0)
  ultimately show ?thesis by (simp add: send_vssd_def)
qed

lemma alloc_resource_loop_remote:
  "alloc_resource_loop us v rq c = Some (n, v', rq', us') \<Longrightarrow> rq_remote rq' = rq_remote rq"
  by (induction us arbitrary: v rq c us')
    (fastforce simp: Let_def dec_channels_def Option.bind_eq_Some_conv split: if_splits)+

lemma alloc_resource_loop_units:
  "devices_inv us \<Longrightarrow> alloc_resource_loop us v rq c = Some (n, v', rq', us') \<Longrightarrow>
   \<forall>u\<in>set us. \<forall>w k x vus u' vu. device_inv u \<longrightarrow>
     alloc_channels u w k = Some (x, w\<lparr>v_units := v_units w @ vus\<rparr>, u') \<longrightarrow> vu \<in> set vus \<longrightarrow> P vu \<Longrightarrow>
   list_all P (v_units v) \<Longrightarrow> list_all P (v_units v')"
proof (induction us arbitrary: v rq c us')
  case Nil
  then show ?case by simp
next
  case (Cons u us)
  have u: "device_inv u" "name_ok (du_name u)" "devices_inv us" using Cons.prems(1) by (auto simp: devices_inv_Cons)
  obtain k vus u' where st: "alloc_channels u v rq = Some (k, v\<lparr>v_units := v_units v @ vus\<rparr>, u')"
    using alloc_channels_step [OF u(1,2)] by metis
  have "P vu" if "vu \<in> set vus" for vu
    using Cons.prems(3) u(1) st that by (meson list.set_intros(1))
  then have P: "list_all P (v_units (v\<lparr>v_units := v_units v @ vus\<rparr>))"
    using Cons.prems(4) by (auto simp: list_all_iff)
  show ?case
  proof (cases "rq_num_channels (dec_channels rq k) = 0")
    case True
    then show ?thesis using Cons.prems(2) st P by (simp add: Let_def)
  next
    case False
    then obtain us1 where "alloc_resource_loop us (v\<lparr>v_units := v_units v @ vus\<rparr>) (dec_channels rq k) (c + k) =
        Some (n, v', rq', us1)"
      using Cons.prems(2) st by (auto simp: Let_def Option.bind_eq_Some_conv)
    moreover have "\<forall>u\<in>set us. \<forall>w k x vus u' vu. device_inv u \<longrightarrow>
        alloc_channels u w k = Some (x, w\<lparr>v_units := v_units w @ vus\<rparr>, u') \<longrightarrow> vu \<in> set vus \<longrightarrow> P vu"
      using Cons.prems(3) by simp
    ultimately show ?thesis using Cons.IH [OF u(3) _ _ P] by blast
  qed
qed

definition unit_of :: "ocssd_manager \<Rightarrow> virtual_ocssd_unit \<Rightarrow> bool" where
  "unit_of m vu \<longleftrightarrow> unit_stripes_ok vu \<and>
     (\<exists>u\<in>set (mg_ocssds m). vu_dev_name vu = du_name u \<and> vu_geo vu = du_geo u)"

text \<open>What the handler needs to know of an allocation.\<close>

lemma alloc_granted:
  assumes "manager_inv m" "alloc_ocssd_resource m virtual_ocssd_new rq = Some (n, v, rq', m')"
  shows "vssd_ok v" "n \<noteq> 0 \<Longrightarrow> v_units v \<noteq> []" "rq_remote rq' = rq_remote rq" "manager_inv m'"
    "list_all (unit_of m) (v_units v)"
proof -
  obtain vus where g: "v = \<lparr>v_id = mg_vssd_id m, v_units = vus\<rparr>"
    "manager_inv m'" "unat n = length (vssd_channels vus)" "list_all unit_ok vus" "length vus \<le> length (mg_ocssds m)"
    using alloc_ocssd_resource_grant [OF assms(1), of virtual_ocssd_new rq] assms(2)
    by (metis (no_types, lifting) append_Nil option.inject prod.inject select_convs virtual_ocssd.simps(2) virtual_ocssd_new_def)
  show "manager_inv m'" by (rule g(2))
  show "vssd_ok v" using g(1,4,5) assms(1) by (simp add: vssd_ok_def manager_inv_def)
  obtain v1 us' where l: "alloc_resource_loop (mg_ocssds m) virtual_ocssd_new rq 0 = Some (n, v1, rq', us')"
    "v = v1\<lparr>v_id := mg_vssd_id m\<rparr>"
    using assms(2) by (auto simp: alloc_ocssd_resource_def Option.bind_eq_Some_conv)
  then show "rq_remote rq' = rq_remote rq" using alloc_resource_loop_remote by blast
  have d: "devices_inv (mg_ocssds m)" using assms(1) by (simp add: manager_inv_def)
  have "list_all (unit_of m) (v_units v1)"
    by (rule alloc_resource_loop_units [OF d l(1)])
      (use alloc_channels_stripes in \<open>auto simp: unit_of_def virtual_ocssd_new_def\<close>)
  then show "list_all (unit_of m) (v_units v)" using l(2) by simp
  show "v_units v \<noteq> []" if "n \<noteq> 0"
    using that g(1,3) by (auto simp: unat_eq_0 [symmetric])
qed

text \<open>The allocation handler, for a request that does not ask for remote access and for one that does.\<close>

definition reply_buffer_ok :: "('a, 'd) platform \<Rightarrow> bool" where
  "reply_buffer_ok pf \<longleftrightarrow> length (pf_malloc pf VSSD_BUFFER_SIZE) = unat VSSD_BUFFER_SIZE"

lemma dispatch_alloc:
  "cn_message_buf c = alloc_image rq \<Longrightarrow> dispatch pf c w inp = (process_alloc_request pf c w, inp)"
  using alloc_image_header [of rq "[]"] by (simp add: dispatch_def)

lemma parse_alloc_image: "ocssd_alloc_request_parse (alloc_image rq) = Some (Inr rq)"
  using reads_start_append [of "alloc_image rq" "[]"] by (simp add: alloc_parse_image)

lemma process_alloc_local:
  assumes "cn_message_buf c = alloc_image rq" "manager_inv (w_manager w)"
    "alloc_ocssd_resource (w_manager w) virtual_ocssd_new rq = Some (n, v, rq', m')" "n \<noteq> 0" "rq_remote rq = 0"
  shows "process_alloc_request pf c w =
    send_vssd c (w\<lparr>w_manager := m'\<rparr>) v (bufferq_new (pf_malloc pf) VSSD_BUFFER_SIZE)"
  using assms alloc_granted [OF assms(2,3)] parse_alloc_image [of rq]
  by (simp add: process_alloc_request_def Let_def)

lemma bufferq_new_simps [simp]:
  "bq_buf (bufferq_new malloc n) = malloc n" "bq_len (bufferq_new malloc n) = n" "bq_offset (bufferq_new malloc n) = 0"
  by (simp_all add: bufferq_new_def)

lemma VSSD_BUFFER_SIZE_val: "unat VSSD_BUFFER_SIZE = 1024"
  by (simp add: VSSD_BUFFER_SIZE_def)

lemma initialize_remote_ok:
  assumes "reliable (pf_nvm pf)" "v_units v = vu # vus" "unit_stripes_ok vu"
    "pf_dev_open pf (vu_dev_name vu) = Some (vu_geo vu)"
  obtains d blks sz where "initialize_remote_vssd pf c w v =
      Some (Inr (0, c\<lparr>cn_dev := Some (vu_dev_name vu, vu_geo vu), cn_blks_array := cn_blks_array c @ blks,
        cn_blk_size := sz, cn_num_blks := Some (word_of_nat (length blks))\<rparr>, w\<lparr>w_dev := d\<rparr>))"
    "length blks = rounds (ranges (vu_geo vu) (vu_channels vu))" "NULL \<notin> set blks"
proof -
  let ?rs = "ranges (vu_geo vu) (vu_channels vu)"
  let ?s = "\<lparr>vb_dev = w_dev w, vb_array = cn_blks_array c, vb_size = cn_blk_size c, vb_count = 0\<rparr>"
  let ?as = "map (\<lambda>k. addresses (pf_nvm pf) (stripe ?rs k)) [0..<rounds ?rs]"
  obtain s' blks where r: "run_stripes (pf_nvm pf) (vu_dev_name vu) ?as ?s = Some (Inr s')"
    "vb_array s' = vb_array ?s @ blks" "length blks = length ?as" "NULL \<notin> set blks"
    "vb_count s' = vb_count ?s + int (length ?as)"
    using run_stripes_ok [OF assms(1)] by blast
  have "initialize_vssd_blocks (pf_nvm pf) (vu_geo vu) (vu_dev_name vu) vu ?s =
      Some (0, s', Some (word_of_nat (length blks)))"
    using initialize_vssd_blocks_stripes [of vu "vu_geo vu" "pf_nvm pf" "vu_dev_name vu" ?s] assms(3) r
    by (simp add: unit_stripes_ok_def)
  then show thesis
    using that [of blks "vb_size s'" "vb_dev s'"] assms(2,4) r
    by (simp add: initialize_remote_vssd_def Let_def)
qed

lemma process_alloc_remote:
  assumes "cn_message_buf c = alloc_image rq" "manager_inv (w_manager w)"
    "alloc_ocssd_resource (w_manager w) virtual_ocssd_new rq = Some (n, v, rq', m')" "n \<noteq> 0" "rq_remote rq \<noteq> 0"
    "initialize_remote_vssd pf (c\<lparr>cn_remote_vssd := 1\<rparr>) (w\<lparr>w_manager := m'\<rparr>) v = Some (Inr (i, c1, w1))"
  shows "process_alloc_request pf c w = send_vssd c1 w1 v (bufferq_new (pf_malloc pf) VSSD_BUFFER_SIZE)"
  using assms alloc_granted [OF assms(2,3)] parse_alloc_image [of rq]
  by (simp add: process_alloc_request_def Let_def)

text \<open>Block requests.\<close>

lemma io_message:
  assumes "length b0 = REQUEST_IO_SIZE" "io_command_magic (io_command r) = Some magic"
    "ocssd_io_request_serialize b0 r = Some (msg, REQUEST_IO_SIZE)"
  shows "msg = io_image magic r"
  using assms by (simp add: io_serialize_image put_start REQUEST_IO_SIZE_def)

lemma parse_io_image:
  "io_command_magic (io_command r) = Some magic \<Longrightarrow> ocssd_io_request_parse (io_image magic r) = Some (Inr r)"
  using reads_start_append [of "io_image magic r" "[]"] by (auto simp: io_parse_image)

lemma dispatch_io:
  assumes "cn_message_buf c = io_image magic r"
  shows "magic = READ_BLOCK_MAGIC \<Longrightarrow> dispatch pf c w inp = (process_read_request pf c w, inp)"
    "magic = WRITE_BLOCK_MAGIC \<Longrightarrow> dispatch pf c w inp = process_write_request pf c w inp"
    "magic = ERASE_BLOCK_MAGIC \<Longrightarrow> dispatch pf c w inp = (process_erase_request pf c w, inp)"
  using assms io_image_header [of magic r "[]"] by (simp_all add: dispatch_def magic_defs)

text \<open>A platform for the examples: every device has the sample geometry, memory comes zeroed.\<close>

definition sample_platform :: "(u32 \<times> u32 \<times> u32, nat) platform" where
  "sample_platform = \<lparr>pf_nvm = counting_nvm, pf_dev_open = (\<lambda>_. Some sample_geo),
     pf_malloc = (\<lambda>n. replicate (unat n) 0)\<rparr>"

definition sample_world :: "ocssd_manager \<Rightarrow> nat world" where
  "sample_world m = \<lparr>w_manager = m, w_dev = 0, w_published = []\<rparr>"

definition sample_conn :: ocssd_conn where
  "sample_conn = ocssd_conn_new (replicate 24 0) 7 ''10.0.0.2''"

definition wide_geo :: nvm_geo where
  "wide_geo = sample_geo\<lparr>nchannels := 4, nluns := 20, nblocks := 64\<rparr>"

definition wide_manager :: ocssd_manager where
  "wide_manager = snd (add_ocssd (\<lambda>_. Some wide_geo) (ocssd_manager_new []) ''/dev/nvme1n1'')"

lemma wide_manager_inv: "manager_inv wide_manager"
  unfolding wide_manager_def
  by (rule add_ocssd_inv [OF ocssd_manager_new_inv, of "\<lambda>_. Some wide_geo" "''/dev/nvme1n1''" wide_geo "[]"])
    (simp_all add: geo_ok_def name_ok_def wide_geo_def sample_geo_def ocssd_manager_new_def)

lemma sample_platform_ok: "reply_buffer_ok sample_platform" "conn_ready sample_conn"
  by (simp_all add: reply_buffer_ok_def sample_platform_def conn_ready_def sample_conn_def ocssd_conn_new_def
      MESSAGE_BUFFER_SIZE_def)

lemma arrived_Data: "xs \<noteq> [] \<Longrightarrow> arrived (Data xs # cs) = xs @ arrived cs"
  by (cases xs) auto

text \<open>A connection with three virtual blocks, and a request for one of them.\<close>

definition remote_conn :: ocssd_conn where
  "remote_conn = sample_conn\<lparr>cn_remote_vssd := 1, cn_blks_array := [11, 12, 13]\<rparr>"

definition sample_io :: "REQUEST_CODE \<Rightarrow> u32 \<Rightarrow> ocssd_io_request" where
  "sample_io cmd idx = \<lparr>io_command = cmd, io_block_index = idx, io_count = 5, io_offset = 0\<rparr>"

lemma remote_conn_ready: "conn_ready remote_conn"
  using sample_platform_ok(2) by (simp add: remote_conn_def conn_ready_def)

lemma sample_io_message:
  assumes "io_command_magic cmd = Some magic"
  shows "ocssd_io_request_serialize (replicate 24 0) (sample_io cmd i) =
      Some (io_image magic (sample_io cmd i), REQUEST_IO_SIZE)"
    "arrived (Data (io_image magic (sample_io cmd i)) # cs) = io_image magic (sample_io cmd i) @ arrived cs"
proof -
  show "ocssd_io_request_serialize (replicate 24 0) (sample_io cmd i) =
      Some (io_image magic (sample_io cmd i), REQUEST_IO_SIZE)"
    using assms by (simp add: io_serialize_image put_start REQUEST_IO_SIZE_def sample_io_def)
  show "arrived (Data (io_image magic (sample_io cmd i)) # cs) = io_image magic (sample_io cmd i) @ arrived cs"
    using length_io_image [of magic "sample_io cmd i"] by (intro arrived_Data) (auto simp del: length_io_image)
qed

text \<open>A whole exchange: the request arrives, the reply is queued.\<close>

lemma local_alloc_reply:
  assumes "conn_ready c" and "manager_inv (w_manager w)" and "reply_buffer_ok pf"
    and "length b0 = REQUEST_ALLOC_SIZE" and "ocssd_alloc_request_serialize b0 rq = Some (msg, REQUEST_ALLOC_SIZE)"
    and "arrived inp = msg @ rest" and "rq_remote rq = 0"
    and "alloc_ocssd_resource (w_manager w) virtual_ocssd_new rq = Some (n, v, rq', m')" and "n \<noteq> 0"
    and "vssd_width v \<le> unat VSSD_BUFFER_SIZE"
  shows "\<exists>reply c' w' inp'. process_incoming_requests pf c w inp = (Some (Inr (0, c', w')), inp') \<and>
    arrived inp' = rest \<and> conn_ready c' \<and>
    cn_writeq c' = cn_writeq c @ [reply] \<and> cn_ev_write c' \<and> bq_offset reply = 0 \<and>
    unat (bq_len reply) = vssd_width v \<and> unat (bq_len reply) \<le> length (bq_buf reply) \<and>
    (\<forall>tail. virtual_ocssd_deserialize virtual_ocssd_new (take (unat (bq_len reply)) (bq_buf reply) @ tail) =
      Some (v, unat (bq_len reply))) \<and>
    w_manager w' = m' \<and> manager_inv m' \<and>
    w_published w' = w_published w @ map (\<lambda>u. (du_desc u, snd (get_ocssd_stats u))) (mg_ocssds m')"
proof -
  have msg: "msg = alloc_image rq" by (rule get_header_image [OF assms(4,5)])
  obtain inp' where r: "process_incoming_requests pf c w inp = dispatch pf (c\<lparr>cn_message_buf := msg\<rparr>) w inp'"
    "arrived inp' = rest"
    using incoming_dispatch [OF assms(1,6)] by (metis length_alloc_image msg MESSAGE_BUFFER_SIZE_def)
  have m: "cn_message_buf (c\<lparr>cn_message_buf := msg\<rparr>) = alloc_image rq" by (simp add: msg)
  let ?c = "c\<lparr>cn_message_buf := msg\<rparr>" and ?w = "w\<lparr>w_manager := m'\<rparr>"
  let ?bq = "bufferq_new (pf_malloc pf) VSSD_BUFFER_SIZE"
  have b: "vssd_width v \<le> length (bq_buf ?bq)" "length (bq_buf ?bq) < 2 ^ 64" "bq_offset ?bq = 0"
    using assms(3,10) by (simp_all add: reply_buffer_ok_def VSSD_BUFFER_SIZE_val)
  obtain reply where s: "send_vssd ?c ?w v ?bq =
      Some (Inr (0, ?c\<lparr>cn_writeq := cn_writeq ?c @ [reply], cn_ev_write := True\<rparr>, ?w\<lparr>w_published :=
        w_published ?w @ map (\<lambda>u. (du_desc u, snd (get_ocssd_stats u))) (mg_ocssds (w_manager ?w))\<rparr>))"
    "unat (bq_len reply) = vssd_width v" "bq_offset reply = 0" "length (bq_buf reply) = length (bq_buf ?bq)"
    "\<forall>tail. virtual_ocssd_deserialize virtual_ocssd_new (take (vssd_width v) (bq_buf reply) @ tail) =
       Some (v, vssd_width v)"
    by (rule send_vssd_ok [OF alloc_granted(1) [OF assms(2,8)] b, of ?c ?w])
  have "process_incoming_requests pf c w inp = (send_vssd ?c ?w v ?bq, inp')"
    unfolding r(1) dispatch_alloc [OF m] process_alloc_local [OF m assms(2,8,9,7)] ..
  then show ?thesis
    using s b r(2) assms(1) alloc_granted(4) [OF assms(2,8)]
    by (simp add: conn_ready_def msg MESSAGE_BUFFER_SIZE_def)
qed

lemma sample_exchange:
  obtains n v rq' m' where "conn_ready sample_conn" "manager_inv (w_manager (sample_world sample_manager))"
    "reply_buffer_ok sample_platform" "length (replicate 24 (0 :: byte)) = REQUEST_ALLOC_SIZE"
    "ocssd_alloc_request_serialize (replicate 24 0) (ocssd_alloc_request_new 2 6 1 0 0) =
       Some (alloc_image (ocssd_alloc_request_new 2 6 1 0 0), REQUEST_ALLOC_SIZE)"
    "arrived [Data (alloc_image (ocssd_alloc_request_new 2 6 1 0 0))] = alloc_image (ocssd_alloc_request_new 2 6 1 0 0) @ []"
    "rq_remote (ocssd_alloc_request_new 2 6 1 0 0) = 0"
    "alloc_ocssd_resource (w_manager (sample_world sample_manager)) virtual_ocssd_new (ocssd_alloc_request_new 2 6 1 0 0)
       = Some (n, v, rq', m')" "n \<noteq> 0" "vssd_width v \<le> unat VSSD_BUFFER_SIZE"
proof -
  let ?rq = "ocssd_alloc_request_new 2 6 1 0 0"
  obtain n v rq' m' where r: "alloc_ocssd_resource sample_manager virtual_ocssd_new ?rq = Some (n, v, rq', m')"
    using alloc_ocssd_resource_grant [OF sample_manager_inv] by metis
  have "map_option (\<lambda>(n, v, _). (n, vssd_width v)) (alloc_ocssd_resource sample_manager virtual_ocssd_new ?rq) =
      Some (2, 188)" by code_simp
  then have n: "n \<noteq> 0" "vssd_width v \<le> unat VSSD_BUFFER_SIZE" using r by (simp_all add: VSSD_BUFFER_SIZE_val)
  have s: "ocssd_alloc_request_serialize (replicate 24 0) ?rq = Some (alloc_image ?rq, REQUEST_ALLOC_SIZE)"
    by (simp add: alloc_serialize_image put_start REQUEST_ALLOC_SIZE_def)
  have a: "arrived [Data (alloc_image ?rq)] = alloc_image ?rq @ []"
    using length_alloc_image [of ?rq] by (subst arrived_Data) (auto simp del: length_alloc_image)
  have len: "length (replicate 24 (0 :: byte)) = REQUEST_ALLOC_SIZE" by (simp add: REQUEST_ALLOC_SIZE_def)
  have m: "manager_inv (w_manager (sample_world sample_manager))" "rq_remote ?rq = 0"
    "alloc_ocssd_resource (w_manager (sample_world sample_manager)) virtual_ocssd_new ?rq = Some (n, v, rq', m')"
    using sample_manager_inv r by (simp_all add: sample_world_def ocssd_alloc_request_new_def)
  show thesis by (rule that [OF sample_platform_ok(2) m(1) sample_platform_ok(1) len s a m(2,3) n])
qed

lemma write_handled:
  assumes "conn_ready c" and "length b0 = REQUEST_IO_SIZE" and "io_command r = WRITE_BLOCK_REQUEST"
    and "ocssd_io_request_serialize b0 r = Some (msg, REQUEST_IO_SIZE)"
    and "arrived inp = msg @ data @ rest" and "length data = unat (io_count r)"
    and "unat (io_block_index r) < length (cn_blks_array c)"
    and "blk = cn_blks_array c ! unat (io_block_index r)" and "blk \<noteq> NULL"
    and "length (pf_malloc pf (io_count r)) = unat (io_count r)"
    and "nvm_vblk_write (pf_nvm pf) (w_dev w) blk data = Some (ret, d)"
  shows "\<exists>inp'. process_incoming_requests pf c w inp =
      (Some (Inr (0, c\<lparr>cn_message_buf := msg\<rparr>, w\<lparr>w_dev := d\<rparr>)), inp') \<and> arrived inp' = rest"
proof -
  have magic: "io_command_magic (io_command r) = Some WRITE_BLOCK_MAGIC" using assms(3) by simp
  have msg: "msg = io_image WRITE_BLOCK_MAGIC r" by (rule io_message [OF assms(2) magic assms(4)])
  obtain inp1 where 1: "process_incoming_requests pf c w inp = dispatch pf (c\<lparr>cn_message_buf := msg\<rparr>) w inp1"
    "arrived inp1 = data @ rest"
    using incoming_dispatch [OF assms(1,5)] by (metis length_io_image msg MESSAGE_BUFFER_SIZE_def)
  obtain inp2 where 2: "receive_data (unat (io_count r)) (pf_malloc pf (io_count r)) 0 inp1 = (True, data, inp2)"
    "arrived inp2 = rest"
    using receive_data_arrived [of 0 "unat (io_count r)" "pf_malloc pf (io_count r)" inp1] assms(6,10) 1(2) by auto
  have "cn_message_buf (c\<lparr>cn_message_buf := msg\<rparr>) = io_image WRITE_BLOCK_MAGIC r" by (simp add: msg)
  from dispatch_io(2) [OF this refl, of pf w inp1] show ?thesis
    using 1(1) 2 assms(6-9,11) parse_io_image [OF magic]
    by (simp add: process_write_request_def GetBlockPointer_def msg)
qed

lemma read_handled:
  assumes "conn_ready c" and "length b0 = REQUEST_IO_SIZE" and "io_command r = READ_BLOCK_REQUEST"
    and "ocssd_io_request_serialize b0 r = Some (msg, REQUEST_IO_SIZE)" and "arrived inp = msg @ rest"
    and "unat (io_block_index r) < length (cn_blks_array c)"
    and "blk = cn_blks_array c ! unat (io_block_index r)" and "blk \<noteq> NULL"
    and "length (pf_malloc pf (io_count r)) = unat (io_count r)"
    and "nvm_vblk_pread (pf_nvm pf) (w_dev w) blk (io_count r) (io_offset r) = Some (ret, data, d)"
    and "length data \<le> unat (io_count r)"
  shows "\<exists>reply inp'. process_incoming_requests pf c w inp =
      (Some (Inr (0, c\<lparr>cn_message_buf := msg, cn_writeq := cn_writeq c @ [reply], cn_ev_write := True\<rparr>,
         w\<lparr>w_dev := d\<rparr>)), inp') \<and> arrived inp' = rest \<and>
    bq_len reply = io_count r \<and> bq_offset reply = 0 \<and>
    bq_buf reply = data @ drop (length data) (pf_malloc pf (io_count r))"
proof -
  have magic: "io_command_magic (io_command r) = Some READ_BLOCK_MAGIC" using assms(3) by simp
  have msg: "msg = io_image READ_BLOCK_MAGIC r" by (rule io_message [OF assms(2) magic assms(4)])
  obtain inp1 where 1: "process_incoming_requests pf c w inp = dispatch pf (c\<lparr>cn_message_buf := msg\<rparr>) w inp1"
    "arrived inp1 = rest"
    using incoming_dispatch [OF assms(1,5)] by (metis length_io_image msg MESSAGE_BUFFER_SIZE_def)
  have "cn_message_buf (c\<lparr>cn_message_buf := msg\<rparr>) = io_image READ_BLOCK_MAGIC r" by (simp add: msg)
  from dispatch_io(1) [OF this refl, of pf w inp1] show ?thesis
    using 1 assms(6-11) parse_io_image [OF magic]
    by (intro exI [of _ "(bufferq_new (pf_malloc pf) (io_count r))\<lparr>bq_buf :=
          data @ drop (length data) (pf_malloc pf (io_count r))\<rparr>"] exI [of _ inp1])
      (simp add: process_read_request_def GetBlockPointer_def msg poke_def)
qed

lemma remote_alloc_handled:
  assumes "manager_inv (w_manager w)" and "reply_buffer_ok pf" and "cn_message_buf c = alloc_image rq"
    and "alloc_ocssd_resource (w_manager w) virtual_ocssd_new rq = Some (n, v, rq', m')" and "n \<noteq> 0"
    and "rq_remote rq \<noteq> 0" and "vssd_width v \<le> unat VSSD_BUFFER_SIZE"
    and "reliable (pf_nvm pf)"
    and "\<forall>u\<in>set (mg_ocssds (w_manager w)). pf_dev_open pf (du_name u) = Some (du_geo u)"
    and "cn_blks_array c = []"
  shows "\<exists>vu vus reply c' w'. v_units v = vu # vus \<and>
    process_alloc_request pf c w = Some (Inr (0, c', w')) \<and>
    cn_writeq c' = cn_writeq c @ [reply] \<and> cn_ev_write c' \<and> bq_offset reply = 0 \<and>
    unat (bq_len reply) = vssd_width v \<and> unat (bq_len reply) \<le> length (bq_buf reply) \<and>
    (\<forall>tail. virtual_ocssd_deserialize virtual_ocssd_new (take (unat (bq_len reply)) (bq_buf reply) @ tail) =
      Some (v, unat (bq_len reply))) \<and> (conn_ready c \<longrightarrow> conn_ready c') \<and>
    cn_remote_vssd c' = 1 \<and> cn_dev c' = Some (vu_dev_name vu, vu_geo vu) \<and>
    length (cn_blks_array c') = rounds (ranges (vu_geo vu) (vu_channels vu)) \<and> NULL \<notin> set (cn_blks_array c') \<and>
    w_manager w' = m'"
proof -
  note g = alloc_granted [OF assms(1,4)]
  obtain vu vus where vu: "v_units v = vu # vus" using g(2) [OF assms(5)] by (cases "v_units v") auto
  then have u: "unit_stripes_ok vu" "pf_dev_open pf (vu_dev_name vu) = Some (vu_geo vu)"
    using g(5) assms(9) by (auto simp: unit_of_def)
  let ?c = "c\<lparr>cn_remote_vssd := 1\<rparr>" and ?w = "w\<lparr>w_manager := m'\<rparr>"
  let ?bq = "bufferq_new (pf_malloc pf) VSSD_BUFFER_SIZE"
  obtain d blks sz where i: "initialize_remote_vssd pf ?c ?w v =
      Some (Inr (0, ?c\<lparr>cn_dev := Some (vu_dev_name vu, vu_geo vu), cn_blks_array := cn_blks_array ?c @ blks,
        cn_blk_size := sz, cn_num_blks := Some (word_of_nat (length blks))\<rparr>, ?w\<lparr>w_dev := d\<rparr>))"
    "length blks = rounds (ranges (vu_geo vu) (vu_channels vu))" "NULL \<notin> set blks"
    by (rule initialize_remote_ok [OF assms(8) vu u, of ?c ?w])
  have b: "vssd_width v \<le> length (bq_buf ?bq)" "length (bq_buf ?bq) < 2 ^ 64" "bq_offset ?bq = 0"
    using assms(2,7) by (simp_all add: reply_buffer_ok_def VSSD_BUFFER_SIZE_val)
  let ?c1 = "?c\<lparr>cn_dev := Some (vu_dev_name vu, vu_geo vu), cn_blks_array := cn_blks_array ?c @ blks,
    cn_blk_size := sz, cn_num_blks := Some (word_of_nat (length blks))\<rparr>" and ?w1 = "?w\<lparr>w_dev := d\<rparr>"
  note p = process_alloc_remote [OF assms(3,1,4,5,6) i(1)]
  obtain reply c' w' where s: "process_alloc_request pf c w = Some (Inr (0, c', w'))"
    "cn_writeq c' = cn_writeq c @ [reply]" "cn_ev_write c'" "cn_remote_vssd c' = 1"
    "cn_dev c' = Some (vu_dev_name vu, vu_geo vu)" "cn_blks_array c' = blks" "w_manager w' = m'"
    "unat (bq_len reply) = vssd_width v" "bq_offset reply = 0" "length (bq_buf reply) = length (bq_buf ?bq)"
    "conn_ready c \<longrightarrow> conn_ready c'"
    "\<forall>tail. virtual_ocssd_deserialize virtual_ocssd_new (take (vssd_width v) (bq_buf reply) @ tail) =
       Some (v, vssd_width v)"
    unfolding p by (rule send_vssd_ok [OF g(1) b, of ?c1 ?w1]) (use assms(10) in \<open>simp add: conn_ready_def\<close>)
  show ?thesis using vu s i(2,3) b(1) by auto
qed

lemma erase_handled:
  assumes "conn_ready c" and "length b0 = REQUEST_IO_SIZE" and "io_command r = ERASE_BLOCK_REQUEST"
    and "ocssd_io_request_serialize b0 r = Some (msg, REQUEST_IO_SIZE)" and "arrived inp = msg @ rest"
    and "unat (io_block_index r) < length (cn_blks_array c)"
    and "blk = cn_blks_array c ! unat (io_block_index r)" and "blk \<noteq> NULL"
    and "nvm_vblk_erase (pf_nvm pf) (w_dev w) blk = Some (ret, d)"
  shows "\<exists>inp'. process_incoming_requests pf c w inp =
      (Some (Inr (0, c\<lparr>cn_message_buf := msg\<rparr>, w\<lparr>w_dev := d\<rparr>)), inp') \<and> arrived inp' = rest"
proof -
  have magic: "io_command_magic (io_command r) = Some ERASE_BLOCK_MAGIC" using assms(3) by simp
  have msg: "msg = io_image ERASE_BLOCK_MAGIC r" by (rule io_message [OF assms(2) magic assms(4)])
  obtain inp1 where 1: "process_incoming_requests pf c w inp = dispatch pf (c\<lparr>cn_message_buf := msg\<rparr>) w inp1"
    "arrived inp1 = rest"
    using incoming_dispatch [OF assms(1,5)] by (metis length_io_image msg MESSAGE_BUFFER_SIZE_def)
  have "cn_message_buf (c\<lparr>cn_message_buf := msg\<rparr>) = io_image ERASE_BLOCK_MAGIC r" by (simp add: msg)
  from dispatch_io(3) [OF this refl, of pf w inp1] show ?thesis
    using 1 assms(6-9) parse_io_image [OF magic]
    by (simp add: process_erase_request_def GetBlockPointer_def msg)
qed

text \<open>A request for which the node has nothing left: no reply, and the connection stays open.\<close>

lemma alloc_refused:
  assumes "conn_ready c" and "manager_inv (w_manager w)" and "arrived inp = alloc_image rq @ rest"
    and "alloc_ocssd_resource (w_manager w) virtual_ocssd_new rq = Some (0, v, rq', m')"
  shows "\<exists>inp'. process_incoming_requests pf c w inp =
    (Some (Inr (-1, c\<lparr>cn_message_buf := alloc_image rq\<rparr>, w\<lparr>w_manager := m'\<rparr>)), inp') \<and> arrived inp' = rest"
proof -
  obtain inp1 where 1: "process_incoming_requests pf c w inp =
      dispatch pf (c\<lparr>cn_message_buf := alloc_image rq\<rparr>) w inp1" "arrived inp1 = rest"
    using incoming_dispatch [OF assms(1,3)] by (metis length_alloc_image MESSAGE_BUFFER_SIZE_def)
  have m: "cn_message_buf (c\<lparr>cn_message_buf := alloc_image rq\<rparr>) = alloc_image rq" by simp
  show ?thesis
    using 1 assms(4) parse_alloc_image [of rq]
    by (simp add: dispatch_alloc [OF m] process_alloc_request_def Let_def)
qed

section \<open>Theorems\<close>

text \<open>C22: Reassembly of commands.  However the stream is cut into pieces, a connection that lacks
  \<open>k\<close> bytes of its command takes exactly the next \<open>k\<close> bytes, in order, and leaves the rest in the
  stream; when the stream ends, fails or runs dry before that, the connection is closed and its read
  event removed, while the queued replies stay as they are.\<close>

theorem command_reassembly:
  assumes "cn_message_end c \<le> MESSAGE_BUFFER_SIZE" and "length (cn_message_buf c) = MESSAGE_BUFFER_SIZE"
    and "k = MESSAGE_BUFFER_SIZE - cn_message_end c"
  shows "if k \<le> length (arrived inp)
    then \<exists>inp'. read_command c inp =
        (True, c\<lparr>cn_message_buf := take (cn_message_end c) (cn_message_buf c) @ take k (arrived inp),
                 cn_message_end := MESSAGE_BUFFER_SIZE\<rparr>, inp') \<and> arrived inp' = drop k (arrived inp)
    else \<exists>c' inp'. read_command c inp = (False, c', inp') \<and> \<not> cn_open c' \<and> \<not> cn_ev_read c' \<and>
        cn_writeq c' = cn_writeq c"
proof (cases "k \<le> length (arrived inp)")
  case True
  then show ?thesis using read_command_arrived [OF assms(1,2), of inp] assms(3) by simp
next
  case False
  then obtain m e inp' where "read_command c inp =
      (False, disconnect (c\<lparr>cn_message_buf := m, cn_message_end := e\<rparr>), inp')"
    using read_command_arrived [OF assms(1,2), of inp] assms(3) by auto
  with False show ?thesis by (simp add: disconnect_def)
qed

theorem command_reassembly_witness:
  "\<exists>inp'. read_command (ocssd_conn_new (replicate 24 0) 7 ''10.0.0.2'')
      [Data (replicate 10 1), Data (replicate 20 2)] =
    (True, (ocssd_conn_new (replicate 24 0) 7 ''10.0.0.2'')\<lparr>
        cn_message_buf := replicate 10 1 @ replicate 14 2, cn_message_end := MESSAGE_BUFFER_SIZE\<rparr>, inp') \<and>
    arrived inp' = replicate 6 2"
proof -
  have a: "arrived [Data (replicate 10 1), Data (replicate 20 2)] = replicate 10 1 @ replicate 20 2"
    by (simp add: numeral_eq_Suc)
  show ?thesis
    using command_reassembly [of "ocssd_conn_new (replicate 24 0) 7 ''10.0.0.2''" 24
        "[Data (replicate 10 1), Data (replicate 20 2)]"]
    unfolding a by (simp add: ocssd_conn_new_def MESSAGE_BUFFER_SIZE_def)
qed

text \<open>The allocation exchange, end to end.  A client's allocation request that arrives in any
  pieces at an idle connection, and for which the node has channels, is answered by one queued
  reply, whenever its description fits the fixed reply buffer; from the reply's bytes the client
  reads back exactly the virtual SSD the manager allocated, the manager keeps its invariant, and
  the statistics of every device after the allocation are published.\<close>

theorem local_alloc_exchange:
  assumes "conn_ready c" and "manager_inv (w_manager w)" and "reply_buffer_ok pf"
    and "length b0 = REQUEST_ALLOC_SIZE" and "ocssd_alloc_request_serialize b0 rq = Some (msg, REQUEST_ALLOC_SIZE)"
    and "arrived inp = msg @ rest" and "rq_remote rq = 0"
    and "alloc_ocssd_resource (w_manager w) virtual_ocssd_new rq = Some (n, v, rq', m')" and "n \<noteq> 0"
    and "vssd_width v \<le> unat VSSD_BUFFER_SIZE"
  shows "\<exists>reply c' w' inp'. process_incoming_requests pf c w inp = (Some (Inr (0, c', w')), inp') \<and>
    arrived inp' = rest \<and> conn_ready c' \<and>
    cn_writeq c' = cn_writeq c @ [reply] \<and> cn_ev_write c' \<and> bq_offset reply = 0 \<and>
    virtual_ocssd_deserialize virtual_ocssd_new (take (unat (bq_len reply)) (bq_buf reply) @ tail) =
      Some (v, unat (bq_len reply)) \<and>
    w_manager w' = m' \<and> manager_inv m' \<and>
    w_published w' = w_published w @ map (\<lambda>u. (du_desc u, snd (get_ocssd_stats u))) (mg_ocssds m')"
  using local_alloc_reply [OF assms] by blast

theorem local_alloc_exchange_witness:
  "\<exists>reply c' w' inp'. process_incoming_requests sample_platform sample_conn (sample_world sample_manager)
      [Data (alloc_image (ocssd_alloc_request_new 2 6 1 0 0))] = (Some (Inr (0, c', w')), inp') \<and>
    arrived inp' = [] \<and> cn_writeq c' = [reply] \<and> cn_ev_write c' \<and> manager_inv (w_manager w')"
proof -
  obtain n v rq' m' where f: "conn_ready sample_conn" "manager_inv (w_manager (sample_world sample_manager))"
    "reply_buffer_ok sample_platform" "length (replicate 24 (0 :: byte)) = REQUEST_ALLOC_SIZE"
    "ocssd_alloc_request_serialize (replicate 24 0) (ocssd_alloc_request_new 2 6 1 0 0) =
       Some (alloc_image (ocssd_alloc_request_new 2 6 1 0 0), REQUEST_ALLOC_SIZE)"
    "arrived [Data (alloc_image (ocssd_alloc_request_new 2 6 1 0 0))] = alloc_image (ocssd_alloc_request_new 2 6 1 0 0) @ []"
    "rq_remote (ocssd_alloc_request_new 2 6 1 0 0) = 0"
    "alloc_ocssd_resource (w_manager (sample_world sample_manager)) virtual_ocssd_new (ocssd_alloc_request_new 2 6 1 0 0)
       = Some (n, v, rq', m')" "n \<noteq> 0" "vssd_width v \<le> unat VSSD_BUFFER_SIZE"
    by (rule sample_exchange)
  from local_alloc_exchange [OF f] show ?thesis by (fastforce simp: sample_conn_def ocssd_conn_new_def)
qed

text \<open>C39: The reply buffer has a fixed size that is never compared with the size of the description:
  when a granted description needs more than 1024 bytes, the handler writes behind its buffer.\<close>

theorem alloc_reply_overflow:
  assumes "manager_inv (w_manager w)" and "reply_buffer_ok pf" and "cn_message_buf c = alloc_image rq"
    and "alloc_ocssd_resource (w_manager w) virtual_ocssd_new rq = Some (n, v, rq', m')" and "n \<noteq> 0"
    and "rq_remote rq = 0" and "unat VSSD_BUFFER_SIZE < vssd_width v"
  shows "process_alloc_request pf c w = None"
proof -
  have "send_vssd c (w\<lparr>w_manager := m'\<rparr>) v (bufferq_new (pf_malloc pf) VSSD_BUFFER_SIZE) = None"
    using assms(2,7) alloc_granted(1) [OF assms(1,4)]
    by (intro send_vssd_overflow) (simp_all add: reply_buffer_ok_def)
  then show ?thesis using process_alloc_local [OF assms(3,1,4,5,6), of pf] by simp
qed

theorem alloc_reply_overflow_witness:
  "process_alloc_request sample_platform
     (sample_conn\<lparr>cn_message_buf := alloc_image (ocssd_alloc_request_new 4 1024 1 0 0)\<rparr>)
     (sample_world wide_manager) = None"
proof -
  let ?rq = "ocssd_alloc_request_new 4 1024 1 0 0"
  obtain n v rq' m' where r: "alloc_ocssd_resource wide_manager virtual_ocssd_new ?rq = Some (n, v, rq', m')"
    using alloc_ocssd_resource_grant [OF wide_manager_inv] by metis
  have "map_option (\<lambda>(n, v, _). (n, vssd_width v)) (alloc_ocssd_resource wide_manager virtual_ocssd_new ?rq) =
      Some (4, 1132)" by code_simp
  then have n: "n \<noteq> 0" "unat VSSD_BUFFER_SIZE < vssd_width v" using r by (simp_all add: VSSD_BUFFER_SIZE_val)
  have m: "manager_inv (w_manager (sample_world wide_manager))"
    "cn_message_buf (sample_conn\<lparr>cn_message_buf := alloc_image ?rq\<rparr>) = alloc_image ?rq"
    "alloc_ocssd_resource (w_manager (sample_world wide_manager)) virtual_ocssd_new ?rq = Some (n, v, rq', m')"
    using wide_manager_inv r by (simp_all add: sample_world_def)
  have "rq_remote ?rq = 0" by (simp add: ocssd_alloc_request_new_def)
  then show ?thesis by (rule alloc_reply_overflow [OF m(1) sample_platform_ok(1) m(2,3) n(1) _ n(2)])
qed

text \<open>A request for remote access in addition opens the first unit's device and builds its
  virtual blocks, one per stripe, before it replies: afterwards every block index below the number
  of stripes names a non-null block.\<close>

theorem remote_alloc_exchange:
  assumes "manager_inv (w_manager w)" and "reply_buffer_ok pf" and "cn_message_buf c = alloc_image rq"
    and "alloc_ocssd_resource (w_manager w) virtual_ocssd_new rq = Some (n, v, rq', m')" and "n \<noteq> 0"
    and "rq_remote rq \<noteq> 0" and "vssd_width v \<le> unat VSSD_BUFFER_SIZE"
    and "reliable (pf_nvm pf)"
    and "\<forall>u\<in>set (mg_ocssds (w_manager w)). pf_dev_open pf (du_name u) = Some (du_geo u)"
    and "cn_blks_array c = []"
  shows "\<exists>vu vus reply c' w'. v_units v = vu # vus \<and>
    process_alloc_request pf c w = Some (Inr (0, c', w')) \<and>
    cn_writeq c' = cn_writeq c @ [reply] \<and> cn_ev_write c' \<and>
    virtual_ocssd_deserialize virtual_ocssd_new (take (unat (bq_len reply)) (bq_buf reply)) =
      Some (v, unat (bq_len reply)) \<and>
    cn_remote_vssd c' = 1 \<and> cn_dev c' = Some (vu_dev_name vu, vu_geo vu) \<and>
    length (cn_blks_array c') = rounds (ranges (vu_geo vu) (vu_channels vu)) \<and> NULL \<notin> set (cn_blks_array c') \<and>
    w_manager w' = m'"
proof -
  from remote_alloc_handled [OF assms] obtain vu vus reply c' w' where "v_units v = vu # vus"
    "process_alloc_request pf c w = Some (Inr (0, c', w'))" "cn_writeq c' = cn_writeq c @ [reply]" "cn_ev_write c'"
    "\<forall>tail. virtual_ocssd_deserialize virtual_ocssd_new (take (unat (bq_len reply)) (bq_buf reply) @ tail) =
      Some (v, unat (bq_len reply))" "cn_remote_vssd c' = 1" "cn_dev c' = Some (vu_dev_name vu, vu_geo vu)"
    "length (cn_blks_array c') = rounds (ranges (vu_geo vu) (vu_channels vu))" "NULL \<notin> set (cn_blks_array c')"
    "w_manager w' = m'" by (elim exE conjE) (rule that)
  then show ?thesis by (metis append_Nil2)
qed

theorem remote_alloc_exchange_witness:
  "\<exists>c' w'. process_alloc_request sample_platform
      (sample_conn\<lparr>cn_message_buf := alloc_image (ocssd_alloc_request_new 2 6 1 0 1)\<rparr>)
      (sample_world sample_manager) = Some (Inr (0, c', w')) \<and> cn_remote_vssd c' = 1 \<and> NULL \<notin> set (cn_blks_array c')"
proof -
  let ?rq = "ocssd_alloc_request_new 2 6 1 0 1" and ?w = "sample_world sample_manager"
  let ?c = "sample_conn\<lparr>cn_message_buf := alloc_image ?rq\<rparr>"
  obtain n v rq' m' where r: "alloc_ocssd_resource sample_manager virtual_ocssd_new ?rq = Some (n, v, rq', m')"
    using alloc_ocssd_resource_grant [OF sample_manager_inv] by metis
  have "map_option (\<lambda>(n, v, _). (n, vssd_width v)) (alloc_ocssd_resource sample_manager virtual_ocssd_new ?rq) =
      Some (2, 188)" by code_simp
  then have n: "n \<noteq> 0" "vssd_width v \<le> unat VSSD_BUFFER_SIZE" using r by (simp_all add: VSSD_BUFFER_SIZE_val)
  have m: "manager_inv (w_manager ?w)" "cn_message_buf ?c = alloc_image ?rq"
    "alloc_ocssd_resource (w_manager ?w) virtual_ocssd_new ?rq = Some (n, v, rq', m')" "cn_blks_array ?c = []"
    using sample_manager_inv r by (simp_all add: sample_world_def sample_conn_def ocssd_conn_new_def)
  have rem: "rq_remote ?rq \<noteq> 0" by (simp add: ocssd_alloc_request_new_def)
  have lib: "reliable (pf_nvm sample_platform)" by (simp add: sample_platform_def counting_nvm_reliable)
  have "list_all (\<lambda>u. du_geo u = sample_geo) (mg_ocssds sample_manager)" by code_simp
  then have dev: "\<forall>u\<in>set (mg_ocssds (w_manager ?w)). pf_dev_open sample_platform (du_name u) = Some (du_geo u)"
    by (simp add: sample_world_def sample_platform_def list_all_iff)
  from remote_alloc_exchange [OF m(1) sample_platform_ok(1) m(2,3) n(1) rem n(2) lib dev m(4)]
  show ?thesis by auto
qed

text \<open>C23: A block write, end to end.  A write request followed by its data, arriving in any pieces,
  hands exactly that data to \<^verbatim>\<open>nvm_vblk_write\<close> for the block the index names, and leaves
  what follows in the stream.\<close>

theorem write_exchange:
  assumes "conn_ready c" and "length b0 = REQUEST_IO_SIZE" and "io_command r = WRITE_BLOCK_REQUEST"
    and "ocssd_io_request_serialize b0 r = Some (msg, REQUEST_IO_SIZE)"
    and "arrived inp = msg @ data @ rest" and "length data = unat (io_count r)"
    and "unat (io_block_index r) < length (cn_blks_array c)"
    and "blk = cn_blks_array c ! unat (io_block_index r)" and "blk \<noteq> NULL"
    and "length (pf_malloc pf (io_count r)) = unat (io_count r)"
    and "nvm_vblk_write (pf_nvm pf) (w_dev w) blk data = Some (ret, d)"
  shows "\<exists>inp'. process_incoming_requests pf c w inp =
      (Some (Inr (0, c\<lparr>cn_message_buf := msg\<rparr>, w\<lparr>w_dev := d\<rparr>)), inp') \<and> arrived inp' = rest"
  using write_handled [OF assms] .

theorem write_exchange_witness:
  "\<exists>inp'. process_incoming_requests sample_platform remote_conn (sample_world sample_manager)
      [Data (io_image WRITE_BLOCK_MAGIC (sample_io WRITE_BLOCK_REQUEST 1)), Data [1, 2], Data [3, 4, 5, 6]] =
    (Some (Inr (0, remote_conn\<lparr>cn_message_buf := io_image WRITE_BLOCK_MAGIC (sample_io WRITE_BLOCK_REQUEST 1)\<rparr>,
       sample_world sample_manager)), inp') \<and> arrived inp' = [6]"
proof -
  let ?r = "sample_io WRITE_BLOCK_REQUEST 1"
  let ?inp = "[Data (io_image WRITE_BLOCK_MAGIC ?r), Data [1, 2], Data [3, 4, 5, 6]]"
  note s = sample_io_message [of WRITE_BLOCK_REQUEST WRITE_BLOCK_MAGIC 1]
  have w: "nvm_vblk_write (pf_nvm sample_platform) (w_dev (sample_world sample_manager)) 12 [1, 2, 3, 4, 5] = Some (0, 0)"
    by (simp add: sample_platform_def counting_nvm_def sample_world_def)
  have len: "length (replicate 24 (0 :: byte)) = REQUEST_IO_SIZE" by (simp add: REQUEST_IO_SIZE_def)
  have a: "arrived ?inp = io_image WRITE_BLOCK_MAGIC ?r @ [1, 2, 3, 4, 5] @ [6]" using s(2) by simp
  have cmd: "io_command ?r = WRITE_BLOCK_REQUEST" by (simp add: sample_io_def)
  have "\<exists>inp'. process_incoming_requests sample_platform remote_conn (sample_world sample_manager) ?inp =
      (Some (Inr (0, remote_conn\<lparr>cn_message_buf := io_image WRITE_BLOCK_MAGIC ?r\<rparr>,
        (sample_world sample_manager)\<lparr>w_dev := 0\<rparr>)), inp') \<and> arrived inp' = [6]"
    by (rule write_exchange [OF remote_conn_ready len cmd _ a _ _ _ _ _ w])
      (simp_all add: s(1), simp_all add: sample_io_def remote_conn_def sample_platform_def NULL_def)
  then show ?thesis by (simp add: sample_world_def)
qed

text \<open>C24: A block read queues a reply of exactly the requested length; it starts with the bytes that
  \<^verbatim>\<open>nvm_vblk_pread\<close> delivered.  A failed read (no bytes delivered) is not reported: the reply
  is then whatever the heap held.\<close>

theorem read_exchange:
  assumes "conn_ready c" and "length b0 = REQUEST_IO_SIZE" and "io_command r = READ_BLOCK_REQUEST"
    and "ocssd_io_request_serialize b0 r = Some (msg, REQUEST_IO_SIZE)" and "arrived inp = msg @ rest"
    and "unat (io_block_index r) < length (cn_blks_array c)"
    and "blk = cn_blks_array c ! unat (io_block_index r)" and "blk \<noteq> NULL"
    and "length (pf_malloc pf (io_count r)) = unat (io_count r)"
    and "nvm_vblk_pread (pf_nvm pf) (w_dev w) blk (io_count r) (io_offset r) = Some (ret, data, d)"
    and "length data \<le> unat (io_count r)"
  shows "\<exists>reply inp'. process_incoming_requests pf c w inp =
      (Some (Inr (0, c\<lparr>cn_message_buf := msg, cn_writeq := cn_writeq c @ [reply], cn_ev_write := True\<rparr>,
         w\<lparr>w_dev := d\<rparr>)), inp') \<and> arrived inp' = rest \<and>
    bq_len reply = io_count r \<and> bq_offset reply = 0 \<and>
    bq_buf reply = data @ drop (length data) (pf_malloc pf (io_count r))"
  using read_handled [OF assms] .

theorem read_exchange_witness:
  "\<exists>reply c' w' inp'. process_incoming_requests sample_platform remote_conn (sample_world sample_manager)
      [Data (io_image READ_BLOCK_MAGIC (sample_io READ_BLOCK_REQUEST 2))] = (Some (Inr (0, c', w')), inp') \<and>
    cn_writeq c' = [reply] \<and> bq_buf reply = [0, 0, 0, 0, 0]"
proof -
  let ?r = "sample_io READ_BLOCK_REQUEST 2"
  note s = sample_io_message [of READ_BLOCK_REQUEST READ_BLOCK_MAGIC 2]
  have p: "nvm_vblk_pread (pf_nvm sample_platform) (w_dev (sample_world sample_manager)) 13 (io_count ?r) (io_offset ?r) =
      Some (0, [], 0)"
    by (simp add: sample_platform_def counting_nvm_def sample_world_def)
  have len: "length (replicate 24 (0 :: byte)) = REQUEST_IO_SIZE" by (simp add: REQUEST_IO_SIZE_def)
  have a: "arrived [Data (io_image READ_BLOCK_MAGIC ?r)] = io_image READ_BLOCK_MAGIC ?r @ []" using s(2) by simp
  have cmd: "io_command ?r = READ_BLOCK_REQUEST" by (simp add: sample_io_def)
  have "\<exists>reply inp'. process_incoming_requests sample_platform remote_conn (sample_world sample_manager)
      [Data (io_image READ_BLOCK_MAGIC ?r)] =
      (Some (Inr (0, remote_conn\<lparr>cn_message_buf := io_image READ_BLOCK_MAGIC ?r,
          cn_writeq := cn_writeq remote_conn @ [reply], cn_ev_write := True\<rparr>,
         (sample_world sample_manager)\<lparr>w_dev := 0\<rparr>)), inp') \<and> arrived inp' = [] \<and>
      bq_len reply = io_count ?r \<and> bq_offset reply = 0 \<and>
      bq_buf reply = [] @ drop (length ([] :: byte list)) (pf_malloc sample_platform (io_count ?r))"
    by (rule read_exchange [OF remote_conn_ready len cmd _ a _ _ _ _ p])
      (simp_all add: s(1), simp_all add: sample_io_def remote_conn_def sample_platform_def NULL_def)
  moreover have "pf_malloc sample_platform (io_count ?r) = replicate 5 0" "cn_writeq remote_conn = []"
    by (simp_all add: sample_platform_def sample_io_def remote_conn_def sample_conn_def ocssd_conn_new_def)
  moreover have "replicate 5 (0 :: byte) = [0, 0, 0, 0, 0]" by (simp add: numeral_eq_Suc)
  ultimately show ?thesis by auto
qed

text \<open>C40: The block index a client sends is not checked: a read, write or erase request whose index is
  not below the number of blocks of the connection (any index, before remote access was set up)
  reads outside \<^verbatim>\<open>blks_array_\<close>.\<close>

theorem block_index_unchecked:
  assumes "conn_ready c" and "length b0 = REQUEST_IO_SIZE" and "io_command_magic (io_command r) = Some magic"
    and "ocssd_io_request_serialize b0 r = Some (msg, REQUEST_IO_SIZE)" and "arrived inp = msg @ rest"
    and "length (cn_blks_array c) \<le> unat (io_block_index r)"
  shows "fst (process_incoming_requests pf c w inp) = None"
proof -
  have msg: "msg = io_image magic r" by (rule io_message [OF assms(2,3,4)])
  obtain inp1 where 1: "process_incoming_requests pf c w inp = dispatch pf (c\<lparr>cn_message_buf := msg\<rparr>) w inp1"
    using incoming_dispatch [OF assms(1,5)] by (metis length_io_image msg MESSAGE_BUFFER_SIZE_def)
  have "magic = READ_BLOCK_MAGIC \<or> magic = WRITE_BLOCK_MAGIC \<or> magic = ERASE_BLOCK_MAGIC"
    using assms(3) by (cases "io_command r") auto
  moreover have "cn_message_buf (c\<lparr>cn_message_buf := msg\<rparr>) = io_image magic r" by (simp add: msg)
  note d = dispatch_io [OF this, of pf w inp1]
  ultimately show ?thesis
    using 1 d assms(6) parse_io_image [OF assms(3)]
    by (elim disjE) (simp_all add: process_read_request_def process_write_request_def process_erase_request_def
        GetBlockPointer_def msg)
qed

theorem block_index_unchecked_witness:
  "fst (process_incoming_requests sample_platform sample_conn (sample_world sample_manager)
     [Data (io_image ERASE_BLOCK_MAGIC (sample_io ERASE_BLOCK_REQUEST 0))]) = None"
proof -
  let ?r = "sample_io ERASE_BLOCK_REQUEST 0"
  note s = sample_io_message [of ERASE_BLOCK_REQUEST ERASE_BLOCK_MAGIC 0]
  have len: "length (replicate 24 (0 :: byte)) = REQUEST_IO_SIZE" by (simp add: REQUEST_IO_SIZE_def)
  have a: "arrived [Data (io_image ERASE_BLOCK_MAGIC ?r)] = io_image ERASE_BLOCK_MAGIC ?r @ []" using s(2) by simp
  have cmd: "io_command_magic (io_command ?r) = Some ERASE_BLOCK_MAGIC" by (simp add: sample_io_def)
  show ?thesis
    by (rule block_index_unchecked [OF sample_platform_ok(2) len cmd _ a])
      (simp_all add: s(1) sample_conn_def ocssd_conn_new_def)
qed

end
