(* ===== verification/Server.thy ===== *)
theory Server
  imports Conn
begin

text \<open>
  The event loop of \<^verbatim>\<open>src/ocssd_libevent_server.cc\<close>: start-up, the callbacks
  \<^verbatim>\<open>on_accept\<close>, \<^verbatim>\<open>on_read\<close> and \<^verbatim>\<open>on_write\<close>, and the server as a step
  relation over the events libevent may deliver.  The locale \<open>reply_queue\<close> states what the callbacks
  rely on in a connection's queue of replies (bytes leave in the order in which they were queued); the
  model's queue interprets it.  The invariants show that the write callback never meets an empty
  queue and that every client receives exactly the bytes queued for it, in order.
\<close>

section \<open>Start-up\<close>

definition nvme_path :: "nat \<Rightarrow> string" where
  "nvme_path i = ''/dev/nvme'' @ [char_of (48 + i)] @ ''n1''"

text \<open>The loop \<^verbatim>\<open>for (i = 1; i < 2; i++)\<close>; \<open>file_exists\<close> is
  \<^verbatim>\<open>boost::filesystem::exists\<close>.\<close>

fun add_devices ::
  "(string \<Rightarrow> bool) \<Rightarrow> (string \<Rightarrow> nvm_geo option) \<Rightarrow> nat list \<Rightarrow> ocssd_manager \<Rightarrow> cxx_exception + ocssd_manager" where
  "add_devices file_exists dev_open [] m = Inr m"
| "add_devices file_exists dev_open (i # is) m =
     (if \<not> file_exists (nvme_path i) then add_devices file_exists dev_open is m
      else (case add_ocssd dev_open m (nvme_path i) of
              (Inl e, _) \<Rightarrow> Inl e
            | (Inr _, m') \<Rightarrow> add_devices file_exists dev_open is m'))"

definition initialize_ocssd_manager ::
  "(string \<Rightarrow> bool) \<Rightarrow> (string \<Rightarrow> nvm_geo option) \<Rightarrow> ifaddr list \<Rightarrow> cxx_exception + ocssd_manager \<times> entity list" where
  "initialize_ocssd_manager file_exists dev_open ifs =
     (case add_devices file_exists dev_open [1..<2] (ocssd_manager_new ifs) of
        Inl e \<Rightarrow> Inl e
      | Inr m \<Rightarrow> Inr (m, snd (publish_resource m [])))"

section \<open>Callbacks\<close>

text \<open>What \<^verbatim>\<open>write(2)\<close> may answer: a number of bytes taken, \<^verbatim>\<open>EINTR\<close> or
  \<^verbatim>\<open>EAGAIN\<close>, or another error.\<close>

datatype write_result = Wrote nat | Again | Broken

text \<open>The write event is not persistent: it is no longer pending when the callback runs.  The result is
  \<^term>\<open>None\<close> for \<^verbatim>\<open>front()\<close> of an empty queue, \<open>Inl\<close> for \<^verbatim>\<open>err(1, ...)\<close>,
  which ends the process, otherwise the connection and the bytes that went out.\<close>

definition on_write :: "write_result \<Rightarrow> ocssd_conn \<Rightarrow> (int + ocssd_conn \<times> byte list) option" where
  "on_write r client =
     (case cn_writeq client of
        [] \<Rightarrow> None
      | bq # rest \<Rightarrow>
          (let client = client\<lparr>cn_ev_write := False\<rparr> in
           case r of
             Again \<Rightarrow> Some (Inr (client\<lparr>cn_ev_write := True\<rparr>, []))
           | Broken \<Rightarrow> Some (Inl 1)
           | Wrote n \<Rightarrow> do {
               out \<leftarrow> peek (bq_buf bq) (unat (bq_offset bq)) n;
               if bq_offset bq + word_of_nat n < bq_len bq
               then Some (Inr (client\<lparr>cn_writeq := bq\<lparr>bq_offset := bq_offset bq + word_of_nat n\<rparr> # rest,
                                     cn_ev_write := True\<rparr>, out))
               else Some (Inr (client\<lparr>cn_writeq := rest, cn_ev_write := (length rest > 0)\<rparr>, out)) }))"

definition on_read ::
  "('a, 'd) platform \<Rightarrow> ocssd_conn \<Rightarrow> 'd world \<Rightarrow> chunk list \<Rightarrow> (cxx_exception + ocssd_conn \<times> 'd world) option" where
  "on_read pf client w inp =
     (case fst (process_incoming_requests pf client w inp) of
        None \<Rightarrow> None
      | Some (Inl e) \<Rightarrow> Some (Inl e)
      | Some (Inr (_, client', w')) \<Rightarrow> Some (Inr (client', w')))"

text \<open>\<open>accepted\<close> is \<^term>\<open>None\<close> when \<^verbatim>\<open>accept(2)\<close> fails.\<close>

definition on_accept :: "(int \<times> string) option \<Rightarrow> byte list \<Rightarrow> ocssd_conn list \<Rightarrow> ocssd_conn list" where
  "on_accept accepted junk clients =
     (case accepted of
        None \<Rightarrow> clients
      | Some (client_fd, addr) \<Rightarrow> clients @ [(ocssd_conn_new junk client_fd addr)\<lparr>cn_ev_read := True\<rparr>])"

section \<open>The queue of replies\<close>

text \<open>A reply queue: \<open>push\<close> appends a reply, \<open>send\<close> lets the head of the queue go out.\<close>

locale reply_queue =
  fixes pending :: "'q \<Rightarrow> byte list"
    and push :: "'q \<Rightarrow> 'r \<Rightarrow> 'q"
    and payload :: "'r \<Rightarrow> byte list"
    and send :: "'w \<Rightarrow> 'q \<Rightarrow> ('q \<times> byte list) option"
    and ok :: "'q \<Rightarrow> bool"
    and reply_ok :: "'r \<Rightarrow> bool"
  assumes push_ok: "ok q \<Longrightarrow> reply_ok r \<Longrightarrow> ok (push q r)"
    and push_pending: "ok q \<Longrightarrow> reply_ok r \<Longrightarrow> pending (push q r) = pending q @ payload r"
    and send_ok: "ok q \<Longrightarrow> send w q = Some (q', out) \<Longrightarrow> ok q'"
    and send_pending: "ok q \<Longrightarrow> send w q = Some (q', out) \<Longrightarrow> out @ pending q' = pending q"
begin

text \<open>Any interleaving of the two: \<open>Inl r\<close> queues a reply, \<open>Inr w\<close> sends.\<close>

fun exchange :: "('r + 'w) list \<Rightarrow> 'q \<Rightarrow> ('q \<times> byte list) option" where
  "exchange [] q = Some (q, [])"
| "exchange (Inl r # as) q = exchange as (push q r)"
| "exchange (Inr w # as) q = do {
     (q, out) \<leftarrow> send w q;
     (q, more) \<leftarrow> exchange as q;
     Some (q, out @ more) }"

fun queued :: "('r + 'w) list \<Rightarrow> byte list" where
  "queued [] = []"
| "queued (Inl r # as) = payload r @ queued as"
| "queued (Inr w # as) = queued as"

lemma exchange_fifo:
  "ok q \<Longrightarrow> \<forall>r. Inl r \<in> set as \<longrightarrow> reply_ok r \<Longrightarrow> exchange as q = Some (q', out) \<Longrightarrow>
   out @ pending q' = pending q @ queued as"
proof (induction as q arbitrary: out rule: exchange.induct)
  case (1 q)
  then show ?case by simp
next
  case (2 r as q)
  then show ?case using push_ok [of q r] push_pending [of q r] by simp
next
  case (3 w as q)
  obtain q1 o1 o2 where s: "send w q = Some (q1, o1)" "exchange as q1 = Some (q', o2)" "out = o1 @ o2"
    using "3.prems"(3) by (auto simp: Option.bind_eq_Some_conv)
  have "o2 @ pending q' = pending q1 @ queued as"
    using "3.IH" [OF s(1) refl send_ok [OF "3.prems"(1) s(1)] _ s(2)] "3.prems"(2) by simp
  then show ?case using send_pending [OF "3.prems"(1) s(1)] s(3) by (metis append.assoc queued.simps(3))
qed

end

definition bq_ok :: "bufferq \<Rightarrow> bool" where
  "bq_ok bq \<longleftrightarrow> unat (bq_offset bq) \<le> unat (bq_len bq) \<and> unat (bq_len bq) \<le> length (bq_buf bq)"

text \<open>The bytes of a reply that are still to be sent.\<close>

definition bq_rest :: "bufferq \<Rightarrow> byte list" where
  "bq_rest bq = drop (unat (bq_offset bq)) (take (unat (bq_len bq)) (bq_buf bq))"

definition pending :: "ocssd_conn \<Rightarrow> byte list" where
  "pending c = concat (map bq_rest (cn_writeq c))"

text \<open>What every connection keeps: the write event is pending exactly when there is something to
  write, the offsets stay inside the buffers, and the message buffer keeps its size.\<close>

definition conn_inv :: "ocssd_conn \<Rightarrow> bool" where
  "conn_inv c \<longleftrightarrow> (cn_ev_write c \<longleftrightarrow> cn_writeq c \<noteq> []) \<and> list_all bq_ok (cn_writeq c) \<and>
     length (cn_message_buf c) = MESSAGE_BUFFER_SIZE \<and> cn_message_end c < MESSAGE_BUFFER_SIZE"

definition queue_reply :: "ocssd_conn \<Rightarrow> bufferq \<Rightarrow> ocssd_conn" where
  "queue_reply c bq = c\<lparr>cn_writeq := cn_writeq c @ [bq], cn_ev_write := True\<rparr>"

text \<open>\<^verbatim>\<open>write(2)\<close> takes at most the bytes it was given.\<close>

definition write_ok :: "write_result \<Rightarrow> ocssd_conn \<Rightarrow> bool" where
  "write_ok r c \<longleftrightarrow> (case (r, cn_writeq c) of
     (Wrote n, bq # _) \<Rightarrow> n \<le> unat (bq_len bq) - unat (bq_offset bq) | _ \<Rightarrow> True)"

definition send_some :: "write_result \<Rightarrow> ocssd_conn \<Rightarrow> (ocssd_conn \<times> byte list) option" where
  "send_some r c = (if write_ok r c then case on_write r c of Some (Inr x) \<Rightarrow> Some x | _ \<Rightarrow> None else None)"

lemma on_write_Wrote:
  assumes "bq_ok bq" "n \<le> unat (bq_len bq) - unat (bq_offset bq)" "cn_writeq c = bq # rest"
  shows "on_write (Wrote n) c = Some (Inr
     (if unat (bq_offset bq) + n < unat (bq_len bq)
      then c\<lparr>cn_writeq := bq\<lparr>bq_offset := bq_offset bq + word_of_nat n\<rparr> # rest, cn_ev_write := True\<rparr>
      else c\<lparr>cn_writeq := rest, cn_ev_write := (rest \<noteq> [])\<rparr>,
      take n (drop (unat (bq_offset bq)) (bq_buf bq))))"
    "unat (bq_offset bq + word_of_nat n) = unat (bq_offset bq) + n"
proof -
  have "n < 2 ^ 64" using assms(2) unat_bound [of "bq_len bq"] by simp
  then have "unat (word_of_nat n :: u64) = n" by (rule unat_of_nat_less)
  moreover have "unat (bq_offset bq) + n < 2 ^ 64"
    using assms(1,2) unat_bound [of "bq_len bq"] unfolding bq_ok_def by simp arith
  ultimately show u: "unat (bq_offset bq + word_of_nat n) = unat (bq_offset bq) + n"
    by (simp add: unat_word_ariths)
  have "peek (bq_buf bq) (unat (bq_offset bq)) n = Some (take n (drop (unat (bq_offset bq)) (bq_buf bq)))"
    using assms(1,2) unfolding bq_ok_def peek_def by auto
  then show "on_write (Wrote n) c = Some (Inr
     (if unat (bq_offset bq) + n < unat (bq_len bq)
      then c\<lparr>cn_writeq := bq\<lparr>bq_offset := bq_offset bq + word_of_nat n\<rparr> # rest, cn_ev_write := True\<rparr>
      else c\<lparr>cn_writeq := rest, cn_ev_write := (rest \<noteq> [])\<rparr>,
      take n (drop (unat (bq_offset bq)) (bq_buf bq))))"
    using assms(3) u by (simp add: on_write_def word_less_nat_alt)
qed

lemma bq_rest_split:
  assumes "bq_ok bq" "n \<le> unat (bq_len bq) - unat (bq_offset bq)"
  shows "take n (drop (unat (bq_offset bq)) (bq_buf bq)) @
    drop (unat (bq_offset bq) + n) (take (unat (bq_len bq)) (bq_buf bq)) = bq_rest bq"
proof -
  let ?d = "drop (unat (bq_offset bq)) (take (unat (bq_len bq)) (bq_buf bq))"
  have "take n (drop (unat (bq_offset bq)) (bq_buf bq)) = take n ?d"
    using assms by (simp add: drop_take min_def)
  moreover have "drop (unat (bq_offset bq) + n) (take (unat (bq_len bq)) (bq_buf bq)) = drop n ?d"
    by (simp only: drop_drop add.commute)
  ultimately show ?thesis unfolding bq_rest_def by (simp only: append_take_drop_id)
qed

lemma on_write_step:
  assumes "conn_inv c" "cn_writeq c \<noteq> []" "write_ok r c"
  shows "\<exists>res. on_write r c = Some res \<and> (case res of Inl code \<Rightarrow> r = Broken \<and> code = 1
     | Inr (c', out) \<Rightarrow> r \<noteq> Broken \<and> conn_inv c' \<and> out @ pending c' = pending c \<and>
         cn_open c' = cn_open c \<and> cn_ev_read c' = cn_ev_read c)"
proof (cases r)
  case (Wrote n)
  obtain bq rest where q: "cn_writeq c = bq # rest" using assms(2) by (cases "cn_writeq c") auto
  have bq: "bq_ok bq" "n \<le> unat (bq_len bq) - unat (bq_offset bq)" "list_all bq_ok rest"
    using assms q Wrote by (auto simp: conn_inv_def write_ok_def)
  note w = on_write_Wrote [OF bq(1,2) q]
  note split = bq_rest_split [OF bq(1,2)]
  show ?thesis
  proof (cases "unat (bq_offset bq) + n < unat (bq_len bq)")
    case True
    then show ?thesis using assms(1) bq q w split
      by (auto simp: Wrote conn_inv_def pending_def bq_ok_def bq_rest_def)
  next
    case False
    then have "drop (unat (bq_offset bq) + n) (take (unat (bq_len bq)) (bq_buf bq)) = []" by simp
    then show ?thesis using False assms(1) bq q w split
      by (auto simp: Wrote conn_inv_def pending_def)
  qed
qed (use assms in \<open>auto simp: on_write_def conn_inv_def pending_def split: list.splits\<close>)

interpretation conn_queue: reply_queue pending queue_reply bq_rest send_some conn_inv bq_ok
proof unfold_locales
  fix c bq assume "conn_inv c" "bq_ok bq"
  then show "conn_inv (queue_reply c bq)" "pending (queue_reply c bq) = pending c @ bq_rest bq"
    by (auto simp: conn_inv_def queue_reply_def pending_def)
next
  fix c r c' out assume c: "conn_inv c" "send_some r c = Some (c', out)"
  then have "write_ok r c" "on_write r c = Some (Inr (c', out))"
    by (auto simp: send_some_def split: if_splits option.splits sum.splits)
  moreover from this have "cn_writeq c \<noteq> []" by (auto simp: on_write_def)
  ultimately show "conn_inv c'" "out @ pending c' = pending c" using on_write_step [OF c(1)] by fastforce+
qed

section \<open>What a handler keeps\<close>

definition malloc_ok :: "('a, 'd) platform \<Rightarrow> bool" where
  "malloc_ok pf \<longleftrightarrow> (\<forall>n. length (pf_malloc pf n) = unat n)"

definition kept :: "ocssd_conn \<Rightarrow> ocssd_conn \<Rightarrow> bool" where
  "kept c c' \<longleftrightarrow> cn_message_buf c' = cn_message_buf c \<and> cn_message_end c' = cn_message_end c \<and>
     (\<exists>new. cn_writeq c' = cn_writeq c @ new \<and> list_all bq_ok new \<and>
        (cn_ev_write c' \<longleftrightarrow> cn_ev_write c \<or> new \<noteq> []))"

lemma keptI: "cn_message_buf c' = cn_message_buf c \<Longrightarrow> cn_message_end c' = cn_message_end c \<Longrightarrow>
    cn_writeq c' = cn_writeq c @ new \<Longrightarrow> list_all bq_ok new \<Longrightarrow>
    (cn_ev_write c' \<longleftrightarrow> cn_ev_write c \<or> new \<noteq> []) \<Longrightarrow> kept c c'"
  by (auto simp: kept_def)

lemma kept_same [simp]: "kept c c" "kept c (disconnect c)"
  by (rule keptI [where new = "[]"], simp_all add: disconnect_def)+

lemma kept_inv: "conn_inv c \<Longrightarrow> kept c c' \<Longrightarrow> conn_inv c'"
  by (auto simp: conn_inv_def kept_def)

lemma parsed_Inr:
  "Option.bind p (\<lambda>r. case r of Inl e \<Rightarrow> Some (Inl e) | Inr x \<Rightarrow> F x) = Some (Inr y) \<longleftrightarrow>
   (\<exists>x. p = Some (Inr x) \<and> F x = Some (Inr y))"
proof (cases p)
  case (Some r)
  then show ?thesis by (cases r) auto
qed simp

lemma remote_Inr:
  "Option.bind p (\<lambda>r. case r of Inl e \<Rightarrow> Some (Inl e) | Inr (i, c, w) \<Rightarrow> F c w) = Some (Inr y) \<longleftrightarrow>
   (\<exists>i c w. p = Some (Inr (i, c, w)) \<and> F c w = Some (Inr y))"
  unfolding parsed_Inr by auto

lemma send_vssd_reply:
  assumes "malloc_ok pf" "vssd_ok v"
    "send_vssd c w v (bufferq_new (pf_malloc pf) VSSD_BUFFER_SIZE) = Some (Inr (ret, c', w'))"
  obtains reply where "c' = c\<lparr>cn_writeq := cn_writeq c @ [reply], cn_ev_write := True\<rparr>"
    "w_manager w' = w_manager w" "bq_ok reply"
    "\<forall>tail. virtual_ocssd_deserialize virtual_ocssd_new (bq_rest reply @ tail) = Some (v, length (bq_rest reply))"
proof -
  let ?bq = "bufferq_new (pf_malloc pf) VSSD_BUFFER_SIZE"
  have l: "length (bq_buf ?bq) = 1024" using assms(1) by (simp add: malloc_ok_def VSSD_BUFFER_SIZE_val)
  have wd: "vssd_width v \<le> length (bq_buf ?bq)"
    using send_vssd_overflow [OF assms(2), of ?bq c w] assms(3) by (cases "length (bq_buf ?bq) < vssd_width v") auto
  then obtain reply where r: "send_vssd c w v ?bq =
      Some (Inr (0, c\<lparr>cn_writeq := cn_writeq c @ [reply], cn_ev_write := True\<rparr>, w\<lparr>w_published :=
        w_published w @ map (\<lambda>u. (du_desc u, snd (get_ocssd_stats u))) (mg_ocssds (w_manager w))\<rparr>))"
    "unat (bq_len reply) = vssd_width v" "bq_offset reply = 0" "length (bq_buf reply) = length (bq_buf ?bq)"
    "\<forall>tail. virtual_ocssd_deserialize virtual_ocssd_new (take (vssd_width v) (bq_buf reply) @ tail) =
       Some (v, vssd_width v)"
    by (rule send_vssd_ok [OF assms(2), of ?bq c w]) (use l in \<open>simp_all add: bufferq_new_def\<close>)
  have "bq_rest reply = take (vssd_width v) (bq_buf reply)" "length (bq_rest reply) = vssd_width v"
    using r(2-4) wd by (simp_all add: bq_rest_def)
  then show thesis using r assms(3) wd by (intro that [of reply]) (auto simp: bq_ok_def)
qed

lemma send_vssd_kept:
  assumes "malloc_ok pf" "vssd_ok v"
    "send_vssd c w v (bufferq_new (pf_malloc pf) VSSD_BUFFER_SIZE) = Some (Inr (ret, c', w'))"
  shows "kept c c' \<and> w_manager w' = w_manager w"
  using assms by (rule send_vssd_reply) (auto intro!: keptI)

text \<open>An allocation request that returns either was refused, which takes no block, or sent the
  description of what the manager granted, for a remote client after its blocks were made.\<close>

lemma process_alloc_cases:
  assumes "manager_inv (w_manager w)" "process_alloc_request pf c w = Some (Inr (ret, c', w'))"
  obtains rq n v rq' m where
    "alloc_ocssd_resource (w_manager w) virtual_ocssd_new rq = Some (n, v, rq', m)"
    "n = 0" "c' = c" "w' = w\<lparr>w_manager := m\<rparr>"
  | rq n v rq' m c1 w1 where
    "alloc_ocssd_resource (w_manager w) virtual_ocssd_new rq = Some (n, v, rq', m)"
    "w_manager w1 = m" "cn_writeq c1 = cn_writeq c" "cn_ev_write c1 = cn_ev_write c"
    "cn_message_buf c1 = cn_message_buf c" "cn_message_end c1 = cn_message_end c"
    "send_vssd c1 w1 v (bufferq_new (pf_malloc pf) VSSD_BUFFER_SIZE) = Some (Inr (ret, c', w'))"
proof -
  let ?bq = "bufferq_new (pf_malloc pf) VSSD_BUFFER_SIZE"
  obtain rq n v rq' m where r: "alloc_ocssd_resource (w_manager w) virtual_ocssd_new rq = Some (n, v, rq', m)"
    and c: "(n = 0 \<or> v_units v = []) \<and> c' = c \<and> w' = w\<lparr>w_manager := m\<rparr> \<or>
      send_vssd c (w\<lparr>w_manager := m\<rparr>) v ?bq = Some (Inr (ret, c', w')) \<or>
      (\<exists>i c1 w1. initialize_remote_vssd pf (c\<lparr>cn_remote_vssd := 1\<rparr>) (w\<lparr>w_manager := m\<rparr>) v = Some (Inr (i, c1, w1)) \<and>
        send_vssd c1 w1 v ?bq = Some (Inr (ret, c', w')))"
    using assms(2) unfolding process_alloc_request_def parsed_Inr
    by (auto simp: Let_def Option.bind_eq_Some_conv [of "alloc_ocssd_resource _ _ _"] remote_Inr split: if_splits)
  from c consider (refused) "n = 0" "c' = c" "w' = w\<lparr>w_manager := m\<rparr>"
    | (local) "send_vssd c (w\<lparr>w_manager := m\<rparr>) v ?bq = Some (Inr (ret, c', w'))"
    | (remote) i c1 w1 where "initialize_remote_vssd pf (c\<lparr>cn_remote_vssd := 1\<rparr>) (w\<lparr>w_manager := m\<rparr>) v = Some (Inr (i, c1, w1))"
        "send_vssd c1 w1 v ?bq = Some (Inr (ret, c', w'))"
    using alloc_granted(2) [OF assms(1) r] by blast
  then show thesis
  proof cases
    case refused
    then show thesis by (rule that(1) [OF r])
  next
    case local
    then show thesis by (intro that(2) [OF r, of "w\<lparr>w_manager := m\<rparr>" c]) simp_all
  next
    case (remote i c1 w1)
    show thesis
      by (rule that(2) [OF r _ _ _ _ _ remote(2)])
        (use remote(1) in \<open>auto simp: initialize_remote_vssd_def Let_def Option.bind_eq_Some_conv split: list.splits option.splits\<close>)
  qed
qed

lemma process_alloc_kept:
  assumes "malloc_ok pf" "manager_inv (w_manager w)" "process_alloc_request pf c w = Some (Inr (ret, c', w'))"
  shows "kept c c' \<and> manager_inv (w_manager w')"
  using assms(2,3)
proof (cases rule: process_alloc_cases)
  case (1 rq n v rq' m)
  then show ?thesis using alloc_granted(4) [OF assms(2) 1(1)] by simp
next
  case (2 rq n v rq' m c1 w1)
  note g = alloc_granted [OF assms(2) 2(1)]
  show ?thesis using send_vssd_kept [OF assms(1) g(1) 2(7)] g(4) 2 by (simp add: kept_def)
qed

lemma process_read_kept:
  assumes "malloc_ok pf" "process_read_request pf c w = Some (Inr (ret, c', w'))"
  shows "kept c c' \<and> w_manager w' = w_manager w"
proof -
  have ok: "bq_ok ((bufferq_new (pf_malloc pf) n)\<lparr>bq_buf := m\<rparr>)" if "poke (pf_malloc pf n) 0 xs = Some m" for n xs m
    using length_poke [OF that] assms(1) by (simp add: bq_ok_def bufferq_new_def malloc_ok_def)
  show ?thesis
    using assms(2) ok unfolding process_read_request_def parsed_Inr
    by (auto simp: Let_def Option.bind_eq_Some_conv split: if_splits intro!: keptI)
qed

lemma process_write_kept:
  assumes "fst (process_write_request pf c w inp) = Some (Inr (ret, c', w'))"
  shows "kept c c' \<and> w_manager w' = w_manager w"
  using assms
  by (auto simp: process_write_request_def Let_def Option.bind_eq_Some_conv
      split: option.splits sum.splits if_splits prod.splits)

lemma process_erase_kept:
  assumes "process_erase_request pf c w = Some (Inr (ret, c', w'))"
  shows "kept c c' \<and> w_manager w' = w_manager w"
  using assms unfolding process_erase_request_def parsed_Inr
  by (auto simp: Option.bind_eq_Some_conv split: if_splits)

lemma dispatch_kept:
  assumes "malloc_ok pf" "manager_inv (w_manager w)" "fst (dispatch pf c w inp) = Some (Inr (ret, c', w'))"
  shows "kept c c' \<and> manager_inv (w_manager w')"
  using assms(2,3) process_alloc_kept [OF assms(1,2), of c ret c' w'] process_read_kept [OF assms(1), of c w ret c' w']
    process_write_kept [of pf c w inp ret c' w'] process_erase_kept [of pf c w ret c' w']
  by (auto simp: dispatch_def split: option.splits if_splits)

lemma on_read_inv:
  assumes "malloc_ok pf" "manager_inv (w_manager w)" "conn_inv c" "on_read pf c w inp = Some (Inr (c', w'))"
  shows "conn_inv c' \<and> manager_inv (w_manager w') \<and> (\<exists>new. cn_writeq c' = cn_writeq c @ new)"
proof -
  obtain ret where p: "fst (process_incoming_requests pf c w inp) = Some (Inr (ret, c', w'))"
    using assms(4) by (auto simp: on_read_def split: option.splits sum.splits)
  obtain ok c1 inp1 where r: "read_command c inp = (ok, c1, inp1)" by (metis prod_cases3)
  have c: "cn_message_end c \<le> MESSAGE_BUFFER_SIZE" "length (cn_message_buf c) = MESSAGE_BUFFER_SIZE"
    using assms(3) by (simp_all add: conn_inv_def)
  consider (data) "cn_state c \<noteq> RECEIVING_COMMAND" "c' = c" "w' = w"
    | (cut) "\<not> ok" "c' = c1" "w' = w"
    | (full) "ok" "fst (dispatch pf (c1\<lparr>cn_message_end := 0\<rparr>) w inp1) = Some (Inr (ret, c', w'))"
    using p r by (auto simp: process_incoming_requests_def process_command_def split: if_splits)
  then show ?thesis
  proof cases
    case data
    then show ?thesis using assms by simp
  next
    case cut
    then obtain m e where "c1 = disconnect (c\<lparr>cn_message_buf := m, cn_message_end := e\<rparr>)"
      "length m = MESSAGE_BUFFER_SIZE" "e < MESSAGE_BUFFER_SIZE"
      using read_command_arrived [OF c, of inp] r by (auto split: if_splits)
    then show ?thesis using cut assms(2,3) by (simp add: conn_inv_def disconnect_def)
  next
    case full
    then obtain m where m: "c1 = c\<lparr>cn_message_buf := m, cn_message_end := MESSAGE_BUFFER_SIZE\<rparr>"
      "length m = MESSAGE_BUFFER_SIZE"
      using read_command_arrived [OF c, of inp] r c by (auto split: if_splits)
    then have "conn_inv (c1\<lparr>cn_message_end := 0\<rparr>)" "cn_writeq (c1\<lparr>cn_message_end := 0\<rparr>) = cn_writeq c"
      using assms(3) by (simp_all add: conn_inv_def MESSAGE_BUFFER_SIZE_def)
    then show ?thesis
      using dispatch_kept [OF assms(1,2) full(2)] kept_inv by (auto simp: kept_def)
  qed
qed

section \<open>The server as a transition system\<close>

text \<open>The connections in the order in which they were accepted (they are never deleted), and for each,
  as history, all bytes sent to the client and all bytes ever queued for it.\<close>

record 'd server =
  sv_world :: "'d world"
  sv_clients :: "ocssd_conn list"
  sv_sent :: "byte list list"
  sv_queued :: "byte list list"

definition server_start :: "'d world \<Rightarrow> 'd server" where
  "server_start w = \<lparr>sv_world = w, sv_clients = [], sv_sent = [], sv_queued = []\<rparr>"

text \<open>The replies a callback appended to the queue of \<open>c\<close>.\<close>

definition new_replies :: "ocssd_conn \<Rightarrow> ocssd_conn \<Rightarrow> byte list" where
  "new_replies c c' = concat (map bq_rest (drop (length (cn_writeq c)) (cn_writeq c')))"

inductive server_step :: "('a, 'd) platform \<Rightarrow> 'd server \<Rightarrow> 'd server \<Rightarrow> bool" for pf where
  accept: "length junk = MESSAGE_BUFFER_SIZE \<Longrightarrow>
    server_step pf s (s\<lparr>sv_clients := on_accept (Some (client_fd, addr)) junk (sv_clients s),
      sv_sent := sv_sent s @ [[]], sv_queued := sv_queued s @ [[]]\<rparr>)"
| readable: "i < length (sv_clients s) \<Longrightarrow> c = sv_clients s ! i \<Longrightarrow> cn_open c \<Longrightarrow> cn_ev_read c \<Longrightarrow>
    on_read pf c (sv_world s) inp = Some (Inr (c', w')) \<Longrightarrow>
    server_step pf s (s\<lparr>sv_world := w', sv_clients := (sv_clients s)[i := c'],
      sv_queued := (sv_queued s)[i := sv_queued s ! i @ new_replies c c']\<rparr>)"
| writable: "i < length (sv_clients s) \<Longrightarrow> c = sv_clients s ! i \<Longrightarrow> cn_open c \<Longrightarrow> cn_ev_write c \<Longrightarrow>
    write_ok r c \<Longrightarrow> on_write r c = Some (Inr (c', out)) \<Longrightarrow>
    server_step pf s (s\<lparr>sv_clients := (sv_clients s)[i := c'],
      sv_sent := (sv_sent s)[i := sv_sent s ! i @ out]\<rparr>)"

inductive_cases server_stepE: "server_step pf s s'"

definition server_reachable :: "('a, 'd) platform \<Rightarrow> 'd world \<Rightarrow> 'd server \<Rightarrow> bool" where
  "server_reachable pf w s \<longleftrightarrow> (server_step pf)\<^sup>*\<^sup>* (server_start w) s"

definition server_inv :: "'d server \<Rightarrow> bool" where
  "server_inv s \<longleftrightarrow> manager_inv (w_manager (sv_world s)) \<and> list_all conn_inv (sv_clients s) \<and>
     length (sv_sent s) = length (sv_clients s) \<and> length (sv_queued s) = length (sv_clients s) \<and>
     (\<forall>i<length (sv_clients s). sv_sent s ! i @ pending (sv_clients s ! i) = sv_queued s ! i)"

lemma ocssd_conn_new_inv:
  "length junk = MESSAGE_BUFFER_SIZE \<Longrightarrow> conn_inv ((ocssd_conn_new junk fd addr)\<lparr>cn_ev_read := True\<rparr>)"
  "pending ((ocssd_conn_new junk fd addr)\<lparr>cn_ev_read := True\<rparr>) = []"
  by (simp_all add: conn_inv_def ocssd_conn_new_def pending_def MESSAGE_BUFFER_SIZE_def)

lemma new_replies_pending:
  "\<exists>new. cn_writeq c' = cn_writeq c @ new \<Longrightarrow> pending c' = pending c @ new_replies c c'"
  by (auto simp: pending_def new_replies_def)

lemma server_inv_update:
  assumes "server_inv s" "i < length (sv_clients s)" "conn_inv c'" "manager_inv (w_manager w')"
    "sent' @ pending c' = queued'"
  shows "server_inv (s\<lparr>sv_world := w', sv_clients := (sv_clients s)[i := c'],
    sv_sent := (sv_sent s)[i := sent'], sv_queued := (sv_queued s)[i := queued']\<rparr>)"
proof -
  have "set ((sv_clients s)[i := c']) \<subseteq> insert c' (set (sv_clients s))" by (rule set_update_subset_insert)
  then have "list_all conn_inv ((sv_clients s)[i := c'])"
    using assms(1,3) by (auto simp: server_inv_def list_all_iff)
  then show ?thesis using assms by (auto simp: server_inv_def nth_list_update)
qed

lemma server_step_inv:
  assumes "malloc_ok pf" "server_step pf s s'" "server_inv s"
  shows "server_inv s'"
  using assms(2)
proof (cases rule: server_step.cases)
  case (accept junk client_fd addr)
  then show ?thesis using assms(3) ocssd_conn_new_inv [of junk client_fd addr]
    by (auto simp: server_inv_def on_accept_def nth_append less_Suc_eq)
next
  case (readable i c inp c' w')
  then have c: "conn_inv c" "sv_sent s ! i @ pending c = sv_queued s ! i" "manager_inv (w_manager (sv_world s))"
    using assms(3) by (auto simp: server_inv_def list_all_length)
  note r = on_read_inv [OF assms(1) c(3,1) readable(6)]
  have "sv_sent s ! i @ pending c' = sv_queued s ! i @ new_replies c c'"
    using c(2) new_replies_pending [of c' c] r by simp
  from server_inv_update [OF assms(3) readable(2) _ _ this] r show ?thesis
    unfolding readable(1) by simp
next
  case (writable i c r c' out)
  then have c: "conn_inv c" "sv_sent s ! i @ pending c = sv_queued s ! i" "manager_inv (w_manager (sv_world s))"
    using assms(3) by (auto simp: server_inv_def list_all_length)
  have q: "cn_writeq c \<noteq> []" using c(1) writable(5) by (simp add: conn_inv_def)
  have w: "conn_inv c'" "out @ pending c' = pending c"
    using on_write_step [OF c(1) q writable(6)] writable(7) by auto
  have "(sv_sent s ! i @ out) @ pending c' = sv_queued s ! i" using c(2) w(2) by simp
  from server_inv_update [OF assms(3) writable(2) w(1) c(3) this] show ?thesis
    unfolding writable(1) by simp
qed

lemma server_reachable_inv:
  assumes "malloc_ok pf" "manager_inv (w_manager w)" "server_reachable pf w s"
  shows "server_inv s"
  using assms(3) unfolding server_reachable_def
proof (induction rule: rtranclp_induct)
  case base
  then show ?case using assms(2) by (simp add: server_inv_def server_start_def)
next
  case (step s1 s2)
  then show ?case using server_step_inv [OF assms(1)] by blast
qed

section \<open>Draining a queue\<close>

text \<open>\<open>policy k\<close> is how many of \<open>k\<close> offered bytes \<^verbatim>\<open>write(2)\<close> takes.\<close>

definition accepting :: "(nat \<Rightarrow> nat) \<Rightarrow> bool" where
  "accepting policy \<longleftrightarrow> (\<forall>k. policy k \<le> k \<and> (0 < k \<longrightarrow> 0 < policy k))"

fun drain :: "(nat \<Rightarrow> nat) \<Rightarrow> nat \<Rightarrow> ocssd_conn \<Rightarrow> (ocssd_conn \<times> byte list) option" where
  "drain policy fuel c =
     (case cn_writeq c of
        [] \<Rightarrow> Some (c, [])
      | bq # _ \<Rightarrow>
          (case fuel of
             0 \<Rightarrow> None
           | Suc n \<Rightarrow>
               (case on_write (Wrote (policy (unat (bq_len bq) - unat (bq_offset bq)))) c of
                  Some (Inr (c', out)) \<Rightarrow> map_option (\<lambda>(c, more). (c, out @ more)) (drain policy n c')
                | _ \<Rightarrow> None)))"

declare drain.simps [simp del]

lemma on_write_shrinks:
  assumes "conn_inv c" "accepting policy" "cn_writeq c = bq # rest"
    "n = policy (unat (bq_len bq) - unat (bq_offset bq))"
  obtains c' out where "on_write (Wrote n) c = Some (Inr (c', out))" "conn_inv c'" "out @ pending c' = pending c"
    "length (pending c') + length (cn_writeq c') < length (pending c) + length (cn_writeq c)"
proof -
  have bq: "bq_ok bq" using assms(1,3) by (simp add: conn_inv_def)
  have n: "n \<le> unat (bq_len bq) - unat (bq_offset bq)" using assms(2,4) by (simp add: accepting_def)
  then have w: "write_ok (Wrote n) c" using assms(3) by (simp add: write_ok_def)
  obtain res where res: "on_write (Wrote n) c = Some res" "case res of Inl code \<Rightarrow> Wrote n = Broken \<and> code = 1
      | Inr (c', out) \<Rightarrow> Wrote n \<noteq> Broken \<and> conn_inv c' \<and> out @ pending c' = pending c \<and>
          cn_open c' = cn_open c \<and> cn_ev_read c' = cn_ev_read c"
    using on_write_step [OF assms(1) _ w] assms(3) by auto
  then obtain c' out where r: "res = Inr (c', out)" "conn_inv c'" "out @ pending c' = pending c"
    by (cases res) auto
  have l: "length out + length (pending c') = length (pending c)" using arg_cong [OF r(3), of length] by simp
  have "length (pending c') + length (cn_writeq c') < length (pending c) + length (cn_writeq c)"
  proof (cases "unat (bq_offset bq) + n < unat (bq_len bq)")
    case True
    then have "0 < n" using assms(2,4) by (simp add: accepting_def)
    moreover have "length out = n" "length (cn_writeq c') = length (cn_writeq c)"
      using on_write_Wrote(1) [OF bq n assms(3)] True res(1) r(1) bq n assms(3) by (auto simp: bq_ok_def)
    ultimately show ?thesis using l by simp
  next
    case False
    then have "length (cn_writeq c') < length (cn_writeq c)"
      using on_write_Wrote(1) [OF bq n assms(3)] res(1) r(1) assms(3) by auto
    then show ?thesis using l by simp
  qed
  with that res(1) r show thesis by blast
qed

lemma drain_all:
  "conn_inv c \<Longrightarrow> accepting policy \<Longrightarrow> length (pending c) + length (cn_writeq c) \<le> fuel \<Longrightarrow>
   \<exists>c'. drain policy fuel c = Some (c', pending c) \<and> cn_writeq c' = [] \<and> \<not> cn_ev_write c'"
proof (induction fuel arbitrary: c)
  case 0
  then have "cn_writeq c = []" by simp
  with 0 show ?case by (subst drain.simps) (auto simp: pending_def conn_inv_def)
next
  case (Suc fuel)
  show ?case
  proof (cases "cn_writeq c")
    case Nil
    with Suc show ?thesis by (subst drain.simps) (auto simp: pending_def conn_inv_def)
  next
    case (Cons bq rest)
    obtain c1 out where s: "on_write (Wrote (policy (unat (bq_len bq) - unat (bq_offset bq)))) c = Some (Inr (c1, out))"
      "conn_inv c1" "out @ pending c1 = pending c"
      "length (pending c1) + length (cn_writeq c1) < length (pending c) + length (cn_writeq c)"
      by (rule on_write_shrinks [OF Suc.prems(1,2) Cons refl])
    then obtain c' where "drain policy fuel c1 = Some (c', pending c1)" "cn_writeq c' = []" "\<not> cn_ev_write c'"
      using Suc.IH [OF s(2) Suc.prems(2)] Suc.prems(3) by auto
    then show ?thesis using s(1,3) Cons by (subst drain.simps) simp
  qed
qed

text \<open>A server with one client that has asked for a virtual SSD.\<close>

definition sample_server :: "nat server" where
  "sample_server =
     (let c = sample_conn\<lparr>cn_ev_read := True\<rparr>; w = sample_world sample_manager in
      case on_read sample_platform c w [Data (alloc_image (ocssd_alloc_request_new 2 6 1 0 0))] of
        Some (Inr (c', w')) \<Rightarrow> \<lparr>sv_world = w', sv_clients = [c'], sv_sent = [[]], sv_queued = [new_replies c c']\<rparr>
      | _ \<Rightarrow> server_start w)"

lemma sample_server:
  "malloc_ok sample_platform" "manager_inv (w_manager (sample_world sample_manager))"
  "server_reachable sample_platform (sample_world sample_manager) sample_server"
  "length (sv_clients sample_server) = 1" "cn_ev_write (sv_clients sample_server ! 0)"
proof -
  let ?c = "sample_conn\<lparr>cn_ev_read := True\<rparr>" and ?w = "sample_world sample_manager"
  let ?rq = "ocssd_alloc_request_new 2 6 1 0 0"
  show "malloc_ok sample_platform" by (simp add: malloc_ok_def sample_platform_def)
  obtain n v rq' m' where f: "conn_ready sample_conn" "manager_inv (w_manager ?w)"
    "reply_buffer_ok sample_platform" "length (replicate 24 (0 :: byte)) = REQUEST_ALLOC_SIZE"
    "ocssd_alloc_request_serialize (replicate 24 0) ?rq = Some (alloc_image ?rq, REQUEST_ALLOC_SIZE)"
    "arrived [Data (alloc_image ?rq)] = alloc_image ?rq @ []" "rq_remote ?rq = 0"
    "alloc_ocssd_resource (w_manager ?w) virtual_ocssd_new ?rq = Some (n, v, rq', m')" "n \<noteq> 0"
    "vssd_width v \<le> unat VSSD_BUFFER_SIZE"
    by (rule sample_exchange)
  show "manager_inv (w_manager ?w)" by (rule f(2))
  have "conn_ready ?c" using f(1) by (simp add: conn_ready_def)
  from local_alloc_reply [OF this f(2-10)] obtain reply c' w' inp' where
    p: "process_incoming_requests sample_platform ?c ?w [Data (alloc_image ?rq)] = (Some (Inr (0, c', w')), inp')"
      "cn_ev_write c'" by blast
  then have r: "on_read sample_platform ?c ?w [Data (alloc_image ?rq)] = Some (Inr (c', w'))"
    by (simp add: on_read_def)
  then have s: "sample_server = \<lparr>sv_world = w', sv_clients = [c'], sv_sent = [[]], sv_queued = [new_replies ?c c']\<rparr>"
    by (simp add: sample_server_def)
  show "length (sv_clients sample_server) = 1" "cn_ev_write (sv_clients sample_server ! 0)"
    unfolding s using p(2) by simp_all
  let ?s = "\<lparr>sv_world = ?w, sv_clients = [?c], sv_sent = [[]], sv_queued = [[]]\<rparr>"
  have "server_step sample_platform (server_start ?w) ?s"
    using accept [of "replicate 24 0" sample_platform "server_start ?w" 7 "''10.0.0.2''"]
    by (simp add: server_start_def on_accept_def sample_conn_def MESSAGE_BUFFER_SIZE_def)
  moreover have "server_step sample_platform ?s sample_server"
    using readable [of 0 ?s ?c sample_platform "[Data (alloc_image ?rq)]" c' w'] r
    by (simp add: s sample_conn_def ocssd_conn_new_def)
  ultimately show "server_reachable sample_platform ?w sample_server"
    unfolding server_reachable_def by (meson rtranclp.simps)
qed

text \<open>Start-up.\<close>

lemma initialize_manager_cases:
  assumes "\<forall>geo. dev_open ''/dev/nvme1n1'' = Some geo \<longrightarrow> geo_ok geo"
  shows "if \<not> file_exists ''/dev/nvme1n1''
    then initialize_ocssd_manager file_exists dev_open ifs = Inr (ocssd_manager_new ifs, [])
    else if dev_open ''/dev/nvme1n1'' = None
    then initialize_ocssd_manager file_exists dev_open ifs = Inl open_dev_failed
    else \<exists>m u. initialize_ocssd_manager file_exists dev_open ifs = Inr (m, [(du_desc u, snd (get_ocssd_stats u))]) \<and>
      mg_ocssds m = [u] \<and> du_name u = ''/dev/nvme1n1'' \<and> manager_inv m \<and> manager_owned m = {}"
proof -
  have p: "nvme_path (Suc 0) = ''/dev/nvme1n1''" by code_simp
  have range: "[Suc 0..<2] = [Suc 0]" by (simp add: upt_rec)
  consider (missing) "\<not> file_exists ''/dev/nvme1n1''"
    | (failed) "file_exists ''/dev/nvme1n1''" "dev_open ''/dev/nvme1n1'' = None"
    | (opened) geo where "file_exists ''/dev/nvme1n1''" "dev_open ''/dev/nvme1n1'' = Some geo"
    by (cases "dev_open ''/dev/nvme1n1''") auto
  then show ?thesis
  proof cases
    case missing
    then show ?thesis
      by (simp add: initialize_ocssd_manager_def range p publish_resource_eq ocssd_manager_new_def)
  next
    case failed
    then show ?thesis
      by (simp add: initialize_ocssd_manager_def range p add_ocssd_def ocssd_unit_new_def)
  next
    case opened
    let ?m = "ocssd_manager_new ifs"
    obtain u where u: "add_ocssd dev_open ?m ''/dev/nvme1n1'' =
        (Inr 0, ?m\<lparr>mg_ocssds := mg_ocssds ?m @ [u], mg_count := mg_count ?m + 1\<rparr>)" "du_name u = ''/dev/nvme1n1''"
      "manager_inv (?m\<lparr>mg_ocssds := mg_ocssds ?m @ [u], mg_count := mg_count ?m + 1\<rparr>)"
      "manager_owned (?m\<lparr>mg_ocssds := mg_ocssds ?m @ [u], mg_count := mg_count ?m + 1\<rparr>) = manager_owned ?m"
      by (rule add_ocssd_inv [of ?m dev_open "''/dev/nvme1n1''" geo, OF ocssd_manager_new_inv opened(2)])
        (use assms opened(2) in \<open>simp_all add: name_ok_def ocssd_manager_new_def\<close>)
    have o: "manager_owned ?m = {}" "mg_ocssds ?m = []" by (simp_all add: manager_owned_def ocssd_manager_new_def)
    show ?thesis
      using opened u o
      by (auto simp: initialize_ocssd_manager_def range p publish_resource_eq)
  qed
qed

section \<open>Theorems\<close>



text \<open>C28: The write callback never takes the front of an empty queue, and no reply is forgotten.  In
  every reachable state the write event of a connection is pending exactly when it has a reply to
  send, and then the callback is defined for everything \<^verbatim>\<open>write(2)\<close> may answer; only an
  error other than \<^verbatim>\<open>EINTR\<close> and \<^verbatim>\<open>EAGAIN\<close> ends the process.\<close>

theorem on_write_defined:
  assumes "malloc_ok pf" and "manager_inv (w_manager w)" and "server_reachable pf w s"
    and "c \<in> set (sv_clients s)" and "write_ok r c"
  shows "(cn_ev_write c \<longleftrightarrow> cn_writeq c \<noteq> []) \<and>
    (cn_ev_write c \<longrightarrow> (\<exists>res. on_write r c = Some res \<and> (res = Inl 1 \<longleftrightarrow> r = Broken)))"
proof -
  have c: "conn_inv c" using server_reachable_inv [OF assms(1-3)] assms(4) by (simp add: server_inv_def list_all_iff)
  then have q: "cn_ev_write c \<longleftrightarrow> cn_writeq c \<noteq> []" by (simp add: conn_inv_def)
  moreover have "\<exists>res. on_write r c = Some res \<and> (res = Inl 1 \<longleftrightarrow> r = Broken)" if ne: "cn_writeq c \<noteq> []"
  proof -
    obtain res where "on_write r c = Some res" "case res of Inl code \<Rightarrow> r = Broken \<and> code = 1
      | Inr (c', out) \<Rightarrow> r \<noteq> Broken \<and> conn_inv c' \<and> out @ pending c' = pending c \<and>
          cn_open c' = cn_open c \<and> cn_ev_read c' = cn_ev_read c"
      using on_write_step [OF c ne assms(5)] by blast
    then show ?thesis by (cases res) auto
  qed
  ultimately show ?thesis by blast
qed

theorem on_write_defined_witness:
  "\<exists>res. on_write Again (sv_clients sample_server ! 0) = Some res \<and> res \<noteq> Inl 1"
  using on_write_defined [OF sample_server(1,2,3), of "sv_clients sample_server ! 0" Again] sample_server(4,5)
  by (auto simp: write_ok_def)

text \<open>A queue of replies drains.  When every call of \<^verbatim>\<open>write(2)\<close> takes some of the bytes
  offered, at most one callback per byte and per reply empties the queue, the bytes go out in the
  order of the queue, and the write event is not added again.\<close>

theorem queue_drains:
  assumes "conn_inv c" and "accepting policy"
  shows "\<exists>c'. drain policy (length (pending c) + length (cn_writeq c)) c = Some (c', pending c) \<and>
    cn_writeq c' = [] \<and> \<not> cn_ev_write c'"
  by (rule drain_all [OF assms order_refl])

theorem queue_drains_witness:
  "\<exists>c'. drain (\<lambda>k. min k 1) 5
      (queue_reply (queue_reply sample_conn \<lparr>bq_buf = [1, 2, 3], bq_len = 3, bq_offset = 1\<rparr>)
         \<lparr>bq_buf = [4], bq_len = 1, bq_offset = 0\<rparr>) = Some (c', [2, 3, 4]) \<and> cn_writeq c' = []"
proof -
  let ?c = "queue_reply (queue_reply sample_conn \<lparr>bq_buf = [1, 2, 3], bq_len = 3, bq_offset = 1\<rparr>)
     \<lparr>bq_buf = [4], bq_len = 1, bq_offset = 0\<rparr>"
  have "conn_inv ?c" by (simp add: conn_inv_def queue_reply_def sample_conn_def ocssd_conn_new_def bq_ok_def MESSAGE_BUFFER_SIZE_def)
  moreover have p: "pending ?c = [2, 3, 4]" "length (pending ?c) + length (cn_writeq ?c) = 5"
    by (simp_all add: pending_def queue_reply_def sample_conn_def ocssd_conn_new_def bq_rest_def)
  moreover have "accepting (\<lambda>k. min k 1)" by (simp add: accepting_def)
  ultimately obtain c' where "drain (\<lambda>k. min k 1) (length (pending ?c) + length (cn_writeq ?c)) ?c =
      Some (c', pending ?c)" "cn_writeq c' = []"
    using queue_drains [of ?c "\<lambda>k. min k 1"] by blast
  then show ?thesis by (metis p)
qed

text \<open>Start-up.  When the device file is missing the server starts with an empty manager; when
  liblightnvm cannot open it the exception ends the program; otherwise the manager satisfies its
  invariant, owns nothing, and has published the statistics of its one device.\<close>

theorem initialize_ocssd_manager_correct:
  assumes "\<forall>geo. dev_open ''/dev/nvme1n1'' = Some geo \<longrightarrow> geo_ok geo"
  shows "if \<not> file_exists ''/dev/nvme1n1''
    then initialize_ocssd_manager file_exists dev_open ifs = Inr (ocssd_manager_new ifs, [])
    else if dev_open ''/dev/nvme1n1'' = None
    then initialize_ocssd_manager file_exists dev_open ifs = Inl open_dev_failed
    else \<exists>m u. initialize_ocssd_manager file_exists dev_open ifs = Inr (m, [(du_desc u, snd (get_ocssd_stats u))]) \<and>
      mg_ocssds m = [u] \<and> du_name u = ''/dev/nvme1n1'' \<and> manager_inv m \<and> manager_owned m = {}"
  by (rule initialize_manager_cases [of dev_open, OF assms])

theorem initialize_ocssd_manager_correct_witness:
  "\<exists>m u. initialize_ocssd_manager (\<lambda>_. True) (\<lambda>_. Some sample_geo) [] =
     Inr (m, [(du_desc u, snd (get_ocssd_stats u))]) \<and> mg_ocssds m = [u] \<and> manager_inv m"
  using initialize_ocssd_manager_correct [of "\<lambda>_. Some sample_geo" "\<lambda>_. True" "[]"]
  by (auto simp: geo_ok_def sample_geo_def)

end
