(* ===== verification/Libc.thy ===== *)
theory Libc
  imports Prelude
begin

text \<open>
  What the command-line programs use of the C library: \<^verbatim>\<open>atoi\<close> on the argument strings.  The
  behaviour is undefined (\<^term>\<open>None\<close>) when the number does not fit an \<^verbatim>\<open>int\<close>.
\<close>

definition INT_MAX :: int where "INT_MAX = 2147483647"

definition int_ok :: "int \<Rightarrow> bool" where
  "int_ok n \<longleftrightarrow> - INT_MAX - 1 \<le> n \<and> n \<le> INT_MAX"

definition is_space :: "char \<Rightarrow> bool" where
  "is_space c \<longleftrightarrow> of_char c = (32 :: nat) \<or> 9 \<le> (of_char c :: nat) \<and> (of_char c :: nat) \<le> 13"

definition is_digit :: "char \<Rightarrow> bool" where
  "is_digit c \<longleftrightarrow> 48 \<le> (of_char c :: nat) \<and> (of_char c :: nat) \<le> 57"

fun digits :: "string \<Rightarrow> int \<Rightarrow> int" where
  "digits [] acc = acc"
| "digits (c # cs) acc = (if is_digit c then digits cs (10 * acc + (of_char c - 48)) else acc)"

definition signed_digits :: "string \<Rightarrow> int" where
  "signed_digits s = (case s of
     [] \<Rightarrow> 0
   | c # cs \<Rightarrow> if c = CHR ''-'' then - digits cs 0 else if c = CHR ''+'' then digits cs 0 else digits s 0)"

definition atoi :: "string \<Rightarrow> int option" where
  "atoi s = (let n = signed_digits (dropWhile is_space s) in if int_ok n then Some n else None)"

section \<open>Decimal numerals\<close>

text \<open>The numerals a user types, and that they are read as the number they denote.\<close>

fun numeral_string :: "nat \<Rightarrow> string" where
  "numeral_string n = (if n < 10 then [char_of (48 + n)]
     else numeral_string (n div 10) @ [char_of (48 + n mod 10)])"

declare numeral_string.simps [simp del]

lemma digit_char: "k < 10 \<Longrightarrow> (of_char (char_of (48 + k) :: char) :: nat) = 48 + k"
  by simp

lemma is_digit_char: "(k :: nat) < 10 \<Longrightarrow> is_digit (char_of (48 + k))"
  by (simp add: is_digit_def)

lemma digit_value: "k < 10 \<Longrightarrow> (of_char (char_of (48 + k) :: char) :: int) = 48 + int k"
  using digit_char [of k] by (metis of_char_of of_nat_add of_nat_numeral of_nat_of_char)

lemma digits_append:
  "list_all is_digit s \<Longrightarrow> digits (s @ t) acc = digits t (digits s acc)"
  by (induction s arbitrary: acc) auto

lemma numeral_string_digits:
  "list_all is_digit (numeral_string n) \<and> numeral_string n \<noteq> [] \<and> digits (numeral_string n) 0 = int n"
proof (induction n rule: numeral_string.induct)
  case (1 n)
  show ?case
  proof (cases "n < 10")
    case True
    then show ?thesis by (simp add: numeral_string.simps [of n] is_digit_char digit_value)
  next
    case False
    have "int n = 10 * int (n div 10) + int (n mod 10)" by presburger
    then show ?thesis
      using 1 [OF False] False digit_value [of "n mod 10"]
      by (simp add: numeral_string.simps [of n] is_digit_char digits_append)
  qed
qed

lemma atoi_numeral:
  assumes "int n \<le> INT_MAX"
  shows "atoi (numeral_string n) = Some (int n)"
proof -
  obtain c cs where s: "numeral_string n = c # cs" using numeral_string_digits [of n] by (cases "numeral_string n") auto
  then have d: "is_digit c" "digits (c # cs) 0 = int n" using numeral_string_digits [of n] by auto
  then have "\<not> is_space c" "c \<noteq> CHR ''-''" "c \<noteq> CHR ''+''"
    by (auto simp: is_digit_def is_space_def)
  then show ?thesis
    using s d assms by (simp add: atoi_def signed_digits_def int_ok_def INT_MAX_def del: digits.simps)
qed

end
