(* ===== verification/Client.thy ===== *)
theory Client
  imports Server Libc
begin

text \<open>
  The client program (\<^verbatim>\<open>src/ocssd_client.cc\<close>): it asks for a virtual SSD and, for remote access,
  erases, writes and reads its first block.  Unlike the server's sockets the client's socket blocks:
  a \<^verbatim>\<open>recv(2)\<close> for which nothing ever arrives does not return.  The theorems put the
  client and the server's connection together, with the bytes that one sends as the input of the
  other.
\<close>

section \<open>The blocking socket\<close>

text \<open>\<open>sk_in\<close> is what the peer will send, \<open>sk_out\<close> what the kernel has taken from the program.
  \<open>sk_accept\<close> limits the next \<^verbatim>\<open>send(2)\<close> calls (an interrupted or failed call takes less
  than it was given, possibly nothing); a call without a limit takes everything.\<close>

record csock =
  sk_in :: "chunk list"
  sk_out :: "byte list"
  sk_accept :: "nat list"

definition sock_send :: "csock \<Rightarrow> byte list \<Rightarrow> csock" where
  "sock_send s bs =
     (case sk_accept s of
        [] \<Rightarrow> s\<lparr>sk_out := sk_out s @ bs\<rparr>
      | n # ns \<Rightarrow> s\<lparr>sk_out := sk_out s @ take n bs, sk_accept := ns\<rparr>)"

text \<open>\<^term>\<open>None\<close> is a call that does not return.\<close>

fun sock_recv :: "nat \<Rightarrow> chunk list \<Rightarrow> (read_result \<times> chunk list) option" where
  "sock_recv n [] = (if n = 0 then Some (Got [], []) else None)"
| "sock_recv n (c # cs) =
     (if n = 0 then Some (Got [], c # cs)
      else if c = Data [] then sock_recv n cs else Some (sock_read n (c # cs)))"

text \<open>A call of the program returns a value or waits for ever; undefined behaviour is
  \<^term>\<open>None\<close> of the option around it.\<close>

datatype 'a outcome = Returned 'a | Blocked csock

section \<open>Allocation\<close>

definition BUFFER_SIZE :: nat where "BUFFER_SIZE = 1024"

definition get_unit :: "virtual_ocssd \<Rightarrow> nat \<Rightarrow> virtual_ocssd_unit option" where
  "get_unit v i = (if i < length (v_units v) then Some (v_units v ! i) else None)"

text \<open>Send a request, receive once, and decode the buffer, whatever \<^verbatim>\<open>recv\<close> returned.\<close>

definition request_vssd :: "csock \<Rightarrow> ocssd_alloc_request \<Rightarrow> (virtual_ocssd \<times> csock) outcome option" where
  "request_vssd sock request = do {
     (buffer, size) \<leftarrow> ocssd_alloc_request_serialize (replicate BUFFER_SIZE 0) request;
     let sock = sock_send sock (take size buffer);
     (case sock_recv BUFFER_SIZE (sk_in sock) of
        None \<Rightarrow> Some (Blocked sock)
      | Some (r, inp) \<Rightarrow> do {
          buffer \<leftarrow> (case r of Got bs \<Rightarrow> poke buffer 0 bs | _ \<Rightarrow> Some buffer);
          (vssd, _) \<leftarrow> virtual_ocssd_deserialize virtual_ocssd_new buffer;
          Some (Returned (vssd, sock\<lparr>sk_in := inp\<rparr>)) }) }"

text \<open>The lines printed for one channel: its id, its number of LUNs, and either the LUNs or the
  number of blocks.\<close>

type_synonym channel_line = "u32 \<times> u32 \<times> ((u32 \<times> u32 \<times> u32) list + u32)"

definition channel_report :: "virtual_ocssd_channel \<Rightarrow> channel_line" where
  "channel_report vchannel = (vc_channel_id vchannel, vc_num_luns vchannel,
     if is_shared vchannel
     then Inl (map (\<lambda>lun. (vl_lun_id lun, vl_block_start lun, vl_num_blocks lun)) (vc_luns vchannel))
     else Inr (vc_total_blocks vchannel))"

definition test_local_ocssd :: "csock \<Rightarrow> (int \<times> channel_line list \<times> virtual_ocssd \<times> csock) outcome option" where
  "test_local_ocssd sock = do {
     r \<leftarrow> request_vssd sock (ocssd_alloc_request_new 4 1024 1 0 0);
     (case r of
        Blocked s \<Rightarrow> Some (Blocked s)
      | Returned (vssd, sock) \<Rightarrow> do {
          vunit \<leftarrow> get_unit vssd 0;
          Some (Returned (0, map channel_report (vu_channels vunit), vssd, sock)) }) }"

section \<open>Block requests\<close>

text \<open>\<open>junk\<close> is what the uninitialised message buffer holds, \<open>malloc\<close> the memory a call returns.\<close>

definition send_request :: "byte list \<Rightarrow> csock \<Rightarrow> ocssd_io_request \<Rightarrow> csock option" where
  "send_request junk sock request = do {
     (buffer, size) \<leftarrow> ocssd_io_request_serialize junk request;
     Some (sock_send sock (take size buffer)) }"

definition test_erase_block :: "byte list \<Rightarrow> csock \<Rightarrow> u32 \<Rightarrow> (int \<times> csock) option" where
  "test_erase_block junk sock block_idx = do {
     sock \<leftarrow> send_request junk sock (ocssd_io_request_new ERASE_BLOCK_REQUEST block_idx 0 0);
     Some (0, sock) }"

definition test_write_block ::
  "byte list \<Rightarrow> (u64 \<Rightarrow> byte list) \<Rightarrow> csock \<Rightarrow> u32 \<Rightarrow> u64 \<Rightarrow> (int \<times> csock) option" where
  "test_write_block junk malloc sock block_idx count = do {
     sock \<leftarrow> send_request junk sock (ocssd_io_request_new WRITE_BLOCK_REQUEST block_idx count 0);
     data_buf \<leftarrow> poke (malloc count) 0 (replicate (unat count) 97);
     Some (0, sock_send sock (take (unat count) data_buf)) }"

lemma sock_recv_progress:
  "sock_recv n inp = Some (Got bs, inp') \<Longrightarrow> 0 < n \<Longrightarrow> bs \<noteq> [] \<and> length bs \<le> n"
  by (induction n inp rule: sock_recv.induct) (auto simp: sock_read_progress split: if_splits)

text \<open>The loop of \<^verbatim>\<open>test_read_block\<close>; the result is the buffer and the number of bytes
  received.\<close>

function recv_loop :: "nat \<Rightarrow> byte list \<Rightarrow> nat \<Rightarrow> csock \<Rightarrow> (byte list \<times> nat \<times> csock) outcome option" where
  "recv_loop count data_buf received sock =
     (case sock_recv (count - received) (sk_in sock) of
        None \<Rightarrow> Some (Blocked sock)
      | Some (Got bs, inp) \<Rightarrow>
          if bs = [] then Some (Returned (data_buf, received, sock\<lparr>sk_in := inp\<rparr>))
          else (case poke data_buf received bs of
                  None \<Rightarrow> None
                | Some data_buf' \<Rightarrow>
                    if count \<le> received + length bs
                    then Some (Returned (data_buf', received + length bs, sock\<lparr>sk_in := inp\<rparr>))
                    else recv_loop count data_buf' (received + length bs) (sock\<lparr>sk_in := inp\<rparr>))
      | Some (_, inp) \<Rightarrow> Some (Returned (data_buf, received, sock\<lparr>sk_in := inp\<rparr>)))"
  by pat_completeness auto
termination
proof (relation "measure (\<lambda>(count, data_buf, received, sock). count - received)", goal_cases)
  case (2 count data_buf received sock a r inp bs data_buf')
  then show ?case by (cases bs) auto
qed simp

declare recv_loop.simps [simp del]

definition test_read_block ::
  "byte list \<Rightarrow> (u64 \<Rightarrow> byte list) \<Rightarrow> csock \<Rightarrow> u32 \<Rightarrow> u64 \<Rightarrow> u64 \<Rightarrow> (int \<times> byte list \<times> csock) outcome option" where
  "test_read_block junk malloc sock block_idx count offset = do {
     sock \<leftarrow> send_request junk sock (ocssd_io_request_new READ_BLOCK_REQUEST block_idx count offset);
     data_buf \<leftarrow> poke (malloc count) 0 (replicate (unat count) 98);
     r \<leftarrow> recv_loop (unat count) data_buf 0 sock;
     (case r of
        Blocked s \<Rightarrow> Some (Blocked s)
      | Returned (data_buf, received, sock) \<Rightarrow> do {
          _ \<leftarrow> peek data_buf 0 1;
          _ \<leftarrow> peek data_buf (unat (count - 1)) 1;
          Some (Returned (0, data_buf, sock)) }) }"

definition test_remote_ocssd ::
  "byte list \<Rightarrow> (u64 \<Rightarrow> byte list) \<Rightarrow> csock \<Rightarrow> (int \<times> byte list \<times> virtual_ocssd \<times> csock) outcome option" where
  "test_remote_ocssd junk malloc sock = do {
     r \<leftarrow> request_vssd sock (ocssd_alloc_request_new 4 1024 1 0 1);
     (case r of
        Blocked s \<Rightarrow> Some (Blocked s)
      | Returned (vssd, sock) \<Rightarrow> do {
          (_, sock) \<leftarrow> test_erase_block junk sock 0;
          (_, sock) \<leftarrow> test_write_block junk malloc sock 0 1048576;
          r \<leftarrow> test_read_block junk malloc sock 0 1048576 0;
          (case r of
             Blocked s \<Rightarrow> Some (Blocked s)
           | Returned (_, data_buf, sock) \<Rightarrow> Some (Returned (0, data_buf, vssd, sock))) }) }"

section \<open>The program\<close>

text \<open>\<open>connected\<close> is \<^term>\<open>None\<close> when \<^verbatim>\<open>connect(2)\<close> fails.\<close>

definition client_main ::
  "byte list \<Rightarrow> (u64 \<Rightarrow> byte list) \<Rightarrow> csock option \<Rightarrow> string list \<Rightarrow> int outcome option" where
  "client_main junk malloc connected argv =
     (if length argv \<le> 2 then Some (Returned 1)
      else do {
        remote \<leftarrow> atoi (argv ! 2);
        (case connected of
           None \<Rightarrow> Some (Returned 0)
         | Some sock \<Rightarrow>
             if remote = 0
             then do {
               r \<leftarrow> test_local_ocssd sock;
               Some (case r of Returned _ \<Rightarrow> Returned 0 | Blocked s \<Rightarrow> Blocked s) }
             else do {
               r \<leftarrow> test_remote_ocssd junk malloc sock;
               Some (case r of Returned _ \<Rightarrow> Returned 0 | Blocked s \<Rightarrow> Blocked s) }) })"

text \<open>The older test client (\<^verbatim>\<open>src/client.cc\<close>): it sends a buffer of \<^verbatim>\<open>'a'\<close>s and receives once
  into an uninitialised buffer.\<close>

definition echo_main :: "byte list \<Rightarrow> csock option \<Rightarrow> string list \<Rightarrow> (int \<times> byte list) outcome option" where
  "echo_main junk connected argv =
     (if length argv \<le> 2 then Some (Returned (1, []))
      else do {
        _ \<leftarrow> atoi (argv ! 2);
        (case connected of
           None \<Rightarrow> Some (Returned (0, []))
         | Some sock \<Rightarrow>
             (let sock = sock_send sock (replicate BUFFER_SIZE 97) in
              case sock_recv BUFFER_SIZE (sk_in sock) of
                None \<Rightarrow> Some (Blocked sock)
              | Some (r, inp) \<Rightarrow> do {
                  buf2 \<leftarrow> (case r of Got bs \<Rightarrow> poke junk 0 bs | _ \<Rightarrow> Some junk);
                  _ \<leftarrow> peek buf2 0 1;
                  _ \<leftarrow> peek buf2 (BUFFER_SIZE - 1) 1;
                  Some (Returned (0, buf2)) })) })"

section \<open>What the client sends and receives\<close>

lemma sock_send_all: "sk_accept s = [] \<Longrightarrow> sock_send s bs = s\<lparr>sk_out := sk_out s @ bs\<rparr>"
  by (simp add: sock_send_def)

lemma sock_recv_whole:
  "bs \<noteq> [] \<Longrightarrow> length bs \<le> n \<Longrightarrow> n \<le> SSIZE_CAP \<Longrightarrow> sock_recv n (Data bs # cs) = Some (Got bs, cs)"
  by (cases bs) auto

lemma sock_recv_read: "arrived inp \<noteq> [] \<Longrightarrow> 0 < n \<Longrightarrow> sock_recv n inp = Some (sock_read n inp)"
  by (cases inp) auto

lemma request_serialized:
  "ocssd_alloc_request_serialize (replicate BUFFER_SIZE 0) rq = Some (alloc_image rq @ replicate 1000 0, 24)"
  by (simp add: alloc_serialize_image put_start BUFFER_SIZE_def)

lemma request_vssd_received:
  assumes "sk_accept s = []" "sk_in s = Data bs # cs" "bs \<noteq> []" "length bs \<le> BUFFER_SIZE"
    "virtual_ocssd_deserialize virtual_ocssd_new (bs @ drop (length bs) (alloc_image rq @ replicate 1000 0)) = Some (v, n)"
  shows "request_vssd s rq = Some (Returned (v, s\<lparr>sk_out := sk_out s @ alloc_image rq, sk_in := cs\<rparr>))"
proof -
  have "sock_recv BUFFER_SIZE (Data bs # cs) = Some (Got bs, cs)"
    using assms(3,4) by (intro sock_recv_whole) (simp_all add: BUFFER_SIZE_def SSIZE_CAP_def)
  moreover have "poke (alloc_image rq @ replicate 1000 0) 0 bs =
      Some (bs @ drop (length bs) (alloc_image rq @ replicate 1000 0))"
    using assms(4) by (simp add: poke_def BUFFER_SIZE_def)
  ultimately show ?thesis
    using assms by (simp add: request_vssd_def request_serialized sock_send_all)
qed

lemma BUFFER_SIZE_pos [simp]: "BUFFER_SIZE \<noteq> 0"
  by (simp add: BUFFER_SIZE_def)

lemma request_vssd_blocked:
  "sk_accept s = [] \<Longrightarrow> sk_in s = [] \<Longrightarrow>
   request_vssd s rq = Some (Blocked (s\<lparr>sk_out := sk_out s @ alloc_image rq\<rparr>))"
  by (simp add: request_vssd_def request_serialized sock_send_all)

lemma get_unit_hd: "v_units v = vu # vus \<Longrightarrow> get_unit v 0 = Some vu"
  by (simp add: get_unit_def)

lemma send_request_sent:
  assumes "io_command_magic (io_command r) = Some magic" "24 \<le> length junk" "sk_accept s = []"
  shows "send_request junk s r = Some (s\<lparr>sk_out := sk_out s @ io_image magic r\<rparr>)"
  using assms by (simp add: send_request_def io_serialize_image put_start sock_send_all)

lemma recv_loop_arrived:
  assumes "received < count" "count \<le> length data_buf" "count - received \<le> length (arrived (sk_in s))"
  shows "\<exists>inp. recv_loop count data_buf received s =
      Some (Returned (take received data_buf @ take (count - received) (arrived (sk_in s)) @ drop count data_buf,
        count, s\<lparr>sk_in := inp\<rparr>)) \<and>
    arrived inp = drop (count - received) (arrived (sk_in s))"
  using assms
proof (induction count data_buf received s rule: recv_loop.induct)
  case (1 count data_buf received s)
  have "arrived (sk_in s) \<noteq> []" using 1(2,4) by auto
  moreover from this obtain bs inp where r: "sock_read (count - received) (sk_in s) = (Got bs, inp)"
    using sock_read_some by blast
  ultimately have rr: "sock_recv (count - received) (sk_in s) = Some (Got bs, inp)"
    using sock_recv_read 1(2) by simp
  have bs: "bs \<noteq> []" "length bs \<le> count - received" "arrived (sk_in s) = bs @ arrived inp"
    using sock_read_progress [OF r] sock_read_Got [OF r] 1(2) by auto
  let ?m = "take received data_buf @ bs @ drop (received + length bs) data_buf"
  have p: "poke data_buf received bs = Some ?m" using bs(2) 1(2,3) by (simp add: poke_def)
  show ?case
  proof (cases "count \<le> received + length bs")
    case True
    then have "received + length bs = count" "count - received = length bs" using bs(2) 1(2) by auto
    then show ?thesis using rr bs p by (intro exI [of _ inp], subst recv_loop.simps) simp
  next
    case False
    let ?s = "s\<lparr>sk_in := inp\<rparr>"
    have step: "recv_loop count data_buf received s = recv_loop count ?m (received + length bs) ?s"
      using rr bs(1) p False by (subst recv_loop.simps) simp
    have len: "received + length bs < count" "count \<le> length ?m"
      "count - (received + length bs) \<le> length (arrived (sk_in ?s))"
      using False bs 1(2,3,4) by auto
    have t: "take (received + length bs) ?m = take received data_buf @ bs" "drop count ?m = drop count data_buf"
      using 1(2,3) len(1) by simp_all
    have k: "take (count - received) (arrived (sk_in s)) = bs @ take (count - (received + length bs)) (arrived (sk_in ?s))"
      "drop (count - received) (arrived (sk_in s)) = drop (count - (received + length bs)) (arrived (sk_in ?s))"
      using bs by auto
    from 1(1) [OF rr refl refl bs(1) p False len] show ?thesis
      unfolding step t k append_assoc by simp
  qed
qed

text \<open>To the server such a buffer is a command with an unknown header: it is dropped, 24 bytes at a time, and
  nothing is sent back.\<close>

lemma unknown_command:
  assumes "conn_ready c" "arrived inp = replicate 24 97 @ rest"
  shows "\<exists>inp'. process_incoming_requests pf c w inp =
    (Some (Inr (-1, c\<lparr>cn_message_buf := replicate 24 97\<rparr>, w)), inp') \<and> arrived inp' = rest"
proof -
  obtain inp' where 1: "process_incoming_requests pf c w inp = dispatch pf (c\<lparr>cn_message_buf := replicate 24 97\<rparr>) w inp'"
    "arrived inp' = rest"
    by (rule incoming_dispatch [OF assms, of pf w]) (simp add: MESSAGE_BUFFER_SIZE_def)
  have "take 4 (replicate 24 (97 :: byte)) = [97, 97, 97, 97]" by (simp add: numeral_eq_Suc)
  then have "get_header (replicate 24 97) = Some 0x61616161" by (simp add: get_header_def peek_def)
  then show ?thesis using 1 by (simp add: dispatch_def magic_defs)
qed

definition sample_sock :: csock where
  "sample_sock = \<lparr>sk_in = [], sk_out = [], sk_accept = []\<rparr>"

lemma sample_grant:
  obtains n v rq' m' where
    "alloc_ocssd_resource sample_manager virtual_ocssd_new (ocssd_alloc_request_new 4 1024 1 0 0) = Some (n, v, rq', m')"
    "n \<noteq> 0" "vssd_width v \<le> BUFFER_SIZE" "length (v_units v) = 1"
proof -
  let ?rq = "ocssd_alloc_request_new 4 1024 1 0 0"
  obtain n v rq' m' where r: "alloc_ocssd_resource sample_manager virtual_ocssd_new ?rq = Some (n, v, rq', m')"
    using alloc_ocssd_resource_grant [OF sample_manager_inv] by metis
  have "map_option (\<lambda>(n, v, _). (n, vssd_width v \<le> BUFFER_SIZE, length (v_units v)))
      (alloc_ocssd_resource sample_manager virtual_ocssd_new ?rq) = Some (4, True, 1)" by code_simp
  then show thesis using r by (intro that [of n v rq' m']) simp_all
qed

lemma sample_sides:
  "sk_accept sample_sock = []" "cn_writeq sample_conn = []" "w_manager (sample_world m) = m"
  "arrived [Data (alloc_image rq)] = alloc_image rq"
  using length_alloc_image [of rq]
  by (simp_all add: sample_sock_def sample_conn_def ocssd_conn_new_def sample_world_def arrived_Data
      flip: length_0_conv del: length_alloc_image)

text \<open>A description with one unit that has no name and no channels.\<close>

definition hollow_unit :: virtual_ocssd_unit where
  "hollow_unit = \<lparr>vu_dev_name = [], vu_geo = \<lparr>nchannels = 0, nluns = 0, nplanes = 0, nblocks = 0, npages = 0,
     nsectors = 0, page_nbytes = 0, sector_nbytes = 0, meta_nbytes = 0\<rparr>, vu_channels = []\<rparr>"

lemma le_enc_0: "le_enc n 0 = replicate n 0"
  by (induction n) simp_all

lemma head_only:
  assumes "length (v_units v) = 1"
  shows "virtual_ocssd_deserialize virtual_ocssd_new
      (vssd_head v @ drop 12 (alloc_image (ocssd_alloc_request_new 4 1024 1 0 0) @ replicate 1000 0)) =
    Some (\<lparr>v_id = v_id v, v_units = [hollow_unit]\<rparr>, 96)"
proof -
  let ?v = "\<lparr>v_id = v_id v, v_units = [hollow_unit]\<rparr>" and ?us = "le_enc 4 1 @ replicate 80 0"
  have z: "c_str [] @ replicate 3 0 = replicate 4 (0 :: byte)"
    by (simp add: c_str_def numeral_eq_Suc)
  have "unit_img hollow_unit ?us"
    unfolding unit_img_def
    by (intro exI [of _ "replicate 3 0"] exI [of _ "[]"])
      (simp add: hollow_unit_def geo_image_def le_enc_0 z replicate_add [symmetric] flip: append_assoc)
  then have img: "imgs unit_img (v_units ?v) ?us" by simp
  have ok: "vssd_ok ?v" by (simp add: vssd_ok_def unit_ok_def hollow_unit_def)
  have "drop 12 (alloc_image (ocssd_alloc_request_new 4 1024 1 0 0) @ replicate 1000 0) = le_enc 4 1 @ replicate 1008 0"
    by (simp add: alloc_image_def ocssd_alloc_request_new_def le_enc_0 replicate_add [symmetric])
  moreover have "vssd_head ?v = vssd_head v" using assms by (simp add: vssd_head_def)
  moreover have "replicate 1008 (0 :: byte) = replicate 80 0 @ replicate 928 0"
    by (simp add: replicate_add [symmetric])
  ultimately show ?thesis
    using vssd_deserialize_reads [OF ok img, of _ virtual_ocssd_new]
    by (simp add: reads_start_iff virtual_ocssd_new_def)
qed

section \<open>A block that keeps what is written\<close>

text \<open>What liblightnvm documents of a virtual block: erasing it makes it writable from its start, a write
  of at most its size stores the data, and a read of that range returns them.\<close>

definition block_stores :: "('a, 'd) nvm \<Rightarrow> nvm_vblk \<Rightarrow> nat \<Rightarrow> bool" where
  "block_stores lib blk nbytes \<longleftrightarrow>
     (\<forall>d. \<exists>r d'. nvm_vblk_erase lib d blk = Some (r, d') \<and>
       (\<forall>xs. length xs \<le> nbytes \<longrightarrow> (\<exists>r' d''. nvm_vblk_write lib d' blk xs = Some (r', d'') \<and>
         (\<exists>r3 d3. nvm_vblk_pread lib d'' blk (word_of_nat (length xs)) 0 = Some (r3, xs, d3)))))"

text \<open>The server's read callback, \<open>n\<close> times.\<close>

fun serve :: "('a, 'd) platform \<Rightarrow> nat \<Rightarrow> ocssd_conn \<Rightarrow> 'd world \<Rightarrow> chunk list \<Rightarrow> (ocssd_conn \<times> 'd world \<times> chunk list) option" where
  "serve pf 0 c w inp = Some (c, w, inp)"
| "serve pf (Suc n) c w inp =
     (case process_incoming_requests pf c w inp of
        (Some (Inr (_, c', w')), inp') \<Rightarrow> serve pf n c' w' inp'
      | _ \<Rightarrow> None)"

lemma serve_step:
  "process_incoming_requests pf c w inp = (Some (Inr (r, c', w')), inp') \<Longrightarrow>
   serve pf (Suc n) c w inp = serve pf n c' w' inp'"
  by simp

text \<open>The three messages of \<^verbatim>\<open>test_remote_ocssd\<close> behind the allocation, for any block and
  any data.\<close>

definition block_exchange :: "u32 \<Rightarrow> u64 \<Rightarrow> byte list \<Rightarrow> byte list" where
  "block_exchange i n xs =
     io_image ERASE_BLOCK_MAGIC (ocssd_io_request_new ERASE_BLOCK_REQUEST i 0 0) @
     (io_image WRITE_BLOCK_MAGIC (ocssd_io_request_new WRITE_BLOCK_REQUEST i n 0) @ xs) @
     io_image READ_BLOCK_MAGIC (ocssd_io_request_new READ_BLOCK_REQUEST i n 0)"

lemma io_new_simps [simp]:
  "io_command (ocssd_io_request_new cmd i n off) = cmd" "io_block_index (ocssd_io_request_new cmd i n off) = i"
  "io_count (ocssd_io_request_new cmd i n off) = n" "io_offset (ocssd_io_request_new cmd i n off) = off"
  by (simp_all add: ocssd_io_request_new_def)

lemma io_new_serialized:
  "io_command_magic (io_command r) = Some magic \<Longrightarrow>
   ocssd_io_request_serialize (replicate 24 0) r = Some (io_image magic r, REQUEST_IO_SIZE)"
  by (simp add: io_serialize_image put_start REQUEST_IO_SIZE_def)

lemma conn_ready_message: "conn_ready c \<Longrightarrow> length m = 24 \<Longrightarrow> conn_ready (c\<lparr>cn_message_buf := m\<rparr>)"
  by (simp add: conn_ready_def MESSAGE_BUFFER_SIZE_def)

lemma serve_block_exchange:
  assumes "conn_ready c" "malloc_ok pf" "unat i < length (cn_blks_array c)" "cn_blks_array c ! unat i = blk"
    "blk \<noteq> NULL" "block_stores (pf_nvm pf) blk nbytes" "length xs \<le> nbytes" "length xs = unat n"
    "arrived inp = block_exchange i n xs @ rest"
  obtains c' w' inp' reply where "serve pf 3 c w inp = Some (c', w', inp')" "arrived inp' = rest"
    "cn_writeq c' = cn_writeq c @ [reply]" "bq_rest reply = xs" "w_manager w' = w_manager w"
proof -
  let ?e = "ocssd_io_request_new ERASE_BLOCK_REQUEST i 0 0" and ?w = "ocssd_io_request_new WRITE_BLOCK_REQUEST i n 0"
    and ?r = "ocssd_io_request_new READ_BLOCK_REQUEST i n 0"
  let ?me = "io_image ERASE_BLOCK_MAGIC ?e" and ?mw = "io_image WRITE_BLOCK_MAGIC ?w" and ?mr = "io_image READ_BLOCK_MAGIC ?r"
  have len: "length (replicate 24 (0 :: byte)) = REQUEST_IO_SIZE" by (simp add: REQUEST_IO_SIZE_def)
  have mal: "length (pf_malloc pf n) = unat n" using assms(2) by (simp add: malloc_ok_def)
  have n: "word_of_nat (length xs) = n" using assms(8) by simp
  obtain r1 d1 r2 d2 r3 d3 where lib: "nvm_vblk_erase (pf_nvm pf) (w_dev w) blk = Some (r1, d1)"
    "nvm_vblk_write (pf_nvm pf) d1 blk xs = Some (r2, d2)" "nvm_vblk_pread (pf_nvm pf) d2 blk n 0 = Some (r3, xs, d3)"
    using assms(6,7) n unfolding block_stores_def by metis
  let ?c1 = "c\<lparr>cn_message_buf := ?me\<rparr>" and ?c2 = "c\<lparr>cn_message_buf := ?mw\<rparr>" and ?c3 = "c\<lparr>cn_message_buf := ?mr\<rparr>"
  have ready: "conn_ready ?c1" "conn_ready ?c2" using conn_ready_message [OF assms(1)] by simp_all
  obtain inp1 where 1: "process_incoming_requests pf c w inp = (Some (Inr (0, ?c1, w\<lparr>w_dev := d1\<rparr>)), inp1)"
    "arrived inp1 = ?mw @ xs @ ?mr @ rest"
    using erase_handled [OF assms(1) len, of ?e ?me inp "?mw @ xs @ ?mr @ rest" blk pf w r1 d1]
      io_new_serialized [of ?e ERASE_BLOCK_MAGIC] assms(3-5,9) lib(1) by (auto simp: block_exchange_def)
  obtain inp2 where 2: "process_incoming_requests pf ?c1 (w\<lparr>w_dev := d1\<rparr>) inp1 =
      (Some (Inr (0, ?c2, w\<lparr>w_dev := d2\<rparr>)), inp2)" "arrived inp2 = ?mr @ rest"
    using write_handled [OF ready(1) len, of ?w ?mw inp1 xs "?mr @ rest" blk pf "w\<lparr>w_dev := d1\<rparr>" r2 d2]
      io_new_serialized [of ?w WRITE_BLOCK_MAGIC] assms(3-5,8) lib(2) 1(2) mal by auto
  obtain reply inp3 where 3: "process_incoming_requests pf ?c2 (w\<lparr>w_dev := d2\<rparr>) inp2 =
      (Some (Inr (0, ?c3\<lparr>cn_writeq := cn_writeq c @ [reply], cn_ev_write := True\<rparr>, w\<lparr>w_dev := d3\<rparr>)), inp3)"
    "arrived inp3 = rest" "bq_len reply = n" "bq_offset reply = 0" "bq_buf reply = xs"
    using read_handled [OF ready(2) len, of ?r ?mr inp2 rest blk pf "w\<lparr>w_dev := d2\<rparr>" r3 xs d3]
      io_new_serialized [of ?r READ_BLOCK_MAGIC] assms(3-5,8) lib(3) 2(2) mal by auto
  have s: "serve pf 3 c w inp =
      Some (?c3\<lparr>cn_writeq := cn_writeq c @ [reply], cn_ev_write := True\<rparr>, w\<lparr>w_dev := d3\<rparr>, inp3)"
    unfolding numeral_3_eq_3 serve_step [OF 1(1)] serve_step [OF 2(1)] serve_step [OF 3(1)] by simp
  show thesis by (rule that [OF s, of reply]) (use 3 assms(8) in \<open>simp_all add: bq_rest_def\<close>)
qed

lemma test_write_block_sent:
  assumes "sk_accept s = []" "24 \<le> length junk" "length (malloc n) = unat n"
  shows "test_write_block junk malloc s i n = Some (0, s\<lparr>sk_out := sk_out s @
    io_image WRITE_BLOCK_MAGIC (ocssd_io_request_new WRITE_BLOCK_REQUEST i n 0) @ replicate (unat n) 97\<rparr>)"
  using assms send_request_sent [of "ocssd_io_request_new WRITE_BLOCK_REQUEST i n 0" WRITE_BLOCK_MAGIC junk s]
  by (simp add: test_write_block_def poke_def sock_send_all)

lemma test_erase_block_sent:
  assumes "sk_accept s = []" "24 \<le> length junk"
  shows "test_erase_block junk s i = Some (0, s\<lparr>sk_out := sk_out s @
    io_image ERASE_BLOCK_MAGIC (ocssd_io_request_new ERASE_BLOCK_REQUEST i 0 0)\<rparr>)"
  using assms send_request_sent [of "ocssd_io_request_new ERASE_BLOCK_REQUEST i 0 0" ERASE_BLOCK_MAGIC junk s]
  by (simp add: test_erase_block_def)

lemma test_read_block_received:
  assumes "sk_accept s = []" "24 \<le> length junk" "length (malloc n) = unat n" "0 < unat n"
    "arrived (sk_in s) = ys @ rest" "length ys = unat n"
  obtains inp where "test_read_block junk malloc s i n 0 = Some (Returned (0, ys, s\<lparr>sk_in := inp, sk_out := sk_out s @
    io_image READ_BLOCK_MAGIC (ocssd_io_request_new READ_BLOCK_REQUEST i n 0)\<rparr>))" "arrived inp = rest"
proof -
  let ?s = "s\<lparr>sk_out := sk_out s @ io_image READ_BLOCK_MAGIC (ocssd_io_request_new READ_BLOCK_REQUEST i n 0)\<rparr>"
  obtain inp where r: "recv_loop (unat n) (replicate (unat n) 98) 0 ?s = Some (Returned (ys, unat n, ?s\<lparr>sk_in := inp\<rparr>))"
    "arrived inp = rest"
    using recv_loop_arrived [of 0 "unat n" "replicate (unat n) 98" ?s] assms(4-6) by auto
  have "n \<noteq> 0" using assms(4) by auto
  then have "unat (n - 1) = unat n - 1" by (rule unat_minus_one)
  then have "peek ys 0 1 \<noteq> None" "peek ys (unat (n - 1)) 1 \<noteq> None"
    using assms(4,6) by (simp_all add: peek_def)
  then have "test_read_block junk malloc s i n 0 = Some (Returned (0, ys, ?s\<lparr>sk_in := inp\<rparr>))"
    using assms(3) r(1) send_request_sent [of "ocssd_io_request_new READ_BLOCK_REQUEST i n 0" READ_BLOCK_MAGIC junk s]
      assms(1,2) by (auto simp: test_read_block_def poke_def)
  then show thesis using that [of inp] r(2) by simp
qed

text \<open>The bytes of a whole remote session, and the server's side of it.\<close>

definition remote_session :: "byte list" where
  "remote_session = alloc_image (ocssd_alloc_request_new 4 1024 1 0 1) @
     block_exchange 0 1048576 (replicate (unat (1048576 :: u64)) 97)"

lemma serve_session:
  assumes "conn_ready c" "cn_writeq c = []" "cn_blks_array c = []" "manager_inv (w_manager w)" "malloc_ok pf"
    "reliable (pf_nvm pf)" "\<forall>b. b \<noteq> NULL \<longrightarrow> block_stores (pf_nvm pf) b 1048576"
    "\<forall>u\<in>set (mg_ocssds (w_manager w)). pf_dev_open pf (du_name u) = Some (du_geo u)"
    "alloc_ocssd_resource (w_manager w) virtual_ocssd_new (ocssd_alloc_request_new 4 1024 1 0 1) = Some (n, v, rq', m')"
    "n \<noteq> 0" "vssd_width v \<le> BUFFER_SIZE"
    "0 < rounds (ranges (vu_geo (hd (v_units v))) (vu_channels (hd (v_units v))))"
    "arrived inp = remote_session @ rest"
  obtains c' w' inp' reply where "serve pf 4 c w inp = Some (c', w', inp')" "arrived inp' = rest"
    "pending c' = reply @ replicate (unat (1048576 :: u64)) 97" "length reply = vssd_width v" "w_manager w' = m'"
    "\<forall>tail. virtual_ocssd_deserialize virtual_ocssd_new (reply @ tail) = Some (v, vssd_width v)"
proof -
  let ?rq = "ocssd_alloc_request_new 4 1024 1 0 1" and ?xs = "replicate (unat (1048576 :: u64)) (97 :: byte)"
  obtain inp1 where 0: "process_incoming_requests pf c w inp = dispatch pf (c\<lparr>cn_message_buf := alloc_image ?rq\<rparr>) w inp1"
    "arrived inp1 = block_exchange 0 1048576 ?xs @ rest"
    by (rule incoming_dispatch [OF assms(1), of inp "alloc_image ?rq" "block_exchange 0 1048576 ?xs @ rest" pf w])
      (use assms(13) in \<open>simp_all add: remote_session_def MESSAGE_BUFFER_SIZE_def\<close>)
  let ?c = "c\<lparr>cn_message_buf := alloc_image ?rq\<rparr>"
  have pre: "reply_buffer_ok pf" "cn_message_buf ?c = alloc_image ?rq" "rq_remote ?rq \<noteq> 0" "conn_ready ?c"
    "vssd_width v \<le> unat VSSD_BUFFER_SIZE" "cn_blks_array ?c = []"
    using assms(1,3,5,11) conn_ready_message [OF assms(1)] by (simp_all add: reply_buffer_ok_def malloc_ok_def
        ocssd_alloc_request_new_def VSSD_BUFFER_SIZE_val BUFFER_SIZE_def)
  from remote_alloc_handled [OF assms(4) pre(1,2) assms(9,10) pre(3,5) assms(6,8) pre(6)]
  obtain vu vus reply c1 w1 where 1: "v_units v = vu # vus" "process_alloc_request pf ?c w = Some (Inr (0, c1, w1))"
    "cn_writeq c1 = cn_writeq ?c @ [reply]" "bq_offset reply = 0" "unat (bq_len reply) = vssd_width v"
    "unat (bq_len reply) \<le> length (bq_buf reply)" "\<forall>tail. virtual_ocssd_deserialize virtual_ocssd_new
      (take (unat (bq_len reply)) (bq_buf reply) @ tail) = Some (v, unat (bq_len reply))"
    "conn_ready ?c \<longrightarrow> conn_ready c1" "length (cn_blks_array c1) = rounds (ranges (vu_geo vu) (vu_channels vu))"
    "NULL \<notin> set (cn_blks_array c1)" "w_manager w1 = m'" by (elim exE conjE) (rule that)
  have b: "unat (0 :: u32) < length (cn_blks_array c1)" using 1(1,9) assms(12) by simp
  then have nn: "cn_blks_array c1 ! 0 \<noteq> NULL" using 1(10) nth_mem by fastforce
  obtain c' w' inp' r2 where 2: "serve pf 3 c1 w1 inp1 = Some (c', w', inp')" "arrived inp' = rest"
    "cn_writeq c' = cn_writeq c1 @ [r2]" "bq_rest r2 = ?xs" "w_manager w' = w_manager w1"
    by (rule serve_block_exchange [OF mp [OF 1(8) pre(4)] assms(5) b refl _ _ _ _ 0(2), where nbytes = 1048576])
      (use nn assms(7) in simp_all)
  have s: "serve pf 4 c w inp = Some (c', w', inp')"
    using 0(1) 1(2) 2(1) dispatch_alloc [OF pre(2), of pf w inp1] by (simp add: numeral_eq_Suc)
  show thesis
    by (rule that [OF s 2(2), of "take (vssd_width v) (bq_buf reply)"])
      (use 1 2(3-5) assms(2) in \<open>simp_all add: pending_def bq_rest_def\<close>)
qed

text \<open>A library that keeps the blocks in memory: the last handle and the content of each block.\<close>

definition memory_nvm :: "(u32 \<times> u32 \<times> u32, nat \<times> (nat \<Rightarrow> byte list)) nvm" where
  "memory_nvm = \<lparr>set_addr = (\<lambda>c l b. (c, l, b)), nvm_buf_alloc = (\<lambda>n. []),
     nvm_vblk_alloc = (\<lambda>d dev as. (Suc (fst d), Suc (fst d), snd d)), nvm_vblk_free = (\<lambda>d b. Some d),
     nvm_vblk_get_nbytes = (\<lambda>d b. Some 1048576), nvm_vblk_erase = (\<lambda>d b. Some (0, fst d, (snd d)(b := []))),
     nvm_vblk_write = (\<lambda>d b xs. Some (int (length xs), fst d, (snd d)(b := snd d b @ xs))),
     nvm_vblk_read = (\<lambda>d b n. Some (int (unat n), take (unat n) (snd d b), d)),
     nvm_vblk_pread = (\<lambda>d b n off. Some (int (unat n), take (unat n) (drop (unat off) (snd d b)), d))\<rparr>"

lemma memory_nvm_ok: "reliable memory_nvm" "block_stores memory_nvm b 1048576"
proof -
  show "reliable memory_nvm" by (simp add: reliable_def memory_nvm_def NULL_def)
  have "unat (word_of_nat (length xs) :: u64) = length xs" if "length xs \<le> 1048576" for xs :: "byte list"
    using that by (intro unat_of_nat_less) simp
  then show "block_stores memory_nvm b 1048576" by (simp add: block_stores_def memory_nvm_def)
qed

definition memory_platform :: "(u32 \<times> u32 \<times> u32, nat \<times> (nat \<Rightarrow> byte list)) platform" where
  "memory_platform = \<lparr>pf_nvm = memory_nvm, pf_dev_open = (\<lambda>_. Some sample_geo),
     pf_malloc = (\<lambda>n. replicate (unat n) 0)\<rparr>"

definition memory_world :: "(nat \<times> (nat \<Rightarrow> byte list)) world" where
  "memory_world = \<lparr>w_manager = sample_manager, w_dev = (0, \<lambda>_. []), w_published = []\<rparr>"

lemma sample_remote_grant:
  obtains n v rq' m' where
    "alloc_ocssd_resource sample_manager virtual_ocssd_new (ocssd_alloc_request_new 4 1024 1 0 1) = Some (n, v, rq', m')"
    "n \<noteq> 0" "vssd_width v \<le> BUFFER_SIZE"
    "0 < rounds (ranges (vu_geo (hd (v_units v))) (vu_channels (hd (v_units v))))"
proof -
  let ?rq = "ocssd_alloc_request_new 4 1024 1 0 1"
  obtain n v rq' m' where r: "alloc_ocssd_resource sample_manager virtual_ocssd_new ?rq = Some (n, v, rq', m')"
    using alloc_ocssd_resource_grant [OF sample_manager_inv] by metis
  have "map_option (\<lambda>(n, v, _). (n, vssd_width v \<le> BUFFER_SIZE,
      0 < rounds (ranges (vu_geo (hd (v_units v))) (vu_channels (hd (v_units v))))))
      (alloc_ocssd_resource sample_manager virtual_ocssd_new ?rq) = Some (4, True, True)" by code_simp
  then show thesis using r by (intro that [of n v rq' m']) simp_all
qed

lemma sample_devices_open: "\<forall>u\<in>set (mg_ocssds sample_manager). du_geo u = sample_geo"
proof -
  have "list_all (\<lambda>u. du_geo u = sample_geo) (mg_ocssds sample_manager)" by code_simp
  then show ?thesis by (simp add: list_all_iff)
qed

section \<open>Theorems\<close>

text \<open>C7: The client and the server together.  The request the client sends, arriving in any pieces,
  makes the server queue a reply; when the reply arrives in one piece, the client returns with exactly
  the virtual SSD that the manager granted, and prints the channels of its first unit.\<close>

theorem local_client_exchange:
  assumes "conn_ready c" and "cn_writeq c = []" and "manager_inv (w_manager w)" and "reply_buffer_ok pf"
    and "alloc_ocssd_resource (w_manager w) virtual_ocssd_new (ocssd_alloc_request_new 4 1024 1 0 0) =
      Some (n, v, rq', m')" and "n \<noteq> 0" and "vssd_width v \<le> BUFFER_SIZE"
    and "sk_accept s = []" and "arrived inp = alloc_image (ocssd_alloc_request_new 4 1024 1 0 0)"
  shows "\<exists>c' w' inp'. process_incoming_requests pf c w inp = (Some (Inr (0, c', w')), inp') \<and> w_manager w' = m' \<and>
    (\<forall>cs. test_local_ocssd (s\<lparr>sk_in := Data (pending c') # cs\<rparr>) =
       Some (Returned (0, map channel_report (vu_channels (hd (v_units v))), v,
         s\<lparr>sk_in := cs, sk_out := sk_out s @ arrived inp\<rparr>)))"
proof -
  let ?rq = "ocssd_alloc_request_new 4 1024 1 0 0"
  have rq: "length (replicate 24 (0 :: byte)) = REQUEST_ALLOC_SIZE" "rq_remote ?rq = 0"
    "ocssd_alloc_request_serialize (replicate 24 0) ?rq = Some (alloc_image ?rq, REQUEST_ALLOC_SIZE)"
    "arrived inp = alloc_image ?rq @ []" "vssd_width v \<le> unat VSSD_BUFFER_SIZE"
    using assms(7,9) by (simp_all add: REQUEST_ALLOC_SIZE_def alloc_serialize_image put_start
        ocssd_alloc_request_new_def VSSD_BUFFER_SIZE_val BUFFER_SIZE_def)
  obtain reply c' w' inp' where h: "process_incoming_requests pf c w inp = (Some (Inr (0, c', w')), inp')"
    "cn_writeq c' = cn_writeq c @ [reply]" "bq_offset reply = 0" "w_manager w' = m'"
    "unat (bq_len reply) = vssd_width v" "unat (bq_len reply) \<le> length (bq_buf reply)"
    "\<forall>tail. virtual_ocssd_deserialize virtual_ocssd_new (take (unat (bq_len reply)) (bq_buf reply) @ tail) =
      Some (v, unat (bq_len reply))"
    using local_alloc_reply [OF assms(1,3,4) rq(1,3,4,2) assms(5,6) rq(5)] by (elim exE conjE) (rule that)
  have p: "pending c' = take (vssd_width v) (bq_buf reply)" "length (pending c') = vssd_width v"
    using h(2,3,5,6) assms(2) by (simp_all add: pending_def bq_rest_def)
  then have ne: "pending c' \<noteq> []" by (auto simp: vssd_width_def)
  obtain vu vus where vu: "v_units v = vu # vus"
    using alloc_granted(2) [OF assms(3,5,6)] by (cases "v_units v") auto
  have "request_vssd (s\<lparr>sk_in := Data (pending c') # cs\<rparr>) ?rq =
      Some (Returned (v, s\<lparr>sk_in := cs, sk_out := sk_out s @ alloc_image ?rq\<rparr>))" for cs
    by (subst request_vssd_received [where bs = "pending c'" and cs = cs and v = v and n = "vssd_width v"])
      (use h(5,7) p ne assms(7,8) in simp_all)
  then have "test_local_ocssd (s\<lparr>sk_in := Data (pending c') # cs\<rparr>) =
       Some (Returned (0, map channel_report (vu_channels (hd (v_units v))), v,
         s\<lparr>sk_in := cs, sk_out := sk_out s @ arrived inp\<rparr>))" for cs
    using vu assms(9) by (simp add: test_local_ocssd_def get_unit_hd)
  then show ?thesis using h(1,4) by blast
qed

theorem local_client_exchange_witness:
  "\<exists>c' w' inp' v s'. process_incoming_requests sample_platform sample_conn (sample_world sample_manager)
      [Data (alloc_image (ocssd_alloc_request_new 4 1024 1 0 0))] = (Some (Inr (0, c', w')), inp') \<and>
    test_local_ocssd (sample_sock\<lparr>sk_in := [Data (pending c')]\<rparr>) =
      Some (Returned (0, map channel_report (vu_channels (hd (v_units v))), v, s'))"
proof -
  obtain n v rq' m' where g: "alloc_ocssd_resource sample_manager virtual_ocssd_new
      (ocssd_alloc_request_new 4 1024 1 0 0) = Some (n, v, rq', m')" "n \<noteq> 0" "vssd_width v \<le> BUFFER_SIZE"
    by (rule sample_grant)
  from local_client_exchange [OF sample_platform_ok(2) sample_sides(2) _ sample_platform_ok(1) _ g(2,3) sample_sides(1,4),
      of "sample_world sample_manager" rq' m'] g(1) sample_manager_inv
  show ?thesis unfolding sample_sides(3) by fast
qed

text \<open>C37: The client calls \<^verbatim>\<open>recv\<close> once.  When the first piece of a reply for one unit is its
  12-byte head, the client decodes the rest from its own request, which is still in the buffer: it
  reports a device without name and channels, although the server granted it channels.\<close>

theorem client_short_reply:
  assumes "length (v_units v) = 1" and "sk_accept s = []" and "sk_in s = Data (vssd_head v) # cs"
  shows "\<exists>s'. test_local_ocssd s = Some (Returned (0, [], \<lparr>v_id = v_id v, v_units = [hollow_unit]\<rparr>, s')) \<and>
    sk_in s' = cs"
proof -
  have "vssd_head v \<noteq> []" using length_vssd_head [of v] by (auto simp del: length_vssd_head)
  then have "request_vssd s (ocssd_alloc_request_new 4 1024 1 0 0) =
      Some (Returned (\<lparr>v_id = v_id v, v_units = [hollow_unit]\<rparr>,
        s\<lparr>sk_out := sk_out s @ alloc_image (ocssd_alloc_request_new 4 1024 1 0 0), sk_in := cs\<rparr>))"
    using head_only [OF assms(1)]
    by (intro request_vssd_received [OF assms(2,3)]) (simp_all add: BUFFER_SIZE_def)
  then show ?thesis by (simp add: test_local_ocssd_def get_unit_def hollow_unit_def)
qed

theorem client_short_reply_witness:
  "\<exists>s'. test_local_ocssd (sample_sock\<lparr>sk_in := [Data (vssd_head sample_vssd)]\<rparr>) =
     Some (Returned (0, [], \<lparr>v_id = 1, v_units = [hollow_unit]\<rparr>, s'))"
  using client_short_reply [of sample_vssd "sample_sock\<lparr>sk_in := [Data (vssd_head sample_vssd)]\<rparr>" "[]"]
  by (auto simp: sample_sock_def sample_vssd_def)

text \<open>C38: A refused client waits for ever.  When the node has no channel left, the server neither
  replies nor closes the connection, and the client, with nothing to receive, does not return.\<close>

theorem refused_client_blocks:
  assumes "conn_ready c" and "cn_writeq c = []" and "manager_inv (w_manager w)"
    and "alloc_ocssd_resource (w_manager w) virtual_ocssd_new (ocssd_alloc_request_new 4 1024 1 0 0) =
      Some (0, v, rq', m')"
    and "sk_accept s = []" and "sk_in s = []" and "arrived inp = alloc_image (ocssd_alloc_request_new 4 1024 1 0 0)"
  shows "\<exists>c' w' inp'. process_incoming_requests pf c w inp = (Some (Inr (-1, c', w')), inp') \<and>
    cn_open c' = cn_open c \<and> pending c' = [] \<and>
    test_local_ocssd s = Some (Blocked (s\<lparr>sk_out := sk_out s @ arrived inp\<rparr>))"
  using alloc_refused [OF assms(1,3) _ assms(4), of inp "[]" pf] assms(2,7) request_vssd_blocked [OF assms(5,6)]
  by (auto simp: pending_def test_local_ocssd_def)

theorem refused_client_blocks_witness:
  "test_local_ocssd sample_sock =
     Some (Blocked (sample_sock\<lparr>sk_out := alloc_image (ocssd_alloc_request_new 4 1024 1 0 0)\<rparr>))"
proof -
  let ?m = "ocssd_manager_new []"
  have "alloc_ocssd_resource ?m virtual_ocssd_new (ocssd_alloc_request_new 4 1024 1 0 0) \<noteq> None \<and>
      map_option fst (alloc_ocssd_resource ?m virtual_ocssd_new (ocssd_alloc_request_new 4 1024 1 0 0)) = Some 0"
    by code_simp
  then obtain v rq' m' where "alloc_ocssd_resource ?m virtual_ocssd_new (ocssd_alloc_request_new 4 1024 1 0 0) =
      Some (0, v, rq', m')" by auto
  then show ?thesis
    using refused_client_blocks [OF sample_platform_ok(2) sample_sides(2) _ _ sample_sides(1) _ sample_sides(4),
        of "sample_world ?m" v rq' m' sample_platform] ocssd_manager_new_inv
    by (simp add: sample_sides(3,4)) (fastforce simp: sample_sock_def)
qed



end
