(* ===== verification/Service.thy ===== *)
theory Service
  imports Server
begin

text \<open>
  What the server promises as a whole, stated without devices, queues and messages: an allocation
  service.  Its state is the set of blocks it has given away and, per client, the answers it owes or
  has given.  A step lets a client join, grants blocks that nobody owns and answers with their
  description, or answers with the content of a block.  The server of \<^verbatim>\<open>Server\<close> is shown to
  simulate it: every event of the event loop is a step of the service or invisible, and the bytes
  queued for a client are the images of its answers.  So what holds for the service holds for the
  bytes on the wire: the virtual SSDs described to all clients never share a block.
\<close>

section \<open>Simulation\<close>

text \<open>The steps of the implementation are matched by steps of the specification, possibly none.\<close>

locale simulation =
  fixes cstep :: "'c \<Rightarrow> 'c \<Rightarrow> bool"
    and astep :: "'a \<Rightarrow> 'a \<Rightarrow> bool"
    and matches :: "'c \<Rightarrow> 'a \<Rightarrow> bool"
  assumes step_matched: "matches c a \<Longrightarrow> cstep c c' \<Longrightarrow> \<exists>a'. astep\<^sup>*\<^sup>* a a' \<and> matches c' a'"
begin

lemma run_matched: "cstep\<^sup>*\<^sup>* c c' \<Longrightarrow> matches c a \<Longrightarrow> \<exists>a'. astep\<^sup>*\<^sup>* a a' \<and> matches c' a'"
proof (induction rule: rtranclp_induct)
  case base
  then show ?case by blast
next
  case (step c1 c2)
  then obtain a1 where a1: "astep\<^sup>*\<^sup>* a a1" "matches c1 a1" by blast
  from step_matched [OF this(2) step.hyps(2)] obtain a2 where "astep\<^sup>*\<^sup>* a1 a2" "matches c2 a2" by blast
  with a1(1) show ?case by (meson rtranclp_trans)
qed

text \<open>An invariant of the specification holds, through the relation, of every run.\<close>

lemma invariant_transferred:
  assumes "cstep\<^sup>*\<^sup>* c c'" "matches c a" "I a" "\<And>a a'. I a \<Longrightarrow> astep a a' \<Longrightarrow> I a'"
  shows "\<exists>a'. astep\<^sup>*\<^sup>* a a' \<and> matches c' a' \<and> I a'"
proof -
  obtain a' where a': "astep\<^sup>*\<^sup>* a a'" "matches c' a'" using run_matched [OF assms(1,2)] by blast
  from a'(1) have "I a'" by (induction rule: rtranclp_induct) (use assms(3,4) in blast)+
  with a' show ?thesis by blast
qed

end

section \<open>The allocation service\<close>

datatype answer = Description virtual_ocssd | Content "byte list"

record service =
  sc_owned :: "node_block set"
  sc_answers :: "answer list list"

definition service_start :: "node_block set \<Rightarrow> service" where
  "service_start owned = \<lparr>sc_owned = owned, sc_answers = []\<rparr>"

definition give :: "nat \<Rightarrow> answer \<Rightarrow> answer list list \<Rightarrow> answer list list" where
  "give i r ass = ass[i := ass ! i @ [r]]"

inductive service_step :: "service \<Rightarrow> service \<Rightarrow> bool" where
  join: "service_step a (a\<lparr>sc_answers := sc_answers a @ [[]]\<rparr>)"
| grant: "i < length (sc_answers a) \<Longrightarrow> sc_owned a \<inter> vssd_blocks v = {} \<Longrightarrow>
    service_step a (a\<lparr>sc_owned := sc_owned a \<union> vssd_blocks v,
      sc_answers := give i (Description v) (sc_answers a)\<rparr>)"
| content: "i < length (sc_answers a) \<Longrightarrow>
    service_step a (a\<lparr>sc_answers := give i (Content bs) (sc_answers a)\<rparr>)"

text \<open>The position of an answer is its client and its number; \<open>described ass p v\<close>: the answer at
  \<open>p\<close> describes \<open>v\<close>.\<close>

definition described :: "answer list list \<Rightarrow> nat \<times> nat \<Rightarrow> virtual_ocssd \<Rightarrow> bool" where
  "described ass p v \<longleftrightarrow> (case p of (i, j) \<Rightarrow>
     i < length ass \<and> j < length (ass ! i) \<and> ass ! i ! j = Description v)"

definition service_inv :: "node_block set \<Rightarrow> service \<Rightarrow> bool" where
  "service_inv own0 a \<longleftrightarrow> own0 \<subseteq> sc_owned a \<and>
     sc_owned a - own0 = (\<Union>v\<in>{v. \<exists>p. described (sc_answers a) p v}. vssd_blocks v) \<and>
     (\<forall>p q v u. described (sc_answers a) p v \<longrightarrow> described (sc_answers a) q u \<longrightarrow> p \<noteq> q \<longrightarrow>
        vssd_blocks v \<inter> vssd_blocks u = {})"

lemma service_invD:
  assumes "service_inv own0 a"
  shows "own0 \<subseteq> sc_owned a"
    "sc_owned a - own0 = (\<Union>v\<in>{v. \<exists>p. described (sc_answers a) p v}. vssd_blocks v)"
    "\<forall>p q v u. described (sc_answers a) p v \<longrightarrow> described (sc_answers a) q u \<longrightarrow> p \<noteq> q \<longrightarrow>
       vssd_blocks v \<inter> vssd_blocks u = {}"
  by (rule conjunct1 [OF assms [unfolded service_inv_def]])
    (rule conjunct2 [OF assms [unfolded service_inv_def], THEN conjunct1],
     rule conjunct2 [OF assms [unfolded service_inv_def], THEN conjunct2])

lemma described_join: "described (ass @ [[]]) p v \<longleftrightarrow> described ass p v"
  by (cases p) (auto simp: described_def nth_append less_Suc_eq split: if_splits)

lemma described_give:
  assumes "i < length ass"
  shows "described (give i r ass) p v \<longleftrightarrow> described ass p v \<or> p = (i, length (ass ! i)) \<and> r = Description v"
  using assms by (cases p) (auto simp: described_def give_def nth_list_update nth_append less_Suc_eq split: if_splits)

lemma service_step_inv: "service_step a a' \<Longrightarrow> service_inv own0 a \<Longrightarrow> service_inv own0 a'"
proof (induction rule: service_step.induct)
  case (join a)
  then show ?case by (simp add: service_inv_def described_join)
next
  case (grant i a v)
  let ?d = "described (sc_answers a)" and ?p = "(i, length (sc_answers a ! i))"
  note inv = service_invD [OF grant.prems]
  have new: "described (give i (Description v) (sc_answers a)) p u \<longleftrightarrow> ?d p u \<or> p = ?p \<and> u = v" for p u
    using described_give [OF grant.hyps(1)] by auto
  have old: "vssd_blocks u \<inter> vssd_blocks v = {}" if "?d p u" for p u
  proof -
    have "vssd_blocks u \<subseteq> sc_owned a" using that inv(2) by blast
    then show ?thesis using grant.hyps(2) by blast
  qed
  have "(\<Union>u\<in>{u. \<exists>p. ?d p u \<or> p = ?p \<and> u = v}. vssd_blocks u) =
      (\<Union>u\<in>{u. \<exists>p. ?d p u}. vssd_blocks u) \<union> vssd_blocks v" by auto
  moreover have "vssd_blocks v \<inter> own0 = {}" using inv(1) grant.hyps(2) by blast
  ultimately have own: "(sc_owned a \<union> vssd_blocks v) - own0 =
      (\<Union>u\<in>{u. \<exists>p. described (give i (Description v) (sc_answers a)) p u}. vssd_blocks u)"
    unfolding new inv(2) [symmetric] by blast
  have sep: "vssd_blocks x \<inter> vssd_blocks y = {}"
    if "described (give i (Description v) (sc_answers a)) p x" "described (give i (Description v) (sc_answers a)) q y"
      "p \<noteq> q" for p q x y
    using that old inv(3) unfolding new by (metis Int_commute)
  have "own0 \<subseteq> sc_owned a \<union> vssd_blocks v" using inv(1) by blast
  with own sep show ?case unfolding service_inv_def by simp
next
  case (content i a bs)
  then show ?case by (simp add: service_inv_def described_give)
qed

section \<open>The server implements the service\<close>

text \<open>The bytes of an answer: a description decodes to the virtual SSD whatever follows it.\<close>

definition answer_image :: "answer \<Rightarrow> byte list \<Rightarrow> bool" where
  "answer_image r bs \<longleftrightarrow> (case r of
     Description v \<Rightarrow> \<forall>tail. virtual_ocssd_deserialize virtual_ocssd_new (bs @ tail) = Some (v, length bs)
   | Content xs \<Rightarrow> bs = xs)"

definition stream_image :: "answer list \<Rightarrow> byte list \<Rightarrow> bool" where
  "stream_image rs bs \<longleftrightarrow> (\<exists>bss. bs = concat bss \<and> list_all2 answer_image rs bss)"

lemma stream_image_Nil [simp]: "stream_image [] bs \<longleftrightarrow> bs = []"
  by (auto simp: stream_image_def)

lemma stream_image_snoc: "stream_image rs bs \<Longrightarrow> answer_image r xs \<Longrightarrow> stream_image (rs @ [r]) (bs @ xs)"
  unfolding stream_image_def by (metis concat.simps concat_append append_Nil2 list_all2_appendI list_all2_Cons list.rel_inject(1))

text \<open>A handler answered its client with at most one reply.\<close>

definition answered :: "ocssd_conn \<Rightarrow> ocssd_conn \<Rightarrow> answer option \<Rightarrow> bool" where
  "answered c c' r \<longleftrightarrow> (case r of
     None \<Rightarrow> cn_writeq c' = cn_writeq c
   | Some a \<Rightarrow> \<exists>bq. cn_writeq c' = cn_writeq c @ [bq] \<and> answer_image a (bq_rest bq))"

definition handled_ok :: "ocssd_conn \<Rightarrow> 'd world \<Rightarrow> ocssd_conn \<Rightarrow> 'd world \<Rightarrow> bool" where
  "handled_ok c w c' w' \<longleftrightarrow>
     (\<exists>r. answered c c' r \<and> manager_owned (w_manager w') = manager_owned (w_manager w) \<and> (\<forall>v. r \<noteq> Some (Description v))) \<or>
     (\<exists>v. answered c c' (Some (Description v)) \<and> manager_owned (w_manager w) \<inter> vssd_blocks v = {} \<and>
        manager_owned (w_manager w') = manager_owned (w_manager w) \<union> vssd_blocks v)"

lemma handled_quiet: "cn_writeq c' = cn_writeq c \<Longrightarrow> w_manager w' = w_manager w \<Longrightarrow> handled_ok c w c' w'"
  unfolding handled_ok_def answered_def by (intro disjI1 exI [of _ None]) simp

lemma no_channels_no_blocks: "vssd_channels vus = [] \<Longrightarrow> vunits_blocks vus = {}"
  by (auto simp: vssd_channels_def vunits_blocks_def vunit_blocks_def)

lemma process_alloc_handled:
  assumes "malloc_ok pf" "manager_inv (w_manager w)" "process_alloc_request pf c w = Some (Inr (ret, c', w'))"
  shows "handled_ok c w c' w'"
  using assms(2,3)
proof (cases rule: process_alloc_cases)
  case (1 rq n v rq' m)
  obtain k rq1 m1 vus where g: "alloc_ocssd_resource (w_manager w) virtual_ocssd_new rq =
      Some (k, \<lparr>v_id = mg_vssd_id (w_manager w), v_units = v_units virtual_ocssd_new @ vus\<rparr>, rq1, m1)"
    "unat k = length (vssd_channels vus)" "manager_owned m1 = manager_owned (w_manager w) \<union> vunits_blocks vus"
    by (rule alloc_ocssd_resource_grant [OF assms(2), of virtual_ocssd_new rq])
  then have "vunits_blocks vus = {}" using 1(1,2) no_channels_no_blocks by simp
  then have "manager_owned m = manager_owned (w_manager w)" using g 1(1) by simp
  then show ?thesis using 1 unfolding handled_ok_def answered_def by (intro disjI1 exI [of _ None]) simp
next
  case (2 rq n v rq' m c1 w1)
  have al: "manager_alloc (w_manager w) rq = Some (v, m)" using 2(1) by (simp add: manager_alloc_def)
  obtain reply where r: "c' = c1\<lparr>cn_writeq := cn_writeq c1 @ [reply], cn_ev_write := True\<rparr>"
    "w_manager w' = w_manager w1"
    "\<forall>tail. virtual_ocssd_deserialize virtual_ocssd_new (bq_rest reply @ tail) = Some (v, length (bq_rest reply))"
    by (rule send_vssd_reply [OF assms(1) alloc_granted(1) [OF assms(2) 2(1)] 2(7)])
  then have "answered c c' (Some (Description v))" using 2(3) by (simp add: answered_def answer_image_def)
  then show ?thesis
    using manager.alloc_owned [OF assms(2) al] manager.alloc_fresh [OF assms(2) al] r(2) 2(2)
    unfolding handled_ok_def by (intro disjI2 exI [of _ v]) simp
qed

lemma process_read_handled:
  assumes "process_read_request pf c w = Some (Inr (ret, c', w'))"
  shows "handled_ok c w c' w'"
proof -
  consider "c' = c" "w' = w" | bq where "cn_writeq c' = cn_writeq c @ [bq]" "w_manager w' = w_manager w"
    using assms unfolding process_read_request_def parsed_Inr
    by (auto simp: Let_def Option.bind_eq_Some_conv split: if_splits)
  then show ?thesis
  proof cases
    case (2 bq)
    then have "answered c c' (Some (Content (bq_rest bq)))" by (simp add: answered_def answer_image_def)
    then show ?thesis using 2(2) unfolding handled_ok_def by (intro disjI1) auto
  qed (simp add: handled_quiet)
qed

lemma process_write_handled:
  "fst (process_write_request pf c w inp) = Some (Inr (ret, c', w')) \<Longrightarrow> handled_ok c w c' w'"
  by (rule handled_quiet) (auto simp: process_write_request_def Let_def Option.bind_eq_Some_conv disconnect_def
      split: option.splits sum.splits if_splits prod.splits)

lemma process_erase_handled:
  "process_erase_request pf c w = Some (Inr (ret, c', w')) \<Longrightarrow> handled_ok c w c' w'"
  unfolding process_erase_request_def parsed_Inr
  by (rule handled_quiet) (auto simp: Option.bind_eq_Some_conv split: if_splits)

lemma dispatch_handled:
  assumes "malloc_ok pf" "manager_inv (w_manager w)" "fst (dispatch pf c w inp) = Some (Inr (ret, c', w'))"
  shows "handled_ok c w c' w'"
  using assms(3) process_alloc_handled [OF assms(1,2), of c ret c' w'] process_read_handled [of pf c w ret c' w']
    process_write_handled [of pf c w inp ret c' w'] process_erase_handled [of pf c w ret c' w'] handled_quiet [of c c w w]
  by (auto simp: dispatch_def split: option.splits if_splits)

lemma read_command_writeq: "read_command c inp = (ok, c', inp') \<Longrightarrow> cn_writeq c' = cn_writeq c"
  by (induction c inp rule: read_command.induct)
    (subst (asm) read_command.simps, auto simp: disconnect_def split: if_splits prod.splits read_result.splits)

lemma on_read_handled:
  assumes "malloc_ok pf" "manager_inv (w_manager w)" "on_read pf c w inp = Some (Inr (c', w'))"
  shows "handled_ok c w c' w'"
proof -
  obtain ret where p: "fst (process_incoming_requests pf c w inp) = Some (Inr (ret, c', w'))"
    using assms(3) by (auto simp: on_read_def split: option.splits sum.splits)
  obtain ok c1 inp1 where r: "read_command c inp = (ok, c1, inp1)" by (metis prod_cases3)
  note q = read_command_writeq [OF r]
  consider (quiet) "cn_writeq c' = cn_writeq c" "w' = w"
    | (full) "fst (dispatch pf (c1\<lparr>cn_message_end := 0\<rparr>) w inp1) = Some (Inr (ret, c', w'))"
    using p r q by (auto simp: process_incoming_requests_def process_command_def split: if_splits)
  then show ?thesis
  proof cases
    case full
    then show ?thesis using dispatch_handled [OF assms(1,2) full] q
      by (simp add: handled_ok_def answered_def cong: option.case_cong)
  qed (simp add: handled_quiet)
qed

text \<open>The relation: the manager's blocks are those the service has given away, and what was ever queued
  for a client is the image of its answers.\<close>

definition serves :: "('a, 'd) platform \<Rightarrow> 'd server \<Rightarrow> service \<Rightarrow> bool" where
  "serves pf s a \<longleftrightarrow> malloc_ok pf \<and> server_inv s \<and> manager_owned (w_manager (sv_world s)) = sc_owned a \<and>
     list_all2 stream_image (sc_answers a) (sv_queued s)"

lemma serves_start: "malloc_ok pf \<Longrightarrow> manager_inv (w_manager w) \<Longrightarrow>
    serves pf (server_start w) (service_start (manager_owned (w_manager w)))"
  by (simp add: serves_def server_inv_def server_start_def service_start_def)

lemma give_image:
  assumes "list_all2 stream_image ass bss" "i < length ass" "answer_image r xs"
  shows "list_all2 stream_image (give i r ass) (bss[i := bss ! i @ xs])"
  using assms stream_image_snoc list_all2_nthD unfolding give_def by (fastforce intro: list_all2_update_cong)

lemma read_matched:
  assumes "serves pf s a" "i < length (sv_clients s)" "c = sv_clients s ! i"
    "on_read pf c (sv_world s) inp = Some (Inr (c', w'))"
    and s': "s' = s\<lparr>sv_world := w', sv_clients := (sv_clients s)[i := c'],
      sv_queued := (sv_queued s)[i := sv_queued s ! i @ new_replies c c']\<rparr>"
    and inv: "server_inv s'"
  shows "\<exists>a'. service_step\<^sup>*\<^sup>* a a' \<and> serves pf s' a'"
proof -
  have a: "malloc_ok pf" "manager_inv (w_manager (sv_world s))" "sc_owned a = manager_owned (w_manager (sv_world s))"
    "list_all2 stream_image (sc_answers a) (sv_queued s)"
    using assms(1) by (auto simp: serves_def server_inv_def)
  have i: "i < length (sc_answers a)"
    using assms(1,2) list_all2_lengthD [OF a(4)] by (simp add: serves_def server_inv_def)
  have quiet: "new_replies c c' = []" if "answered c c' None" using that by (simp add: answered_def new_replies_def)
  have given: "list_all2 stream_image (give i r (sc_answers a)) (sv_queued s')" if "answered c c' (Some r)" for r
    using that give_image [OF a(4) i, of r] by (auto simp: s' answered_def new_replies_def)
  from on_read_handled [OF a(1,2) assms(4)] show ?thesis unfolding handled_ok_def
  proof (elim disjE exE conjE)
    fix v assume v: "answered c c' (Some (Description v))" "manager_owned (w_manager (sv_world s)) \<inter> vssd_blocks v = {}"
      "manager_owned (w_manager w') = manager_owned (w_manager (sv_world s)) \<union> vssd_blocks v"
    let ?a = "a\<lparr>sc_owned := sc_owned a \<union> vssd_blocks v, sc_answers := give i (Description v) (sc_answers a)\<rparr>"
    have "service_step a ?a" using i v(2) a(3) by (intro service_step.grant) simp_all
    moreover have "serves pf s' ?a" using a(1,3) v(3) given [OF v(1)] inv by (simp add: serves_def s')
    ultimately show ?thesis by blast
  next
    fix r assume r: "answered c c' r" "manager_owned (w_manager w') = manager_owned (w_manager (sv_world s))"
      "\<forall>v. r \<noteq> Some (Description v)"
    show ?thesis
    proof (cases r)
      case None
      then have "serves pf s' a" using a r(1,2) quiet inv by (simp add: serves_def s')
      then show ?thesis by blast
    next
      case (Some x)
      then obtain bs where x: "x = Content bs" using r(3) by (cases x) auto
      let ?a = "a\<lparr>sc_answers := give i x (sc_answers a)\<rparr>"
      have "service_step a ?a" using i unfolding x by (rule service_step.content)
      moreover have "serves pf s' ?a" using a r(2) given [of x] r(1) Some inv by (simp add: serves_def s')
      ultimately show ?thesis by blast
    qed
  qed
qed

interpretation server_service: simulation "server_step pf" service_step "serves pf" for pf
proof unfold_locales
  fix s a s' assume m: "serves pf s a" and st: "server_step pf s s'"
  have inv: "server_inv s'" using m server_step_inv [OF _ st] by (simp add: serves_def)
  from st show "\<exists>a'. service_step\<^sup>*\<^sup>* a a' \<and> serves pf s' a'"
  proof (cases rule: server_step.cases)
    case (accept junk client_fd addr)
    let ?a = "a\<lparr>sc_answers := sc_answers a @ [[]]\<rparr>"
    have "serves pf s' ?a" using m inv by (simp add: serves_def accept(1) list_all2_appendI)
    then show ?thesis using service_step.join [of a] by blast
  next
    case (readable i c inp c' w')
    show ?thesis by (rule read_matched [OF m readable(2,3,6,1) inv])
  next
    case (writable i c r c' out)
    then have "serves pf s' a" using m inv by (simp add: serves_def)
    then show ?thesis by blast
  qed
qed

lemma service_start_inv: "service_inv own (service_start own)"
  by (simp add: service_inv_def service_start_def described_def)

section \<open>Theorems\<close>



end
