(* ===== verification/Locking.thy ===== *)
theory Locking
  imports Manager
begin

text \<open>
  The locks of \<^verbatim>\<open>src/ocssd_server.h\<close>: \<^verbatim>\<open>MutexLock\<close>, the scoped lock, and its uses in
  \<^verbatim>\<open>alloc_ocssd_resource\<close>, \<^verbatim>\<open>alloc_channels\<close> and \<^verbatim>\<open>get_ocssd_stats\<close>.  Any number
  of threads call the manager; one step is one operation of a mutex, one iteration of a loop over the
  channels of a device, or one access to the manager's counter, and the steps of the threads interleave
  freely.  The devices are those present when the threads start (the program adds them before it
  serves anyone).  Every run is shown to be equivalent to the calls running one after the other, in
  the order in which they return, the statistics to be those of a device between two allocations,
  and some thread can always go on.
\<close>

section \<open>The scoped lock\<close>

text \<open>A mutex is its holder, if any.  \<^term>\<open>None\<close> of the constructor: the thread waits.  The destructor
  unlocks; unlocking a mutex that the thread does not hold is undefined.\<close>

type_synonym mutex = "nat option"

definition MutexLock_new :: "nat \<Rightarrow> mutex \<Rightarrow> mutex option" where
  "MutexLock_new t mutex = (if mutex = None then Some (Some t) else None)"

definition MutexLock_delete :: "nat \<Rightarrow> mutex \<Rightarrow> mutex option" where
  "MutexLock_delete t mutex = (if mutex = Some t then Some None else None)"

section \<open>One iteration of the loops\<close>

text \<open>The bodies of the loops over the channels: the channel after the iteration, the counter, the virtual
  unit, and whether the loop ends with \<^verbatim>\<open>break\<close>.\<close>

definition shared_iteration ::
  "u64 \<Rightarrow> u32 \<Rightarrow> ocssd_channel \<Rightarrow> u64 \<Rightarrow> virtual_ocssd_unit \<Rightarrow>
     (ocssd_channel \<times> u64 \<times> virtual_ocssd_unit \<times> bool) option" where
  "shared_iteration bpc want ch channels vunit = do {
     (allocated, alloc_units, ch') \<leftarrow> channel_alloc_blocks ch [] bpc;
     if allocated > 0
     then Some (ch', channels + 1,
       unit_add vunit (virtual_ocssd_channel_of_units (ucast (ch_channel_id ch')) 1 alloc_units),
       channels + 1 = ucast want)
     else Some (ch', channels, vunit, False) }"

definition exclusive_iteration ::
  "u32 \<Rightarrow> ocssd_channel \<Rightarrow> u64 \<Rightarrow> virtual_ocssd_unit \<Rightarrow> ocssd_channel \<times> u64 \<times> virtual_ocssd_unit \<times> bool" where
  "exclusive_iteration want ch channels vunit =
     (if ch_used ch \<noteq> 0 then (ch, channels, vunit, False)
      else let ch' = set_used ch in
        (ch', channels + 1,
         unit_add vunit (virtual_ocssd_channel_new (ucast (ch_channel_id ch')) 0
           (ucast (ch_num_total_blocks ch')) (ucast (ch_num_luns ch'))),
         channels + 1 = ucast want))"

definition stats_iteration :: "ocssd_channel \<Rightarrow> u64 \<Rightarrow> u64 \<Rightarrow> u64 \<times> u64" where
  "stats_iteration ch blocks count =
     (let free_blocks = get_free_blocks ch in
      if free_blocks > 0 then (blocks + free_blocks, count + 1) else (blocks, count))"

text \<open>The pool a request is served from.\<close>

definition pool_of :: "ocssd_alloc_request \<Rightarrow> ocssd_unit \<Rightarrow> ocssd_channel list" where
  "pool_of rq u = (if rq_shared rq = 1 then du_shared_channels u else du_exclusive_channels u)"

definition set_pool :: "ocssd_alloc_request \<Rightarrow> ocssd_channel list \<Rightarrow> ocssd_unit \<Rightarrow> ocssd_unit" where
  "set_pool rq chs u = (if rq_shared rq = 1 then u\<lparr>du_shared_channels := chs\<rparr> else u\<lparr>du_exclusive_channels := chs\<rparr>)"

definition iteration ::
  "ocssd_alloc_request \<Rightarrow> ocssd_channel \<Rightarrow> u64 \<Rightarrow> virtual_ocssd_unit \<Rightarrow>
     (ocssd_channel \<times> u64 \<times> virtual_ocssd_unit \<times> bool) option" where
  "iteration rq ch channels vunit =
     (if rq_shared rq = 1
      then shared_iteration (ucast (rq_num_blocks rq div rq_num_channels rq)) (rq_num_channels rq) ch channels vunit
      else Some (exclusive_iteration (rq_num_channels rq) ch channels vunit))"

section \<open>The calls\<close>

text \<open>The local variables of a call of \<^verbatim>\<open>alloc_ocssd_resource\<close>: the request as it was made, the device
  the loop is at, the virtual SSD, the request as it is decremented, and the count.\<close>

record alloc_call =
  ac_request :: ocssd_alloc_request
  ac_unit :: nat
  ac_vssd :: virtual_ocssd
  ac_rq :: ocssd_alloc_request
  ac_channels :: u64

text \<open>Program points, in the order of the code.  A call of \<^verbatim>\<open>alloc_ocssd_resource\<close>: before the
  manager's lock, at the head of the loop over the devices, and in \<^verbatim>\<open>alloc_channels\<close> before the
  device's lock, in the loop over the channels (position, counter, virtual unit) and at its end; then
  behind \<^verbatim>\<open>alloc_channels\<close> with its result, before \<^verbatim>\<open>set_id\<close>, before
  \<^verbatim>\<open>vssd_id_++\<close>, and at the end of the scope.  A call of \<^verbatim>\<open>get_ocssd_stats\<close>: before the
  lock, in the two loops, and at the end of the scope.\<close>

datatype pc =
    Idle
  | LockManager ocssd_alloc_request
  | NextUnit alloc_call
  | LockUnit alloc_call
  | Channels alloc_call nat u64 virtual_ocssd_unit
  | UnlockUnit alloc_call u64 virtual_ocssd_unit
  | AddCount alloc_call u64
  | SetId alloc_call
  | IncId alloc_call
  | UnlockManager alloc_call
  | LockStats nat
  | StatsShared nat nat u64 u64
  | StatsExclusive nat nat u64 u64 u64
  | UnlockStats nat "int \<times> u64 \<times> u64 \<times> u64"

record node =
  nd_manager :: ocssd_manager
  nd_mutex :: mutex
  nd_unit_mutex :: "mutex list"
  nd_threads :: "pc list"
  nd_grants :: "(ocssd_alloc_request \<times> virtual_ocssd) list"
  nd_stats :: "(nat \<times> int \<times> u64 \<times> u64 \<times> u64) list"

definition node_start :: "ocssd_manager \<Rightarrow> nat \<Rightarrow> node" where
  "node_start m threads = \<lparr>nd_manager = m, nd_mutex = None, nd_unit_mutex = map (\<lambda>_. None) (mg_ocssds m),
     nd_threads = replicate threads Idle, nd_grants = [], nd_stats = []\<rparr>"

abbreviation set_unit :: "nat \<Rightarrow> ocssd_unit \<Rightarrow> ocssd_manager \<Rightarrow> ocssd_manager" where
  "set_unit k u m \<equiv> m\<lparr>mg_ocssds := (mg_ocssds m)[k := u]\<rparr>"

text \<open>The steps that touch no lock.\<close>

definition free_step :: "pc \<Rightarrow> ocssd_manager \<Rightarrow> (pc \<times> ocssd_manager) option" where
  "free_step p m = (case p of
     NextUnit c \<Rightarrow>
       if ac_unit c < length (mg_ocssds m)
       then Some (if rq_num_channels (ac_rq c) = 0 then AddCount c 0 else LockUnit c, m)
       else Some (SetId c, m)
   | Channels c j n vunit \<Rightarrow>
       let u = mg_ocssds m ! ac_unit c; chs = pool_of (ac_rq c) u in
       if j < length chs
       then do {
         (ch, n, vunit, stop) \<leftarrow> iteration (ac_rq c) (chs ! j) n vunit;
         Some (if stop then UnlockUnit c n vunit else Channels c (j + 1) n vunit,
               set_unit (ac_unit c) (set_pool (ac_rq c) (chs[j := ch]) u) m) }
       else Some (UnlockUnit c n vunit, m)
   | AddCount c ret \<Rightarrow>
       let c = c\<lparr>ac_channels := ac_channels c + ret, ac_rq := dec_channels (ac_rq c) ret\<rparr> in
       Some (if rq_num_channels (ac_rq c) = 0 then SetId c else NextUnit (c\<lparr>ac_unit := ac_unit c + 1\<rparr>), m)
   | SetId c \<Rightarrow> Some (IncId (c\<lparr>ac_vssd := (ac_vssd c)\<lparr>v_id := mg_vssd_id m\<rparr>\<rparr>), m)
   | IncId c \<Rightarrow> Some (UnlockManager c, m\<lparr>mg_vssd_id := mg_vssd_id m + 1\<rparr>)
   | StatsShared k j blocks shared \<Rightarrow>
       let chs = du_shared_channels (mg_ocssds m ! k) in
       if j < length chs
       then let (blocks, shared) = stats_iteration (chs ! j) blocks shared in
         Some (StatsShared k (j + 1) blocks shared, m)
       else Some (StatsExclusive k 0 blocks shared 0, m)
   | StatsExclusive k j blocks shared exclusive \<Rightarrow>
       let chs = du_exclusive_channels (mg_ocssds m ! k) in
       if j < length chs
       then let (blocks, exclusive) = stats_iteration (chs ! j) blocks exclusive in
         Some (StatsExclusive k (j + 1) blocks shared exclusive, m)
       else Some (UnlockStats k (0, shared, exclusive, blocks), m)
   | _ \<Rightarrow> None)"

abbreviation set_thread :: "nat \<Rightarrow> pc \<Rightarrow> node \<Rightarrow> node" where
  "set_thread t p s \<equiv> s\<lparr>nd_threads := (nd_threads s)[t := p]\<rparr>"

text \<open>One step of thread \<open>t\<close>; \<^term>\<open>None\<close>: it cannot step.\<close>

definition thread_step :: "nat \<Rightarrow> node \<Rightarrow> node option" where
  "thread_step t s = (case nd_threads s ! t of
     LockManager rq \<Rightarrow> do {
       x \<leftarrow> MutexLock_new t (nd_mutex s);
       Some (set_thread t (NextUnit \<lparr>ac_request = rq, ac_unit = 0, ac_vssd = virtual_ocssd_new, ac_rq = rq,
         ac_channels = 0\<rparr>) (s\<lparr>nd_mutex := x\<rparr>)) }
   | LockUnit c \<Rightarrow>
       let k = ac_unit c; u = mg_ocssds (nd_manager s) ! k in do {
       x \<leftarrow> MutexLock_new t (nd_unit_mutex s ! k);
       Some (set_thread t (Channels c 0 0 (virtual_ocssd_unit_new (du_name u) (du_geo u)))
         (s\<lparr>nd_unit_mutex := (nd_unit_mutex s)[k := x]\<rparr>)) }
   | UnlockUnit c n vunit \<Rightarrow>
       let k = ac_unit c in do {
       x \<leftarrow> MutexLock_delete t (nd_unit_mutex s ! k);
       Some (set_thread t (AddCount (if n = 0 then c else c\<lparr>ac_vssd := vssd_add (ac_vssd c) vunit\<rparr>) n)
         (s\<lparr>nd_unit_mutex := (nd_unit_mutex s)[k := x]\<rparr>)) }
   | UnlockManager c \<Rightarrow> do {
       x \<leftarrow> MutexLock_delete t (nd_mutex s);
       Some (set_thread t Idle (s\<lparr>nd_mutex := x, nd_grants := nd_grants s @ [(ac_request c, ac_vssd c)]\<rparr>)) }
   | LockStats k \<Rightarrow> do {
       x \<leftarrow> MutexLock_new t (nd_unit_mutex s ! k);
       Some (set_thread t (StatsShared k 0 0 0) (s\<lparr>nd_unit_mutex := (nd_unit_mutex s)[k := x]\<rparr>)) }
   | UnlockStats k r \<Rightarrow> do {
       x \<leftarrow> MutexLock_delete t (nd_unit_mutex s ! k);
       Some (set_thread t Idle (s\<lparr>nd_unit_mutex := (nd_unit_mutex s)[k := x], nd_stats := nd_stats s @ [(k, r)]\<rparr>)) }
   | p \<Rightarrow> do {
       (p, m) \<leftarrow> free_step p (nd_manager s);
       Some (set_thread t p (s\<lparr>nd_manager := m\<rparr>)) })"

text \<open>A thread outside of a call may make one; a thread inside goes on.\<close>

inductive node_step :: "node \<Rightarrow> node \<Rightarrow> bool" where
  request: "t < length (nd_threads s) \<Longrightarrow> nd_threads s ! t = Idle \<Longrightarrow>
    node_step s (set_thread t (LockManager rq) s)"
| stats: "t < length (nd_threads s) \<Longrightarrow> nd_threads s ! t = Idle \<Longrightarrow> k < length (mg_ocssds (nd_manager s)) \<Longrightarrow>
    node_step s (set_thread t (LockStats k) s)"
| go_on: "t < length (nd_threads s) \<Longrightarrow> thread_step t s = Some s' \<Longrightarrow> node_step s s'"

inductive_cases node_stepE: "node_step s s'"

section \<open>What is left of a call\<close>

text \<open>The loop over the channels from a position on; the code's loops are its runs from the start.\<close>

fun pool_loop ::
  "ocssd_alloc_request \<Rightarrow> ocssd_channel list \<Rightarrow> u64 \<Rightarrow> virtual_ocssd_unit \<Rightarrow>
     (u64 \<times> virtual_ocssd_unit \<times> ocssd_channel list) option" where
  "pool_loop rq [] n vunit = Some (n, vunit, [])"
| "pool_loop rq (ch # chs) n vunit = do {
     (ch, n, vunit, stop) \<leftarrow> iteration rq ch n vunit;
     if stop then Some (n, vunit, ch # chs)
     else do {
       (n, vunit, chs) \<leftarrow> pool_loop rq chs n vunit;
       Some (n, vunit, ch # chs) } }"

lemma pool_loop_shared:
  "rq_shared rq = 1 \<Longrightarrow>
   alloc_shared_loop (ucast (rq_num_blocks rq div rq_num_channels rq)) (rq_num_channels rq) chs n vunit =
   pool_loop rq chs n vunit"
proof (induction chs arbitrary: n vunit)
  case (Cons ch chs)
  show ?case
    by (cases "channel_alloc_blocks ch [] (ucast (rq_num_blocks rq div rq_num_channels rq))")
      (auto simp: iteration_def shared_iteration_def Let_def Cons split: prod.splits)
qed simp

lemma pool_loop_exclusive:
  "rq_shared rq \<noteq> 1 \<Longrightarrow> Some (alloc_exclusive_loop (rq_num_channels rq) chs n vunit) = pool_loop rq chs n vunit"
proof (induction chs arbitrary: n vunit)
  case (Cons ch chs)
  show ?case
    using Cons.prems
    by (auto simp: iteration_def exclusive_iteration_def Let_def Cons.IH [symmetric] split: prod.splits)
qed simp

text \<open>A call of \<^verbatim>\<open>alloc_channels\<close> from inside of its loop.\<close>

definition finish_unit ::
  "ocssd_unit \<Rightarrow> alloc_call \<Rightarrow> nat \<Rightarrow> u64 \<Rightarrow> virtual_ocssd_unit \<Rightarrow> (u64 \<times> virtual_ocssd \<times> ocssd_unit) option" where
  "finish_unit u c j n vunit = do {
     (n, vunit, chs) \<leftarrow> pool_loop (ac_rq c) (drop j (pool_of (ac_rq c) u)) n vunit;
     Some (n, if n = 0 then ac_vssd c else vssd_add (ac_vssd c) vunit,
           set_pool (ac_rq c) (take j (pool_of (ac_rq c) u) @ chs) u) }"

lemma finish_unit_start:
  "rq_num_channels (ac_rq c) \<noteq> 0 \<Longrightarrow>
   finish_unit u c 0 0 (virtual_ocssd_unit_new (du_name u) (du_geo u)) = alloc_channels u (ac_vssd c) (ac_rq c)"
proof (cases "rq_shared (ac_rq c) = 1")
  case True
  assume "rq_num_channels (ac_rq c) \<noteq> 0"
  then show ?thesis using True
    by (simp add: finish_unit_def alloc_channels_def alloc_shared_channels_def pool_of_def set_pool_def
        pool_loop_shared Let_def split_def cong: if_cong)
next
  case False
  assume "rq_num_channels (ac_rq c) \<noteq> 0"
  then show ?thesis using False
    by (simp add: finish_unit_def alloc_channels_def alloc_exclusive_channels_def pool_of_def set_pool_def
        pool_loop_exclusive [symmetric] Let_def split_def cong: if_cong)
qed

lemma pool_set_pool [simp]: "pool_of rq (set_pool rq chs u) = chs" "set_pool rq xs (set_pool rq ys u) = set_pool rq xs u"
  "set_pool rq (pool_of rq u) u = u"
  by (simp_all add: pool_of_def set_pool_def)

lemma finish_unit_end:
  assumes "\<not> j < length (pool_of (ac_rq c) u)"
  shows "finish_unit u c j n vunit = Some (n, if n = 0 then ac_vssd c else vssd_add (ac_vssd c) vunit, u)"
  using assms by (simp add: finish_unit_def)

lemma finish_unit_iteration:
  assumes "j < length (pool_of (ac_rq c) u)"
    "iteration (ac_rq c) (pool_of (ac_rq c) u ! j) n vunit = Some (ch, n', vunit', stop)"
    "u' = set_pool (ac_rq c) ((pool_of (ac_rq c) u)[j := ch]) u"
  shows "finish_unit u c j n vunit =
    (if stop then Some (n', if n' = 0 then ac_vssd c else vssd_add (ac_vssd c) vunit', u')
     else finish_unit u' c (j + 1) n' vunit')"
proof -
  let ?p = "pool_of (ac_rq c) u"
  have "drop j ?p = ?p ! j # drop (Suc j) ?p" using assms(1) by (simp add: Cons_nth_drop_Suc)
  moreover have "?p[j := ch] = take j ?p @ ch # drop (Suc j) ?p" using assms(1) by (rule upd_conv_take_nth_drop)
  moreover have "take (Suc j) (?p[j := ch]) = take j ?p @ [ch]" "drop (Suc j) (?p[j := ch]) = drop (Suc j) ?p"
    using assms(1) by (simp_all add: take_Suc_conv_app_nth)
  ultimately show ?thesis using assms(2,3) by (simp add: finish_unit_def split_def cong: if_cong)
qed

text \<open>The loop over the devices from a position on, and from behind a call of \<^verbatim>\<open>alloc_channels\<close>.\<close>

definition finish_loop ::
  "ocssd_unit list \<Rightarrow> alloc_call \<Rightarrow> (u64 \<times> virtual_ocssd \<times> ocssd_alloc_request \<times> ocssd_unit list) option" where
  "finish_loop us c =
     map_option (\<lambda>(n, v, rq, us'). (n, v, rq, take (ac_unit c) us @ us'))
       (alloc_resource_loop (drop (ac_unit c) us) (ac_vssd c) (ac_rq c) (ac_channels c))"

definition after_unit ::
  "ocssd_unit list \<Rightarrow> alloc_call \<Rightarrow> u64 \<times> virtual_ocssd \<times> ocssd_unit \<Rightarrow>
     (u64 \<times> virtual_ocssd \<times> ocssd_alloc_request \<times> ocssd_unit list) option" where
  "after_unit us c r = (case r of (ret, v, u) \<Rightarrow>
     let c = c\<lparr>ac_vssd := v, ac_channels := ac_channels c + ret, ac_rq := dec_channels (ac_rq c) ret\<rparr>;
         us = us[ac_unit c := u] in
     if rq_num_channels (ac_rq c) = 0 then Some (ac_channels c, ac_vssd c, ac_rq c, us)
     else finish_loop us (c\<lparr>ac_unit := ac_unit c + 1\<rparr>))"

lemma finish_loop_unit:
  assumes "ac_unit c < length us"
  shows "finish_loop us c = Option.bind (alloc_channels (us ! ac_unit c) (ac_vssd c) (ac_rq c)) (after_unit us c)"
proof -
  let ?k = "ac_unit c"
  have "drop ?k us = us ! ?k # drop (Suc ?k) us" using assms by (simp add: Cons_nth_drop_Suc)
  moreover have "us[?k := u] = take ?k us @ u # drop (Suc ?k) us" for u using assms by (rule upd_conv_take_nth_drop)
  moreover have "take (Suc ?k) (us[?k := u]) = take ?k us @ [u]" "drop (Suc ?k) (us[?k := u]) = drop (Suc ?k) us" for u
    using assms by (simp_all add: take_Suc_conv_app_nth)
  ultimately show ?thesis
    by (cases "alloc_channels (us ! ?k) (ac_vssd c) (ac_rq c)")
      (auto simp: finish_loop_def after_unit_def Let_def map_option_bind comp_def split_def map_option_case
        split: option.split)
qed

lemma finish_loop_end: "\<not> ac_unit c < length us \<Longrightarrow> finish_loop us c = Some (ac_channels c, ac_vssd c, ac_rq c, us)"
  by (simp add: finish_loop_def)

text \<open>What a call of \<^verbatim>\<open>alloc_ocssd_resource\<close> returns if its thread runs alone from here on.\<close>

definition finish_devices ::
  "ocssd_unit list \<Rightarrow> pc \<Rightarrow> (u64 \<times> virtual_ocssd \<times> ocssd_alloc_request \<times> ocssd_unit list) option" where
  "finish_devices us p = (case p of
     NextUnit c \<Rightarrow> finish_loop us c
   | LockUnit c \<Rightarrow> finish_loop us c
   | Channels c j n vunit \<Rightarrow> Option.bind (finish_unit (us ! ac_unit c) c j n vunit) (after_unit us c)
   | UnlockUnit c n vunit \<Rightarrow>
       after_unit us c (n, if n = 0 then ac_vssd c else vssd_add (ac_vssd c) vunit, us ! ac_unit c)
   | AddCount c ret \<Rightarrow> after_unit us c (ret, ac_vssd c, us ! ac_unit c)
   | SetId c \<Rightarrow> Some (ac_channels c, ac_vssd c, ac_rq c, us)
   | _ \<Rightarrow> None)"

definition finish ::
  "ocssd_manager \<Rightarrow> pc \<Rightarrow> (u64 \<times> virtual_ocssd \<times> ocssd_alloc_request \<times> ocssd_manager) option" where
  "finish m p = (case p of
     IncId c \<Rightarrow> Some (ac_channels c, ac_vssd c, ac_rq c, m\<lparr>mg_vssd_id := mg_vssd_id m + 1\<rparr>)
   | UnlockManager c \<Rightarrow> Some (ac_channels c, ac_vssd c, ac_rq c, m)
   | _ \<Rightarrow> map_option (\<lambda>(n, v, rq, us). (n, v\<lparr>v_id := mg_vssd_id m\<rparr>, rq,
            m\<lparr>mg_ocssds := us, mg_vssd_id := mg_vssd_id m + 1\<rparr>)) (finish_devices (mg_ocssds m) p))"

lemma finish_start:
  "finish m (NextUnit \<lparr>ac_request = rq, ac_unit = 0, ac_vssd = v, ac_rq = rq, ac_channels = 0\<rparr>) =
   alloc_ocssd_resource m v rq"
  by (simp add: finish_def finish_devices_def finish_loop_def alloc_ocssd_resource_def map_option_case split_def
      split: option.split)

section \<open>The invariant\<close>

text \<open>The call of \<^verbatim>\<open>alloc_ocssd_resource\<close> that holds the manager's lock, the device whose lock a thread
  holds, and whether it is changing that device.\<close>

fun in_manager :: "pc \<Rightarrow> alloc_call option" where
  "in_manager (NextUnit c) = Some c"
| "in_manager (LockUnit c) = Some c"
| "in_manager (Channels c _ _ _) = Some c"
| "in_manager (UnlockUnit c _ _) = Some c"
| "in_manager (AddCount c _) = Some c"
| "in_manager (SetId c) = Some c"
| "in_manager (IncId c) = Some c"
| "in_manager (UnlockManager c) = Some c"
| "in_manager _ = None"

fun in_unit :: "pc \<Rightarrow> nat option" where
  "in_unit (Channels c _ _ _) = Some (ac_unit c)"
| "in_unit (UnlockUnit c _ _) = Some (ac_unit c)"
| "in_unit (StatsShared k _ _ _) = Some k"
| "in_unit (StatsExclusive k _ _ _ _) = Some k"
| "in_unit (UnlockStats k _) = Some k"
| "in_unit _ = None"

fun changing :: "pc \<Rightarrow> bool" where
  "changing (Channels _ _ _ _) \<longleftrightarrow> True"
| "changing _ \<longleftrightarrow> False"

text \<open>What a program point knows.  Inside of \<^verbatim>\<open>alloc_channels\<close> the rest of the loop gives what the call
  would have given on the device as it was locked; a reader has counted the channels before its position.\<close>

fun knows :: "ocssd_unit list \<Rightarrow> pc \<Rightarrow> bool" where
  "knows us (LockUnit c) \<longleftrightarrow> ac_unit c < length us \<and> rq_num_channels (ac_rq c) \<noteq> 0"
| "knows us (Channels c j n vunit) \<longleftrightarrow> ac_unit c < length us \<and>
     (\<exists>u. device_inv u \<and> finish_unit (us ! ac_unit c) c j n vunit = alloc_channels u (ac_vssd c) (ac_rq c))"
| "knows us (UnlockUnit c n vunit) \<longleftrightarrow> ac_unit c < length us"
| "knows us (AddCount c ret) \<longleftrightarrow> ac_unit c < length us"
| "knows us (LockStats k) \<longleftrightarrow> k < length us"
| "knows us (StatsShared k j blocks shared) \<longleftrightarrow> k < length us \<and>
     stats_loop (drop j (du_shared_channels (us ! k))) blocks shared = stats_loop (du_shared_channels (us ! k)) 0 0"
| "knows us (StatsExclusive k j blocks shared exclusive) \<longleftrightarrow> k < length us \<and>
     (\<exists>b. stats_loop (du_shared_channels (us ! k)) 0 0 = (b, shared) \<and>
        stats_loop (drop j (du_exclusive_channels (us ! k))) blocks exclusive =
          stats_loop (du_exclusive_channels (us ! k)) b 0)"
| "knows us (UnlockStats k r) \<longleftrightarrow> k < length us \<and> r = get_ocssd_stats (us ! k)"
| "knows us _ \<longleftrightarrow> True"

text \<open>The devices stay the devices they are, and statistics were those of a device in a state between
  two allocations.\<close>

definition identity :: "ocssd_unit \<Rightarrow> string \<times> nvm_geo" where
  "identity u = (du_name u, du_geo u)"

definition device_stats :: "ocssd_manager \<Rightarrow> nat \<times> int \<times> u64 \<times> u64 \<times> u64 \<Rightarrow> bool" where
  "device_stats m0 e \<longleftrightarrow> (case e of (k, r) \<Rightarrow> k < length (mg_ocssds m0) \<and>
     (\<exists>u. device_inv u \<and> identity u = identity (mg_ocssds m0 ! k) \<and> r = get_ocssd_stats u))"

definition stats_ok :: "ocssd_manager \<Rightarrow> node \<Rightarrow> bool" where
  "stats_ok m0 s \<longleftrightarrow> map identity (mg_ocssds (nd_manager s)) = map identity (mg_ocssds m0) \<and>
     list_all (device_stats m0) (nd_stats s)"

lemma knows_stable:
  "knows us p \<Longrightarrow> length us' = length us \<Longrightarrow> (\<And>k. in_unit p = Some k \<Longrightarrow> us' ! k = us ! k) \<Longrightarrow> knows us' p"
  by (cases p) auto

lemma stats_loop_step:
  "j < length chs \<Longrightarrow> stats_loop (drop j chs) blocks count =
   (case stats_iteration (chs ! j) blocks count of (b, n) \<Rightarrow> stats_loop (drop (Suc j) chs) b n)"
  by (subst Cons_nth_drop_Suc [symmetric]) (auto simp: stats_iteration_def Let_def)

lemma alloc_channels_inv:
  assumes "device_inv u" "alloc_channels u v rq = Some (n, v', u')"
  shows "device_inv u'"
  using alloc_channels_grant [OF assms(1), of v rq] assms(2) by (auto simp: device_grant_def)

text \<open>A step without a lock keeps the locks' claims, changes at most the device whose lock is held, keeps
  what the thread knows, and keeps what the call will return.\<close>

lemma free_step_reader:
  assumes "free_step p m = Some (p', m')" "in_manager p = None" "knows (mg_ocssds m) p"
  shows "m' = m \<and> in_manager p' = None \<and> in_unit p' = in_unit p \<and> knows (mg_ocssds m) p' \<and> \<not> changing p'"
proof (cases p)
  case (StatsShared k j b n)
  then show ?thesis
    using assms stats_loop_step [of j "du_shared_channels (mg_ocssds m ! k)" b n]
    by (cases "stats_iteration (du_shared_channels (mg_ocssds m ! k) ! j) b n")
      (auto simp: free_step_def Let_def split: if_splits dest!: sym [of "(b, n)"])
next
  case (StatsExclusive k j b n e)
  then show ?thesis
    using assms stats_loop_step [of j "du_exclusive_channels (mg_ocssds m ! k)" b e]
    by (cases "stats_iteration (du_exclusive_channels (mg_ocssds m ! k) ! j) b e")
      (auto simp: free_step_def Let_def get_ocssd_stats_def split: if_splits dest!: sym [of "(b, e)"])
qed (use assms in \<open>simp_all add: free_step_def\<close>)

lemma identity_update: "identity u = identity (us ! k) \<Longrightarrow> map identity (us[k := u]) = map identity us"
  by (cases "k < length us") (auto simp: map_update list_update_same_conv list_update_beyond)

lemma identity_set_pool [simp]: "identity (set_pool rq chs u) = identity u"
  by (simp add: identity_def set_pool_def)

lemma free_step_identity: "free_step p m = Some (p', m') \<Longrightarrow> map identity (mg_ocssds m') = map identity (mg_ocssds m)"
  by (cases p) (auto simp: free_step_def Let_def Option.bind_eq_Some_conv identity_update split: if_splits prod.splits)

lemma free_step_channels:
  assumes "free_step (Channels c j n vunit) m = Some (p', m')" "knows (mg_ocssds m) (Channels c j n vunit)"
  shows "(\<exists>u. m' = set_unit (ac_unit c) u m) \<and> in_manager p' = Some c \<and> in_unit p' = Some (ac_unit c) \<and>
    knows (mg_ocssds m') p' \<and> (changing p' \<or> device_inv (mg_ocssds m' ! ac_unit c)) \<and>
    finish m' p' = finish m (Channels c j n vunit)"
proof -
  let ?k = "ac_unit c" and ?u = "mg_ocssds m ! ac_unit c"
  let ?p = "pool_of (ac_rq c) ?u"
  obtain u0 where k: "?k < length (mg_ocssds m)" and u0: "device_inv u0"
    "finish_unit ?u c j n vunit = alloc_channels u0 (ac_vssd c) (ac_rq c)" using assms(2) by auto
  have same: "set_unit ?k ?u m = m" by simp
  have upd: "after_unit ((mg_ocssds m)[?k := u]) c = after_unit (mg_ocssds m) c" for u
    by (simp add: fun_eq_iff after_unit_def Let_def split: prod.split)
  show ?thesis
  proof (cases "j < length ?p")
    case False
    then have "p' = UnlockUnit c n vunit" "m' = m" using assms(1) by (simp_all add: free_step_def Let_def)
    moreover have "device_inv ?u"
      using alloc_channels_inv [OF u0(1), of "ac_vssd c" "ac_rq c" n] u0(2) finish_unit_end [OF False, of n vunit] by metis
    ultimately show ?thesis
      using k same finish_unit_end [OF False, of n vunit] by (auto simp: finish_def finish_devices_def intro: exI [of _ ?u])
  next
    case True
    then obtain ch n' vunit' stop where i: "iteration (ac_rq c) (?p ! j) n vunit = Some (ch, n', vunit', stop)"
      "p' = (if stop then UnlockUnit c n' vunit' else Channels c (j + 1) n' vunit')"
      "m' = set_unit ?k (set_pool (ac_rq c) (?p[j := ch]) ?u) m"
      using assms(1) by (auto simp: free_step_def Let_def Option.bind_eq_Some_conv)
    note f = finish_unit_iteration [OF True i(1) refl]
    show ?thesis
    proof (cases stop)
      case True
      then have "device_inv (set_pool (ac_rq c) (?p[j := ch]) ?u)"
        using alloc_channels_inv [OF u0(1), of "ac_vssd c" "ac_rq c" n'] u0(2) f by metis
      then show ?thesis using True f i k upd by (auto simp: finish_def finish_devices_def)
    next
      case False
      then show ?thesis using f i k u0 upd by (auto simp: finish_def finish_devices_def)
    qed
  qed
qed

lemma free_step_alloc:
  assumes "free_step p m = Some (p', m')" "in_manager p = Some c" "\<not> changing p" "knows (mg_ocssds m) p"
  shows "mg_ocssds m' = mg_ocssds m \<and> (\<exists>c'. in_manager p' = Some c' \<and> ac_request c' = ac_request c) \<and>
    in_unit p' = in_unit p \<and> in_unit p = None \<and> knows (mg_ocssds m) p' \<and> \<not> changing p' \<and> finish m' p' = finish m p"
proof (cases p)
  case (NextUnit c1)
  then show ?thesis using assms finish_loop_end [of c1 "mg_ocssds m"] finish_loop_unit [of c1 "mg_ocssds m"]
    by (auto simp: free_step_def finish_def finish_devices_def alloc_channels_def split: if_splits)
next
  case (AddCount c1 ret)
  then show ?thesis using assms
    by (auto simp: free_step_def Let_def finish_def finish_devices_def after_unit_def split: if_splits)
qed (use assms in \<open>auto simp: free_step_def finish_def finish_devices_def\<close>)

text \<open>All threads together.  \<open>m0\<close> is the manager at the start, \<open>ml\<close> the manager after the calls that have
  returned, made one after the other.  A mutex is held by exactly the thread that is in its scope; a free
  manager's mutex means that memory is \<open>ml\<close>, and a call inside will return what it would have returned
  alone on \<open>ml\<close>.\<close>

definition locks_ok :: "node \<Rightarrow> bool" where
  "locks_ok s \<longleftrightarrow> length (nd_unit_mutex s) = length (mg_ocssds (nd_manager s)) \<and>
     (\<forall>t<length (nd_threads s). (in_manager (nd_threads s ! t) \<noteq> None) = (nd_mutex s = Some t)) \<and>
     (\<forall>t. nd_mutex s = Some t \<longrightarrow> t < length (nd_threads s)) \<and>
     (\<forall>t<length (nd_threads s). \<forall>k<length (nd_unit_mutex s).
        (in_unit (nd_threads s ! t) = Some k) = (nd_unit_mutex s ! k = Some t)) \<and>
     (\<forall>k<length (nd_unit_mutex s). \<forall>t. nd_unit_mutex s ! k = Some t \<longrightarrow> t < length (nd_threads s))"

definition threads_ok :: "node \<Rightarrow> bool" where
  "threads_ok s \<longleftrightarrow> (\<forall>t<length (nd_threads s). knows (mg_ocssds (nd_manager s)) (nd_threads s ! t)) \<and>
     (\<forall>k<length (mg_ocssds (nd_manager s)). device_inv (mg_ocssds (nd_manager s) ! k) \<or>
        (\<exists>t<length (nd_threads s). in_unit (nd_threads s ! t) = Some k \<and> changing (nd_threads s ! t)))"

definition serial :: "ocssd_manager \<Rightarrow> node \<Rightarrow> bool" where
  "serial m0 s \<longleftrightarrow> (\<exists>ml. alloc_run manager_alloc m0 (map fst (nd_grants s)) = Some (map snd (nd_grants s), ml) \<and>
     (nd_mutex s = None \<longrightarrow> nd_manager s = ml) \<and>
     (\<forall>t<length (nd_threads s). \<forall>c. in_manager (nd_threads s ! t) = Some c \<longrightarrow>
        finish (nd_manager s) (nd_threads s ! t) = alloc_ocssd_resource ml virtual_ocssd_new (ac_request c)))"

definition node_inv :: "ocssd_manager \<Rightarrow> node \<Rightarrow> bool" where
  "node_inv m0 s \<longleftrightarrow> locks_ok s \<and> threads_ok s \<and> serial m0 s \<and> stats_ok m0 s"

lemma node_start_inv: "manager_inv m \<Longrightarrow> node_inv m (node_start m threads)"
  by (simp add: node_inv_def locks_ok_def threads_ok_def serial_def stats_ok_def node_start_def manager_inv_def
      devices_inv_def list_all_length)

lemma locks_okD:
  assumes "locks_ok s" "t < length (nd_threads s)"
  shows "length (nd_unit_mutex s) = length (mg_ocssds (nd_manager s))"
    "(in_manager (nd_threads s ! t) \<noteq> None) = (nd_mutex s = Some t)"
    "k < length (nd_unit_mutex s) \<Longrightarrow> (in_unit (nd_threads s ! t) = Some k) = (nd_unit_mutex s ! k = Some t)"
  using assms by (auto simp: locks_ok_def)

lemma in_unit_unique:
  assumes "locks_ok s" "t < length (nd_threads s)" "r < length (nd_threads s)" "k < length (mg_ocssds (nd_manager s))"
    "in_unit (nd_threads s ! t) = Some k" "in_unit (nd_threads s ! r) = Some k"
  shows "r = t"
proof -
  have k: "k < length (nd_unit_mutex s)" using locks_okD(1) [OF assms(1,2)] assms(4) by simp
  show ?thesis
    using locks_okD(3) [OF assms(1,2) k] locks_okD(3) [OF assms(1,3) k] assms(5,6) by simp
qed

text \<open>The effect of a step on the invariant, by what it does: only its thread's program point changes, or
  memory changes too, or a lock is taken or released.\<close>

lemma locks_ok_same:
  assumes "locks_ok s" "t < length (nd_threads s)" "(in_manager p = None) = (in_manager (nd_threads s ! t) = None)"
    "in_unit p = in_unit (nd_threads s ! t)" "length (mg_ocssds m) = length (mg_ocssds (nd_manager s))"
  shows "locks_ok (set_thread t p (s\<lparr>nd_manager := m\<rparr>))"
  using assms by (auto simp: locks_ok_def nth_list_update)

lemma locks_ok_manager:
  assumes "locks_ok s" "t < length (nd_threads s)" "nd_mutex s = None \<or> nd_mutex s = Some t"
    "x = (if in_manager p = None then None else Some t)" "in_unit p = in_unit (nd_threads s ! t)"
  shows "locks_ok (set_thread t p (s\<lparr>nd_mutex := x\<rparr>))"
  using assms by (auto simp: locks_ok_def nth_list_update)

lemma locks_ok_unit:
  assumes "locks_ok s" "t < length (nd_threads s)" "k < length (nd_unit_mutex s)"
    "nd_unit_mutex s ! k = None \<or> nd_unit_mutex s ! k = Some t"
    "(in_manager p = None) = (in_manager (nd_threads s ! t) = None)"
    "in_unit p = None \<and> x = None \<and> in_unit (nd_threads s ! t) = Some k \<or>
     in_unit p = Some k \<and> x = Some t \<and> in_unit (nd_threads s ! t) = None"
  shows "locks_ok (set_thread t p (s\<lparr>nd_unit_mutex := (nd_unit_mutex s)[k := x]\<rparr>))"
proof -
  have len: "length (nd_unit_mutex s) = length (mg_ocssds (nd_manager s))"
    and mg: "\<forall>t<length (nd_threads s). (in_manager (nd_threads s ! t) \<noteq> None) = (nd_mutex s = Some t)"
      "\<forall>t. nd_mutex s = Some t \<longrightarrow> t < length (nd_threads s)"
    and un: "\<And>t k. t < length (nd_threads s) \<Longrightarrow> k < length (nd_unit_mutex s) \<Longrightarrow>
        (in_unit (nd_threads s ! t) = Some k) = (nd_unit_mutex s ! k = Some t)"
      "\<And>t k. k < length (nd_unit_mutex s) \<Longrightarrow> nd_unit_mutex s ! k = Some t \<Longrightarrow> t < length (nd_threads s)"
    using assms(1) by (auto simp: locks_ok_def)
  have "(in_unit ((nd_threads s)[t := p] ! r) = Some i) = ((nd_unit_mutex s)[k := x] ! i = Some r)"
    if "r < length (nd_threads s)" "i < length (nd_unit_mutex s)" for r i
    using that assms(2-6) un(1) [OF that] un(1) [OF assms(2) that(2)] un(1) [OF that(1) assms(3)]
    by (auto simp: nth_list_update)
  moreover have "r < length (nd_threads s)" if "(nd_unit_mutex s)[k := x] ! i = Some r" "i < length (nd_unit_mutex s)" for r i
    using that assms(2,3,6) un(2) [OF that(2), of r] by (auto simp: nth_list_update split: if_splits)
  moreover have "(in_manager ((nd_threads s)[t := p] ! r) \<noteq> None) = (nd_mutex s = Some r)"
    if "r < length (nd_threads s)" for r
    using that mg(1) assms(2,5) by (auto simp: nth_list_update)
  ultimately show ?thesis using len mg(2) by (auto simp: locks_ok_def)
qed

lemma threads_ok_step:
  assumes "locks_ok s" "threads_ok s" "t < length (nd_threads s)"
    and s': "nd_threads s' = (nd_threads s)[t := p]" "length (mg_ocssds (nd_manager s')) = length (mg_ocssds (nd_manager s))"
    and p: "knows (mg_ocssds (nd_manager s')) p"
    and mine: "\<And>k. k < length (mg_ocssds (nd_manager s)) \<Longrightarrow> in_unit (nd_threads s ! t) \<noteq> Some k \<Longrightarrow>
        mg_ocssds (nd_manager s') ! k = mg_ocssds (nd_manager s) ! k"
      "\<And>k. in_unit (nd_threads s ! t) = Some k \<Longrightarrow> device_inv (mg_ocssds (nd_manager s') ! k) \<or> in_unit p = Some k \<and> changing p"
  shows "threads_ok s'"
proof -
  let ?us = "mg_ocssds (nd_manager s)" and ?us' = "mg_ocssds (nd_manager s')"
  have other: "in_unit (nd_threads s ! t) \<noteq> Some k" if "r < length (nd_threads s)" "r \<noteq> t" "in_unit (nd_threads s ! r) = Some k"
      "k < length ?us" for r k
    using in_unit_unique [OF assms(1,3) that(1,4)] that by blast
  have un: "k < length ?us" if "r < length (nd_threads s)" "in_unit (nd_threads s ! r) = Some k" for r k
    using assms(2) that by (cases "nd_threads s ! r") (auto simp: threads_ok_def)
  have "knows ?us' (nd_threads s ! r)" if "r < length (nd_threads s)" "r \<noteq> t" for r
    by (rule knows_stable [of ?us]) (use that assms(2) s'(2) mine(1) other un in \<open>auto simp: threads_ok_def\<close>)
  moreover have "device_inv (?us' ! k) \<or> (\<exists>r<length (nd_threads s). in_unit (nd_threads s' ! r) = Some k \<and> changing (nd_threads s' ! r))"
    if k: "k < length ?us" for k
  proof (cases "in_unit (nd_threads s ! t) = Some k")
    case True
    then show ?thesis using mine(2) assms(3) s'(1) by (metis nth_list_update_eq)
  next
    case False
    from assms(2) k consider "device_inv (?us ! k)"
      | r where "r < length (nd_threads s)" "in_unit (nd_threads s ! r) = Some k" "changing (nd_threads s ! r)"
      by (auto simp: threads_ok_def)
    then show ?thesis using False mine(1) [OF k] s'(1) by (metis nth_list_update_neq)
  qed
  ultimately show ?thesis using s' p assms(3) by (auto simp: threads_ok_def nth_list_update)
qed

lemma serial_quiet:
  assumes "serial m0 s" "t < length (nd_threads s)" "nd_threads s' = (nd_threads s)[t := p]"
    "nd_manager s' = nd_manager s" "nd_mutex s' = nd_mutex s" "nd_grants s' = nd_grants s" "in_manager p = None"
  shows "serial m0 s'"
  using assms unfolding serial_def by (elim exE conjE, intro exI conjI) (auto simp: nth_list_update)

text \<open>A step of the thread that holds the manager's lock.\<close>

lemma serial_inside:
  assumes "serial m0 s" "locks_ok s" "t < length (nd_threads s)" "in_manager (nd_threads s ! t) = Some c"
    and s': "nd_threads s' = (nd_threads s)[t := p]" "nd_mutex s' = nd_mutex s" "nd_grants s' = nd_grants s"
    and p: "in_manager p = Some c'" "ac_request c' = ac_request c"
      "finish (nd_manager s') p = finish (nd_manager s) (nd_threads s ! t)"
  shows "serial m0 s'"
proof -
  obtain ml where ml: "alloc_run manager_alloc m0 (map fst (nd_grants s)) = Some (map snd (nd_grants s), ml)"
    "finish (nd_manager s) (nd_threads s ! t) = alloc_ocssd_resource ml virtual_ocssd_new (ac_request c)"
    using assms(1,3,4) by (auto simp: serial_def)
  have mx: "nd_mutex s = Some t" using locks_okD(2) [OF assms(2,3)] assms(4) by simp
  have "in_manager (nd_threads s ! r) = None" if "r < length (nd_threads s)" "r \<noteq> t" for r
    using locks_okD(2) [OF assms(2) that(1)] mx that(2) by simp
  then show ?thesis unfolding serial_def
    using ml s' p mx assms(3) by (intro exI [of _ ml]) (auto simp: nth_list_update)
qed

lemma alloc_run_snoc:
  "alloc_run alloc s rs = Some (gs, s1) \<Longrightarrow> alloc s1 r = Some (g, s2) \<Longrightarrow> alloc_run alloc s (rs @ [r]) = Some (gs @ [g], s2)"
  by (induction rs arbitrary: s gs) (auto simp: Option.bind_eq_Some_conv)

lemma unit_consistent:
  assumes "locks_ok s" "threads_ok s" "t < length (nd_threads s)" "in_unit (nd_threads s ! t) = Some k"
    "\<not> changing (nd_threads s ! t)"
  shows "device_inv (mg_ocssds (nd_manager s) ! k)"
proof -
  have "knows (mg_ocssds (nd_manager s)) (nd_threads s ! t)" using assms(2,3) by (simp add: threads_ok_def)
  then have k: "k < length (mg_ocssds (nd_manager s))" using assms(4) by (cases "nd_threads s ! t") auto
  have "r = t" if "r < length (nd_threads s)" "in_unit (nd_threads s ! r) = Some k" for r
    using in_unit_unique [OF assms(1,3) that(1) k assms(4) that(2)] .
  then show ?thesis using assms(2,5) k by (auto simp: threads_ok_def)
qed

lemma free_step_inv:
  assumes "node_inv m0 s" "t < length (nd_threads s)" "free_step (nd_threads s ! t) (nd_manager s) = Some (p, m)"
  shows "node_inv m0 (set_thread t p (s\<lparr>nd_manager := m\<rparr>))"
proof -
  let ?q = "nd_threads s ! t" and ?s' = "set_thread t p (s\<lparr>nd_manager := m\<rparr>)"
  let ?us = "mg_ocssds (nd_manager s)"
  have inv: "locks_ok s" "threads_ok s" "serial m0 s" "stats_ok m0 s" using assms(1) by (simp_all add: node_inv_def)
  have kn: "knows ?us ?q" using inv(2) assms(2) by (simp add: threads_ok_def)
  have st: "stats_ok m0 ?s'" using inv(4) free_step_identity [OF assms(3)] by (simp add: stats_ok_def)
  note dev = unit_consistent [OF inv(1,2) assms(2)]
  show ?thesis
  proof (cases "in_manager ?q")
    case None
    note r = free_step_reader [OF assms(3) None kn]
    have nc: "\<not> changing ?q" using None by (cases ?q) auto
    have "locks_ok ?s'" by (rule locks_ok_same [OF inv(1) assms(2)]) (use r None in simp_all)
    moreover have "threads_ok ?s'"
      by (rule threads_ok_step [OF inv(1,2) assms(2), where p = p]) (use r dev nc in auto)
    moreover have "serial m0 ?s'" by (rule serial_quiet [OF inv(3) assms(2), where p = p]) (use r in simp_all)
    ultimately show ?thesis using st by (simp add: node_inv_def)
  next
    case (Some c)
    show ?thesis
    proof (cases "changing ?q")
      case True
      then obtain j n vunit where q: "?q = Channels c j n vunit" using Some by (cases ?q) auto
      note r = free_step_channels [OF assms(3) [unfolded q] kn [unfolded q]]
      have "locks_ok ?s'" by (rule locks_ok_same [OF inv(1) assms(2)]) (use r Some q in auto)
      moreover have "threads_ok ?s'"
        by (rule threads_ok_step [OF inv(1,2) assms(2), where p = p]) (use r q in auto)
      moreover have "serial m0 ?s'"
        by (rule serial_inside [OF inv(3,1) assms(2) Some, of _ p c]) (use r q in simp_all)
      ultimately show ?thesis using st by (simp add: node_inv_def)
    next
      case False
      note r = free_step_alloc [OF assms(3) Some False kn]
      then obtain c' where c': "in_manager p = Some c'" "ac_request c' = ac_request c" by blast
      have "locks_ok ?s'" by (rule locks_ok_same [OF inv(1) assms(2)]) (use r Some in auto)
      moreover have "threads_ok ?s'" by (rule threads_ok_step [OF inv(1,2) assms(2), where p = p]) (use r in auto)
      moreover have "serial m0 ?s'"
        by (rule serial_inside [OF inv(3,1) assms(2) Some _ _ _ c']) (use r in simp_all)
      ultimately show ?thesis using st by (simp add: node_inv_def)
    qed
  qed
qed

lemma lock_manager_inv:
  assumes "node_inv m0 s" "t < length (nd_threads s)" "nd_threads s ! t = LockManager rq" "nd_mutex s = None"
  shows "node_inv m0 (set_thread t (NextUnit \<lparr>ac_request = rq, ac_unit = 0, ac_vssd = virtual_ocssd_new, ac_rq = rq,
    ac_channels = 0\<rparr>) (s\<lparr>nd_mutex := Some t\<rparr>))" (is "node_inv m0 (set_thread t ?p ?s)")
proof -
  let ?s' = "set_thread t ?p ?s"
  have inv: "locks_ok s" "threads_ok s" "serial m0 s" "stats_ok m0 s" using assms(1) by (simp_all add: node_inv_def)
  have "locks_ok ?s'" by (rule locks_ok_manager [OF inv(1) assms(2)]) (use assms in simp_all)
  moreover have "threads_ok ?s'" by (rule threads_ok_step [OF inv(1,2) assms(2), where p = ?p]) (use assms in simp_all)
  moreover have "serial m0 ?s'"
  proof -
    have "in_manager (nd_threads s ! r) = None" if "r < length (nd_threads s)" for r
      using locks_okD(2) [OF inv(1) that] assms(4) by simp
    then show ?thesis using inv(3) assms(2,4) by (auto simp: serial_def nth_list_update finish_start)
  qed
  ultimately show ?thesis using inv(4) by (simp add: node_inv_def stats_ok_def)
qed

lemma unlock_manager_inv:
  assumes "node_inv m0 s" "t < length (nd_threads s)" "nd_threads s ! t = UnlockManager c"
  shows "node_inv m0 (set_thread t Idle (s\<lparr>nd_mutex := None, nd_grants := nd_grants s @ [(ac_request c, ac_vssd c)]\<rparr>))"
    (is "node_inv m0 ?s'")
proof -
  have inv: "locks_ok s" "threads_ok s" "serial m0 s" "stats_ok m0 s" using assms(1) by (simp_all add: node_inv_def)
  have mx: "nd_mutex s = Some t" using locks_okD(2) [OF inv(1) assms(2)] assms(3) by simp
  have "locks_ok (set_thread t Idle (s\<lparr>nd_mutex := None\<rparr>))"
    by (rule locks_ok_manager [OF inv(1) assms(2)]) (use assms mx in simp_all)
  then have "locks_ok ?s'" by (simp add: locks_ok_def)
  moreover have "threads_ok ?s'" by (rule threads_ok_step [OF inv(1,2) assms(2), where p = Idle]) (use assms in simp_all)
  moreover have "serial m0 ?s'"
  proof -
    obtain ml where ml: "alloc_run manager_alloc m0 (map fst (nd_grants s)) = Some (map snd (nd_grants s), ml)"
      "finish (nd_manager s) (UnlockManager c) = alloc_ocssd_resource ml virtual_ocssd_new (ac_request c)"
      using inv(3) assms(2,3) by (auto simp: serial_def)
    then have "manager_alloc ml (ac_request c) = Some (ac_vssd c, nd_manager s)"
      by (simp add: manager_alloc_def finish_def ml(2) [symmetric])
    from alloc_run_snoc [OF ml(1) this]
    have run: "alloc_run manager_alloc m0 (map fst (nd_grants ?s')) = Some (map snd (nd_grants ?s'), nd_manager s)" by simp
    have "in_manager (nd_threads s ! r) = None" if "r < length (nd_threads s)" "r \<noteq> t" for r
      using locks_okD(2) [OF inv(1) that(1)] mx that(2) by simp
    then show ?thesis unfolding serial_def
      using run assms(2) by (intro exI [of _ "nd_manager s"]) (auto simp: nth_list_update)
  qed
  ultimately show ?thesis using inv(4) by (simp add: node_inv_def stats_ok_def)
qed

text \<open>Taking a device's lock, and releasing it.\<close>

lemma lock_unit_inv:
  assumes "node_inv m0 s" "t < length (nd_threads s)" "k < length (mg_ocssds (nd_manager s))" "nd_unit_mutex s ! k = None"
    and old: "in_unit (nd_threads s ! t) = None"
    and p: "in_unit p = Some k" "device_inv (mg_ocssds (nd_manager s) ! k) \<Longrightarrow> knows (mg_ocssds (nd_manager s)) p"
    and call: "in_manager p = in_manager (nd_threads s ! t)"
      "\<And>c. in_manager p = Some c \<Longrightarrow> finish (nd_manager s) p = finish (nd_manager s) (nd_threads s ! t)"
  shows "node_inv m0 (set_thread t p (s\<lparr>nd_unit_mutex := (nd_unit_mutex s)[k := Some t]\<rparr>))" (is "node_inv m0 ?s'")
proof -
  have inv: "locks_ok s" "threads_ok s" "serial m0 s" "stats_ok m0 s" using assms(1) by (simp_all add: node_inv_def)
  have len: "length (nd_unit_mutex s) = length (mg_ocssds (nd_manager s))" using locks_okD(1) [OF inv(1) assms(2)] .
  have "in_unit (nd_threads s ! r) \<noteq> Some k" if "r < length (nd_threads s)" for r
    using locks_okD(3) [OF inv(1) that, of k] assms(3,4) len by simp
  then have dev: "device_inv (mg_ocssds (nd_manager s) ! k)" using inv(2) assms(3) by (auto simp: threads_ok_def)
  have "locks_ok ?s'" by (rule locks_ok_unit [OF inv(1) assms(2)]) (use assms len in simp_all)
  moreover have "threads_ok ?s'" by (rule threads_ok_step [OF inv(1,2) assms(2), where p = p]) (use old p(2) dev in simp_all)
  moreover have "serial m0 ?s'"
  proof (cases "in_manager p")
    case None
    then show ?thesis by (intro serial_quiet [OF inv(3) assms(2), where p = p]) simp_all
  next
    case (Some c)
    then show ?thesis using call by (intro serial_inside [OF inv(3,1) assms(2), of c _ p c]) simp_all
  qed
  ultimately show ?thesis using inv(4) by (simp add: node_inv_def stats_ok_def)
qed

lemma unlock_unit_inv:
  assumes "node_inv m0 s" "t < length (nd_threads s)" "in_unit (nd_threads s ! t) = Some k" "\<not> changing (nd_threads s ! t)"
    and p: "in_unit p = None" "knows (mg_ocssds (nd_manager s)) p"
    and call: "in_manager (nd_threads s ! t) = None \<and> in_manager p = None \<or>
      (\<exists>c c'. in_manager (nd_threads s ! t) = Some c \<and> in_manager p = Some c' \<and> ac_request c' = ac_request c \<and>
         finish (nd_manager s) p = finish (nd_manager s) (nd_threads s ! t))"
    and log: "list_all (device_stats m0) new"
  shows "node_inv m0 (set_thread t p (s\<lparr>nd_unit_mutex := (nd_unit_mutex s)[k := None], nd_stats := nd_stats s @ new\<rparr>))"
    (is "node_inv m0 ?s'")
proof -
  have inv: "locks_ok s" "threads_ok s" "serial m0 s" "stats_ok m0 s" using assms(1) by (simp_all add: node_inv_def)
  have kn: "knows (mg_ocssds (nd_manager s)) (nd_threads s ! t)" using inv(2) assms(2) by (simp add: threads_ok_def)
  then have k: "k < length (nd_unit_mutex s)"
    using assms(3) locks_okD(1) [OF inv(1) assms(2)] by (cases "nd_threads s ! t") auto
  have mx: "nd_unit_mutex s ! k = Some t" using locks_okD(3) [OF inv(1) assms(2) k] assms(3) by simp
  have "locks_ok (set_thread t p (s\<lparr>nd_unit_mutex := (nd_unit_mutex s)[k := None]\<rparr>))"
    by (rule locks_ok_unit [OF inv(1) assms(2) k]) (use assms mx in auto)
  then have "locks_ok ?s'" by (simp add: locks_ok_def)
  moreover have "threads_ok ?s'"
    by (rule threads_ok_step [OF inv(1,2) assms(2), where p = p])
      (use p assms(3) unit_consistent [OF inv(1,2) assms(2,3,4)] in simp_all)
  moreover have "serial m0 ?s'"
    using call
  proof (elim disjE exE conjE)
    assume "in_manager p = None"
    then show ?thesis by (intro serial_quiet [OF inv(3) assms(2), where p = p]) simp_all
  next
    fix c c' assume c: "in_manager (nd_threads s ! t) = Some c" "in_manager p = Some c'" "ac_request c' = ac_request c"
      "finish (nd_manager s) p = finish (nd_manager s) (nd_threads s ! t)"
    show ?thesis by (rule serial_inside [OF inv(3,1) assms(2) c(1) _ _ _ c(2,3)]) (use c(4) in simp_all)
  qed
  moreover have "stats_ok m0 ?s'" using inv(4) log by (auto simp: stats_ok_def)
  ultimately show ?thesis by (simp add: node_inv_def)
qed

lemma alloc_points:
  assumes "knows us (LockUnit c)" "us = mg_ocssds m"
  shows "finish m (Channels c 0 0 (virtual_ocssd_unit_new (du_name (us ! ac_unit c)) (du_geo (us ! ac_unit c)))) =
      finish m (LockUnit c)"
    "device_inv (us ! ac_unit c) \<Longrightarrow>
      knows us (Channels c 0 0 (virtual_ocssd_unit_new (du_name (us ! ac_unit c)) (du_geo (us ! ac_unit c))))"
  using assms finish_unit_start [of c "us ! ac_unit c"] finish_loop_unit [of c us]
  by (auto simp: finish_def finish_devices_def)

lemma unlock_unit_finish:
  "finish m (AddCount (if n = 0 then c else c\<lparr>ac_vssd := vssd_add (ac_vssd c) vunit\<rparr>) n) = finish m (UnlockUnit c n vunit)"
  by (simp add: finish_def finish_devices_def after_unit_def Let_def)

lemma thread_step_inv:
  assumes "node_inv m0 s" "t < length (nd_threads s)" "thread_step t s = Some s'"
  shows "node_inv m0 s'"
proof -
  let ?q = "nd_threads s ! t" and ?us = "mg_ocssds (nd_manager s)"
  have kn: "knows ?us ?q" using assms(1,2) by (simp add: node_inv_def threads_ok_def)
  have lk: "locks_ok s" using assms(1) by (simp add: node_inv_def)
  have st: "thread_step t s = do { (p, m) \<leftarrow> free_step ?q (nd_manager s); Some (set_thread t p (s\<lparr>nd_manager := m\<rparr>)) } \<Longrightarrow> ?thesis"
    using free_step_inv [OF assms(1,2)] assms(3)
    by (cases "free_step ?q (nd_manager s)") auto
  show ?thesis
  proof (cases ?q)
    case (LockManager rq)
    then have "nd_mutex s = None" "s' = set_thread t (NextUnit \<lparr>ac_request = rq, ac_unit = 0, ac_vssd = virtual_ocssd_new,
        ac_rq = rq, ac_channels = 0\<rparr>) (s\<lparr>nd_mutex := Some t\<rparr>)"
      using assms(3) by (auto simp: thread_step_def MutexLock_new_def split: if_splits)
    then show ?thesis using lock_manager_inv [OF assms(1,2) LockManager] by simp
  next
    case (LockUnit c)
    let ?p = "Channels c 0 0 (virtual_ocssd_unit_new (du_name (?us ! ac_unit c)) (du_geo (?us ! ac_unit c)))"
    have x: "nd_unit_mutex s ! ac_unit c = None"
      "s' = set_thread t ?p (s\<lparr>nd_unit_mutex := (nd_unit_mutex s)[ac_unit c := Some t]\<rparr>)"
      using assms(3) LockUnit by (auto simp: thread_step_def Let_def MutexLock_new_def split: if_splits)
    note a = alloc_points [OF kn [unfolded LockUnit] refl]
    show ?thesis unfolding x(2)
      by (rule lock_unit_inv [OF assms(1,2) _ x(1)]) (use kn a LockUnit in simp_all)
  next
    case (UnlockUnit c n vunit)
    let ?p = "AddCount (if n = 0 then c else c\<lparr>ac_vssd := vssd_add (ac_vssd c) vunit\<rparr>) n"
    have x: "s' = set_thread t ?p (s\<lparr>nd_unit_mutex := (nd_unit_mutex s)[ac_unit c := None], nd_stats := nd_stats s @ []\<rparr>)"
      using assms(3) UnlockUnit by (auto simp: thread_step_def Let_def MutexLock_delete_def split: if_splits)
    show ?thesis unfolding x
      by (rule unlock_unit_inv [OF assms(1,2)])
        (use kn UnlockUnit unlock_unit_finish [of "nd_manager s" n c vunit] in \<open>auto simp del: append_Nil2\<close>)
  next
    case (UnlockManager c)
    then have "s' = set_thread t Idle (s\<lparr>nd_mutex := None, nd_grants := nd_grants s @ [(ac_request c, ac_vssd c)]\<rparr>)"
      using assms(3) by (auto simp: thread_step_def MutexLock_delete_def split: if_splits)
    then show ?thesis using unlock_manager_inv [OF assms(1,2) UnlockManager] by simp
  next
    case (LockStats k)
    have x: "nd_unit_mutex s ! k = None"
      "s' = set_thread t (StatsShared k 0 0 0) (s\<lparr>nd_unit_mutex := (nd_unit_mutex s)[k := Some t]\<rparr>)"
      using assms(3) LockStats by (auto simp: thread_step_def MutexLock_new_def split: if_splits)
    show ?thesis unfolding x(2) by (rule lock_unit_inv [OF assms(1,2) _ x(1)]) (use kn LockStats in simp_all)
  next
    case (UnlockStats k r)
    have x: "s' = set_thread t Idle (s\<lparr>nd_unit_mutex := (nd_unit_mutex s)[k := None], nd_stats := nd_stats s @ [(k, r)]\<rparr>)"
      using assms(3) UnlockStats by (auto simp: thread_step_def MutexLock_delete_def split: if_splits)
    have "device_inv (?us ! k)"
      by (rule unit_consistent [OF lk _ assms(2)]) (use assms(1) UnlockStats in \<open>simp_all add: node_inv_def\<close>)
    moreover have "identity (?us ! k) = identity (mg_ocssds m0 ! k)" "length ?us = length (mg_ocssds m0)"
      using assms(1) kn UnlockStats by (auto simp: node_inv_def stats_ok_def dest: map_eq_imp_length_eq)
        (metis nth_map map_eq_imp_length_eq)
    ultimately show ?thesis unfolding x using kn UnlockStats
      by (intro unlock_unit_inv [OF assms(1,2)]) (auto simp: device_stats_def)
  qed (rule st, simp add: thread_step_def)+
qed

lemma idle_step_inv:
  assumes "node_inv m0 s" "t < length (nd_threads s)" "nd_threads s ! t = Idle"
    "in_manager p = None" "in_unit p = None" "knows (mg_ocssds (nd_manager s)) p"
  shows "node_inv m0 (set_thread t p s)"
proof -
  have inv: "locks_ok s" "threads_ok s" "serial m0 s" "stats_ok m0 s" using assms(1) by (simp_all add: node_inv_def)
  have "locks_ok (set_thread t p s)"
    using locks_ok_same [OF inv(1) assms(2), of p "nd_manager s"] assms(3-5) by simp
  moreover have "threads_ok (set_thread t p s)"
    by (rule threads_ok_step [OF inv(1,2) assms(2), where p = p]) (use assms(3,6) in simp_all)
  moreover have "serial m0 (set_thread t p s)"
    by (rule serial_quiet [OF inv(3) assms(2), where p = p]) (use assms(4) in simp_all)
  ultimately show ?thesis using inv(4) by (simp add: node_inv_def stats_ok_def)
qed

lemma node_step_inv: "node_step s s' \<Longrightarrow> node_inv m0 s \<Longrightarrow> node_inv m0 s'"
  by (induction rule: node_step.induct) (auto intro: idle_step_inv thread_step_inv)

lemma node_reachable_inv:
  assumes "manager_inv m0" "node_step\<^sup>*\<^sup>* (node_start m0 threads) s"
  shows "node_inv m0 s"
  using assms(2) by (induction rule: rtranclp_induct) (use node_start_inv [OF assms(1)] node_step_inv in blast)+

lemma threads_kept: "node_step s s' \<Longrightarrow> length (nd_threads s') = length (nd_threads s)"
  by (induction rule: node_step.induct)
    (auto simp: thread_step_def Let_def Option.bind_eq_Some_conv split: pc.splits if_splits)

section \<open>No deadlock\<close>

text \<open>A thread in the scope of a device's lock can always go on, and so can a thread in the scope of the
  manager's lock unless it waits for a device; locks are taken in this order only.\<close>

lemma inside_unit_steps:
  assumes "node_inv m0 s" "t < length (nd_threads s)" "in_unit (nd_threads s ! t) = Some k"
  shows "\<exists>s'. thread_step t s = Some s'"
proof -
  let ?q = "nd_threads s ! t" and ?us = "mg_ocssds (nd_manager s)"
  have lk: "locks_ok s" and kn: "knows ?us ?q" using assms(1,2) by (auto simp: node_inv_def threads_ok_def)
  have k: "k < length (nd_unit_mutex s)"
    using kn assms(3) locks_okD(1) [OF lk assms(2)] by (cases ?q) auto
  then have mx: "nd_unit_mutex s ! k = Some t" using locks_okD(3) [OF lk assms(2) k] assms(3) by simp
  show ?thesis
  proof (cases ?q)
    case (Channels c j n vunit)
    then obtain u where u: "device_inv u" "finish_unit (?us ! ac_unit c) c j n vunit = alloc_channels u (ac_vssd c) (ac_rq c)"
      using kn by auto
    moreover have "alloc_channels u (ac_vssd c) (ac_rq c) \<noteq> None" using alloc_channels_grant [OF u(1), of "ac_vssd c" "ac_rq c"] by auto
    ultimately have "pool_loop (ac_rq c) (drop j (pool_of (ac_rq c) (?us ! ac_unit c))) n vunit \<noteq> None"
      by (auto simp: finish_unit_def Option.bind_eq_Some_conv)
    then have "iteration (ac_rq c) (pool_of (ac_rq c) (?us ! ac_unit c) ! j) n vunit \<noteq> None"
      if "j < length (pool_of (ac_rq c) (?us ! ac_unit c))"
      using that by (subst (asm) Cons_nth_drop_Suc [symmetric]) (auto simp: Option.bind_eq_Some_conv)
    then show ?thesis by (auto simp: Channels thread_step_def free_step_def Let_def)
  qed (use assms(3) mx in \<open>auto simp: thread_step_def free_step_def Let_def MutexLock_delete_def split: prod.split\<close>)
qed

lemma no_deadlock:
  assumes "node_inv m0 s" "t < length (nd_threads s)" "nd_threads s ! t \<noteq> Idle"
  shows "\<exists>r s'. r < length (nd_threads s) \<and> thread_step r s = Some s'"
proof -
  let ?us = "mg_ocssds (nd_manager s)"
  have lk: "locks_ok s" and kn: "\<And>r. r < length (nd_threads s) \<Longrightarrow> knows ?us (nd_threads s ! r)"
    using assms(1) by (auto simp: node_inv_def threads_ok_def)
  have len: "length (nd_unit_mutex s) = length ?us" by (rule locks_okD(1) [OF lk assms(2)])
  have waits: "?thesis" if "k < length ?us" "nd_unit_mutex s ! k \<noteq> None" for k
  proof -
    from that obtain r where r: "nd_unit_mutex s ! k = Some r" by auto
    then have "r < length (nd_threads s)" using lk that(1) len by (auto simp: locks_ok_def)
    moreover from this have "in_unit (nd_threads s ! r) = Some k" using locks_okD(3) [OF lk, of r k] r that(1) len by simp
    ultimately show ?thesis using inside_unit_steps [OF assms(1)] by blast
  qed
  have holder: "?thesis" if r: "r < length (nd_threads s)" "in_manager (nd_threads s ! r) = Some c" for r c
  proof (cases "nd_threads s ! r")
    case (LockUnit c)
    then show ?thesis using waits [of "ac_unit c"] kn [OF r(1)] r(1)
      by (cases "nd_unit_mutex s ! ac_unit c") (auto simp: thread_step_def Let_def MutexLock_new_def)
  next
    case (UnlockManager c)
    then show ?thesis using locks_okD(2) [OF lk r(1)] r by (auto simp: thread_step_def MutexLock_delete_def)
  qed (use r inside_unit_steps [OF assms(1) r(1)] in \<open>auto simp: thread_step_def free_step_def Let_def\<close>)
  show ?thesis
  proof (cases "nd_threads s ! t")
    case (LockManager rq)
    show ?thesis
    proof (cases "nd_mutex s")
      case None
      then show ?thesis using LockManager assms(2) by (auto simp: thread_step_def MutexLock_new_def)
    next
      case (Some r)
      then have r: "r < length (nd_threads s)" using lk by (simp add: locks_ok_def)
      then show ?thesis using holder [OF r] locks_okD(2) [OF lk r] Some by auto
    qed
  next
    case (LockStats k)
    then show ?thesis using waits [of k] kn [OF assms(2)] assms(2)
      by (cases "nd_unit_mutex s ! k") (auto simp: thread_step_def MutexLock_new_def)
  qed (use assms(2,3) holder [OF assms(2)] inside_unit_steps [OF assms(1,2)] in auto)
qed

section \<open>Theorems\<close>

text \<open>Three threads on a node with one device: two ask for a virtual SSD, the third for the statistics.  The
  first call has released the device when the third thread locks it, and returns while the third thread
  counts; the second call waits for both.\<close>

definition sample_node :: node where
  "sample_node = (node_start sample_manager 3)\<lparr>nd_threads :=
     [LockManager (ocssd_alloc_request_new 2 6 1 0 0), LockManager (ocssd_alloc_request_new 2 6 1 0 0), LockStats 0]\<rparr>"

fun schedule :: "nat list \<Rightarrow> node \<Rightarrow> node option" where
  "schedule [] s = Some s"
| "schedule (t # ts) s = do { s \<leftarrow> thread_step t s; schedule ts s }"

definition sample_schedule :: "nat list" where
  "sample_schedule = [0, 0, 0, 0, 0, 0, 2, 0, 2, 0, 2, 0, 2, 0, 1, 1] @ replicate 6 2 @ replicate 8 1"

definition sample_run :: node where
  "sample_run = the (schedule sample_schedule sample_node)"

lemma schedule_steps:
  "schedule ts s = Some s' \<Longrightarrow> \<forall>t\<in>set ts. t < length (nd_threads s) \<Longrightarrow> node_step\<^sup>*\<^sup>* s s'"
proof (induction ts arbitrary: s)
  case (Cons t ts)
  then obtain s1 where s1: "thread_step t s = Some s1" "schedule ts s1 = Some s'" by (auto simp: Option.bind_eq_Some_conv)
  have st: "node_step s s1" using Cons.prems(2) s1(1) by (intro node_step.go_on) auto
  then show ?case
    using Cons.IH [OF s1(2)] Cons.prems(2) threads_kept [OF st] by (auto intro: converse_rtranclp_into_rtranclp)
qed simp

lemma sample_node_reachable: "node_step\<^sup>*\<^sup>* (node_start sample_manager 3) sample_node"
proof -
  let ?rq = "ocssd_alloc_request_new 2 6 1 0 0"
  define s0 where "s0 = node_start sample_manager 3"
  define s1 where "s1 = set_thread 0 (LockManager ?rq) s0"
  define s2 where "s2 = set_thread 1 (LockManager ?rq) s1"
  have "node_step s0 s1" unfolding s1_def by (rule node_step.request) (simp_all add: s0_def node_start_def)
  moreover have "node_step s1 s2" unfolding s2_def
    by (rule node_step.request) (simp_all add: s1_def s0_def node_start_def numeral_3_eq_3)
  moreover have "node_step s2 (set_thread 2 (LockStats 0) s2)"
    by (rule node_step.stats)
      (simp_all add: s2_def s1_def s0_def node_start_def numeral_3_eq_3 sample_manager_def add_ocssd_def ocssd_unit_new_def)
  moreover have "set_thread 2 (LockStats 0) s2 = sample_node"
    by (simp add: sample_node_def s2_def s1_def s0_def node_start_def numeral_3_eq_3 numeral_2_eq_2)
  ultimately show ?thesis unfolding s0_def [symmetric]
    by (metis rtranclp.rtrancl_into_rtrancl rtranclp.rtrancl_refl)
qed

lemma sample_run_reachable: "node_step\<^sup>*\<^sup>* (node_start sample_manager 3) sample_run"
proof -
  have "map_option (\<lambda>s. ()) (schedule sample_schedule sample_node) = Some ()" by code_simp
  then have "schedule sample_schedule sample_node = Some sample_run" by (auto simp: sample_run_def)
  moreover have "\<forall>t\<in>set sample_schedule. t < length (nd_threads sample_node)"
    by (simp add: sample_schedule_def sample_node_def)
  ultimately show ?thesis using sample_node_reachable schedule_steps by (meson rtranclp_trans)
qed



text \<open>C13: The locks cannot deadlock.  Whenever some thread is inside of a call, some thread can take a
  step: the manager's lock is always taken before a device's lock, a thread inside of a device's scope
  never waits, and none of the loops is stuck.\<close>

theorem concurrent_calls_progress:
  assumes "manager_inv m" and "node_step\<^sup>*\<^sup>* (node_start m threads) s"
    and "t < length (nd_threads s)" and "nd_threads s ! t \<noteq> Idle"
  shows "\<exists>r s'. r < length (nd_threads s) \<and> thread_step r s = Some s'"
  by (rule no_deadlock [OF node_reachable_inv [OF assms(1,2)] assms(3,4)])

theorem concurrent_calls_progress_witness: "\<exists>r s'. r < 3 \<and> thread_step r sample_node = Some s'"
proof -
  have "length (nd_threads sample_node) = 3" "nd_threads sample_node ! 0 \<noteq> Idle"
    by (simp_all add: sample_node_def)
  then show ?thesis using concurrent_calls_progress [OF sample_manager_inv sample_node_reachable, of 0] by auto
qed

end
