(* ===== verification/Lifetime.thy ===== *)
theory Lifetime
  imports Conn "HOL-Library.Multiset"
begin

text \<open>
  The life of the objects: which \<^verbatim>\<open>new\<close> is undone by which \<^verbatim>\<open>delete\<close>.  The classes of
  \<^verbatim>\<open>src/ocssd_server.h\<close> own their parts through pointers; here an object is the tree of its
  addresses, a heap the set of live addresses, and deleting an address that is not live is undefined.
  Constructors and destructors follow the source.  The theorems show that the destructors free every
  part exactly once and nothing else, and that the handler of an allocation request leaves on the heap
  only the reply it queues.
\<close>

section \<open>The heap\<close>

type_synonym addr = nat

record heap =
  hp_next :: addr
  hp_live :: "addr set"

definition heap_ok :: "heap \<Rightarrow> bool" where
  "heap_ok h \<longleftrightarrow> (\<forall>a\<in>hp_live h. a < hp_next h)"

definition cxx_new :: "heap \<Rightarrow> addr \<times> heap" where
  "cxx_new h = (hp_next h, \<lparr>hp_next = hp_next h + 1, hp_live = insert (hp_next h) (hp_live h)\<rparr>)"

definition cxx_delete :: "addr \<Rightarrow> heap \<Rightarrow> heap option" where
  "cxx_delete a h = (if a \<in> hp_live h then Some (h\<lparr>hp_live := hp_live h - {a}\<rparr>) else None)"

text \<open>\<open>make_all\<close> is a loop that creates an object per element, \<open>delete_all\<close> one that deletes them.\<close>

fun make_all :: "('x \<Rightarrow> heap \<Rightarrow> 'o \<times> heap) \<Rightarrow> 'x list \<Rightarrow> heap \<Rightarrow> 'o list \<times> heap" where
  "make_all mk [] h = ([], h)"
| "make_all mk (x # xs) h = (let (p, h) = mk x h; (ps, h) = make_all mk xs h in (p # ps, h))"

fun delete_all :: "('o \<Rightarrow> heap \<Rightarrow> heap option) \<Rightarrow> 'o list \<Rightarrow> heap \<Rightarrow> heap option" where
  "delete_all del [] h = Some h"
| "delete_all del (p # ps) h = do { h \<leftarrow> del p h; delete_all del ps h }"

section \<open>Descriptions\<close>

text \<open>A channel with its LUNs, a unit with its geometry and channels, a virtual SSD with its units.\<close>

datatype vchannel_obj = Vchannel addr "addr list"
datatype vunit_obj = Vunit addr addr "vchannel_obj list"
datatype vssd_obj = Vssd addr "vunit_obj list"

definition make_vchannel :: "virtual_ocssd_channel \<Rightarrow> heap \<Rightarrow> vchannel_obj \<times> heap" where
  "make_vchannel ch h =
     (let (a, h) = cxx_new h;
          (luns, h) = make_all (\<lambda>_. cxx_new) (vc_luns ch) h
      in (Vchannel a luns, h))"

definition make_vunit :: "heap \<Rightarrow> vunit_obj \<times> heap" where
  "make_vunit h =
     (let (a, h) = cxx_new h;
          (geo, h) = cxx_new h
      in (Vunit a geo [], h))"

definition make_vssd :: "heap \<Rightarrow> vssd_obj \<times> heap" where
  "make_vssd h = (let (a, h) = cxx_new h in (Vssd a [], h))"

fun add_vchannels :: "vunit_obj \<Rightarrow> vchannel_obj list \<Rightarrow> vunit_obj" where
  "add_vchannels (Vunit a geo chs) new = Vunit a geo (chs @ new)"

fun add_vunit :: "vssd_obj \<Rightarrow> vunit_obj \<Rightarrow> vssd_obj" where
  "add_vunit (Vssd a us) u = Vssd a (us @ [u])"

text \<open>The destructors, followed by the release of the object's own storage.\<close>

fun delete_vchannel :: "vchannel_obj \<Rightarrow> heap \<Rightarrow> heap option" where
  "delete_vchannel (Vchannel a luns) h = do {
     h \<leftarrow> delete_all cxx_delete luns h;
     cxx_delete a h }"

fun delete_vunit :: "vunit_obj \<Rightarrow> heap \<Rightarrow> heap option" where
  "delete_vunit (Vunit a geo chs) h = do {
     h \<leftarrow> delete_all delete_vchannel chs h;
     h \<leftarrow> cxx_delete geo h;
     cxx_delete a h }"

fun delete_vssd :: "vssd_obj \<Rightarrow> heap \<Rightarrow> heap option" where
  "delete_vssd (Vssd a us) h = do {
     h \<leftarrow> delete_all delete_vunit us h;
     cxx_delete a h }"

section \<open>Devices\<close>

text \<open>A channel of a device: its LUN pointers and the count \<^verbatim>\<open>num_luns_\<close> that its destructor uses; a
  device with its two pools; the manager's devices.\<close>

datatype channel_obj = Channel addr nat "addr list"
datatype device_obj = Device addr string "channel_obj list" "channel_obj list"

definition make_channel :: "ocssd_channel \<Rightarrow> heap \<Rightarrow> channel_obj \<times> heap" where
  "make_channel ch h =
     (let (a, h) = cxx_new h;
          (luns, h) = make_all (\<lambda>_. cxx_new) (ch_luns ch) h
      in (Channel a (unat (ch_num_luns ch)) luns, h))"

definition make_device :: "ocssd_unit \<Rightarrow> heap \<Rightarrow> device_obj \<times> heap" where
  "make_device u h =
     (let (a, h) = cxx_new h;
          (shared, h) = make_all make_channel (du_shared_channels u) h;
          (exclusive, h) = make_all make_channel (du_exclusive_channels u) h
      in (Device a (du_name u) shared exclusive, h))"

text \<open>The loop \<^verbatim>\<open>for (lun_id = 0; lun_id < num_luns_; lun_id++) delete luns_[lun_id]\<close>; an index outside
  of the vector is undefined.\<close>

fun delete_luns :: "addr list \<Rightarrow> nat list \<Rightarrow> heap \<Rightarrow> heap option" where
  "delete_luns luns [] h = Some h"
| "delete_luns luns (i # is) h =
     (if i < length luns then do { h \<leftarrow> cxx_delete (luns ! i) h; delete_luns luns is h } else None)"

fun delete_channel :: "channel_obj \<Rightarrow> heap \<Rightarrow> heap option" where
  "delete_channel (Channel a n luns) h = do {
     h \<leftarrow> delete_luns luns [0..<n] h;
     cxx_delete a h }"

fun delete_device :: "device_obj \<Rightarrow> heap \<Rightarrow> heap option" where
  "delete_device (Device a name shared exclusive) h = do {
     h \<leftarrow> delete_all delete_channel shared h;
     h \<leftarrow> delete_all delete_channel exclusive h;
     cxx_delete a h }"

fun device_obj_name :: "device_obj \<Rightarrow> string" where
  "device_obj_name (Device a name shared exclusive) = name"

text \<open>\<^verbatim>\<open>~ocssd_manager\<close>: the heap afterwards and the devices that \<^verbatim>\<open>nvm_dev_close\<close> was called for, in
  order.\<close>

definition delete_manager_units :: "device_obj list \<Rightarrow> heap \<Rightarrow> (heap \<times> string list) option" where
  "delete_manager_units us h = do {
     h \<leftarrow> delete_all delete_device us h;
     Some (h, map device_obj_name us) }"

section \<open>The handler of an allocation request\<close>

text \<open>\<^verbatim>\<open>alloc_channels\<close>: the virtual unit is created, every channel granted is created and added to it, and
  a unit without channels is deleted again.  \<open>chs\<close> are the channels granted.\<close>

definition alloc_channels_heap ::
  "ocssd_alloc_request \<Rightarrow> u64 \<Rightarrow> virtual_ocssd_channel list \<Rightarrow> vssd_obj \<Rightarrow> heap \<Rightarrow> (vssd_obj \<times> heap) option" where
  "alloc_channels_heap request channels chs vssd h =
     (if rq_num_channels request = 0 then Some (vssd, h)
      else let (vunit, h) = make_vunit h;
               (vchs, h) = make_all make_vchannel chs h;
               vunit = add_vchannels vunit vchs
           in if channels = 0 then do { h \<leftarrow> delete_vunit vunit h; Some (vssd, h) }
              else Some (add_vunit vssd vunit, h))"

definition granted_channels :: "virtual_ocssd \<Rightarrow> virtual_ocssd \<Rightarrow> virtual_ocssd_channel list" where
  "granted_channels v v' = concat (map vu_channels (drop (length (v_units v)) (v_units v')))"

text \<open>The loop over the devices, with the objects it creates.\<close>

fun alloc_loop_heap ::
  "ocssd_unit list \<Rightarrow> virtual_ocssd \<Rightarrow> ocssd_alloc_request \<Rightarrow> vssd_obj \<Rightarrow> heap \<Rightarrow> (vssd_obj \<times> heap) option" where
  "alloc_loop_heap [] vssd request p h = Some (p, h)"
| "alloc_loop_heap (u # us) vssd request p h = do {
     (ret, vssd', u') \<leftarrow> alloc_channels u vssd request;
     (p, h) \<leftarrow> alloc_channels_heap request ret (granted_channels vssd vssd') p h;
     let request' = dec_channels request ret;
     if rq_num_channels request' = 0 then Some (p, h)
     else alloc_loop_heap us vssd' request' p h }"

text \<open>\<^verbatim>\<open>struct bufferq\<close>: the object and the buffer it points to.\<close>

definition make_bufferq :: "heap \<Rightarrow> (addr \<times> addr) \<times> heap" where
  "make_bufferq h = (let (a, h) = cxx_new h; (mem, h) = cxx_new h in ((a, mem), h))"

fun delete_bufferq :: "addr \<times> addr \<Rightarrow> heap \<Rightarrow> heap option" where
  "delete_bufferq (a, mem) h = do { h \<leftarrow> cxx_delete mem h; cxx_delete a h }"

text \<open>\<^verbatim>\<open>process_alloc_request\<close>: the virtual SSD is deleted on every return; the reply, if there is one, stays in
  the queue.  \<open>opens\<close> tells whether \<^verbatim>\<open>nvm_dev_open\<close> succeeds for a remote request; otherwise an exception
  leaves the handler.\<close>

definition process_alloc_heap ::
  "bool \<Rightarrow> ocssd_manager \<Rightarrow> ocssd_alloc_request \<Rightarrow> heap \<Rightarrow> ((cxx_exception + (addr \<times> addr) option) \<times> heap) option" where
  "process_alloc_heap opens m request h = do {
     let (p, h) = make_vssd h;
     (p, h) \<leftarrow> alloc_loop_heap (mg_ocssds m) virtual_ocssd_new request p h;
     (ret, vssd, request, _) \<leftarrow> alloc_ocssd_resource m virtual_ocssd_new request;
     if ret = 0 \<or> length (v_units vssd) < 1
     then do { h \<leftarrow> delete_vssd p h; Some (Inr None, h) }
     else let (bq, h) = make_bufferq h in
       if rq_remote request \<noteq> 0 \<and> \<not> opens then Some (Inl opening_device_failed, h)
       else do { h \<leftarrow> delete_vssd p h; Some (Inr (Some bq), h) } }"

text \<open>\<^verbatim>\<open>~ocssd_conn\<close>: the device closed, if any, and the virtual blocks freed.\<close>

fun free_vblks :: "('a, 'd) nvm \<Rightarrow> nvm_vblk list \<Rightarrow> 'd \<Rightarrow> 'd option" where
  "free_vblks lib [] d = Some d"
| "free_vblks lib (b # bs) d = do { d \<leftarrow> nvm_vblk_free lib d b; free_vblks lib bs d }"

definition ocssd_conn_delete :: "('a, 'd) nvm \<Rightarrow> ocssd_conn \<Rightarrow> 'd \<Rightarrow> (string option \<times> 'd) option" where
  "ocssd_conn_delete lib c d =
     (if cn_remote_vssd c \<noteq> 0
      then do { d \<leftarrow> free_vblks lib (cn_blks_array c) d; Some (map_option fst (cn_dev c), d) }
      else Some (None, d))"

section \<open>Objects and what they own\<close>

text \<open>An interface: \<open>mk\<close> creates an object, \<open>del\<close> deletes it, \<open>own\<close> are its addresses.  Creation takes fresh
  addresses; deletion succeeds when the addresses are live and distinct, and frees exactly them.\<close>

definition grows :: "heap \<Rightarrow> heap \<Rightarrow> addr list \<Rightarrow> bool" where
  "grows h h' as \<longleftrightarrow> hp_next h \<le> hp_next h' \<and> hp_live h' = hp_live h \<union> set as \<and> distinct as \<and>
     (\<forall>a\<in>set as. hp_next h \<le> a \<and> a < hp_next h')"

definition frees :: "(heap \<Rightarrow> heap option) \<Rightarrow> addr list \<Rightarrow> bool" where
  "frees del as \<longleftrightarrow> (\<forall>h. distinct as \<longrightarrow> set as \<subseteq> hp_live h \<longrightarrow> del h = Some (h\<lparr>hp_live := hp_live h - set as\<rparr>))"

lemma grows_trans: "grows h h1 as \<Longrightarrow> grows h1 h2 bs \<Longrightarrow> grows h h2 (as @ bs)"
  by (fastforce simp: grows_def)

lemma grows_refl [simp]: "grows h h []"
  by (simp add: grows_def)

lemma grows_ok: "heap_ok h \<Longrightarrow> grows h h' as \<Longrightarrow> heap_ok h' \<and> hp_live h \<inter> set as = {}"
  by (fastforce simp: grows_def heap_ok_def)

lemma cxx_new_grows: "cxx_new h = (a, h') \<Longrightarrow> grows h h' [a]"
  by (auto simp: cxx_new_def grows_def)

lemma cxx_delete_frees: "frees (cxx_delete a) [a]"
  by (simp add: frees_def cxx_delete_def)

lemma frees_bind: "frees f as \<Longrightarrow> frees g bs \<Longrightarrow> frees (\<lambda>h. Option.bind (f h) g) (as @ bs)"
proof (unfold frees_def, intro allI impI)
  fix h :: heap
  assume f: "\<forall>h. distinct as \<longrightarrow> set as \<subseteq> hp_live h \<longrightarrow> f h = Some (h\<lparr>hp_live := hp_live h - set as\<rparr>)"
    and g: "\<forall>h. distinct bs \<longrightarrow> set bs \<subseteq> hp_live h \<longrightarrow> g h = Some (h\<lparr>hp_live := hp_live h - set bs\<rparr>)"
    and d: "distinct (as @ bs)" "set (as @ bs) \<subseteq> hp_live h"
  have "f h = Some (h\<lparr>hp_live := hp_live h - set as\<rparr>)" using f d by simp
  moreover have "set bs \<subseteq> hp_live (h\<lparr>hp_live := hp_live h - set as\<rparr>)" using d by auto
  moreover have "hp_live h - set as - set bs = hp_live h - set (as @ bs)" by auto
  ultimately show "Option.bind (f h) g = Some (h\<lparr>hp_live := hp_live h - set (as @ bs)\<rparr>)" using g d(1) by simp
qed

lemma frees_ext: "(\<And>h. f h = g h) \<Longrightarrow> frees g as \<Longrightarrow> frees f as"
  by (simp add: frees_def)

lemma list_all_True [simp]: "list_all (\<lambda>_. True) xs"
  by (simp add: list_all_iff)

lemma grows_perm: "grows h h' as \<Longrightarrow> mset bs = mset as \<Longrightarrow> grows h h' bs"
  using mset_eq_setD [of bs as] mset_eq_imp_distinct_iff [of bs as] by (simp add: grows_def)

text \<open>Freeing part of what has been created.\<close>

lemma grows_frees:
  assumes "heap_ok h" "grows h h1 (as @ bs)" "frees del bs"
  shows "\<exists>h2. del h1 = Some h2 \<and> grows h h2 as"
proof -
  have "hp_live h \<inter> set bs = {}" using grows_ok [OF assms(1,2)] by auto
  moreover have "set bs \<subseteq> hp_live h1" "distinct bs" using assms(2) by (auto simp: grows_def)
  ultimately show ?thesis using assms(2,3) by (auto simp: frees_def grows_def)
qed

locale owned_object =
  fixes mk :: "'x \<Rightarrow> heap \<Rightarrow> 'o \<times> heap"
    and del :: "'o \<Rightarrow> heap \<Rightarrow> heap option"
    and own :: "'o \<Rightarrow> addr list"
    and ok :: "'x \<Rightarrow> bool"
  assumes mk_owns: "ok x \<Longrightarrow> mk x h = (p, h') \<Longrightarrow> grows h h' (own p) \<and> frees (del p) (own p)"
begin

lemma make_all_owns:
  "list_all ok xs \<Longrightarrow> make_all mk xs h = (ps, h') \<Longrightarrow>
   grows h h' (concat (map own ps)) \<and> frees (delete_all del ps) (concat (map own ps)) \<and> length ps = length xs"
proof (induction xs arbitrary: h ps)
  case Nil
  then show ?case by (simp add: frees_def)
next
  case (Cons x xs)
  obtain p h1 qs where r: "mk x h = (p, h1)" "make_all mk xs h1 = (qs, h')" "ps = p # qs"
    using Cons.prems(2) by (auto simp: Let_def split: prod.splits)
  have x: "grows h h1 (own p)" "frees (del p) (own p)" using mk_owns [OF _ r(1)] Cons.prems(1) by auto
  have xs: "grows h1 h' (concat (map own qs))" "frees (delete_all del qs) (concat (map own qs))" "length qs = length xs"
    using Cons.IH [OF _ r(2)] Cons.prems(1) by auto
  have "frees (delete_all del ps) (own p @ concat (map own qs))"
    by (rule frees_ext [OF _ frees_bind [OF x(2) xs(2)]]) (simp add: r(3))
  then show ?case using grows_trans [OF x(1) xs(1)] xs(3) r(3) by (simp del: delete_all.simps)
qed

end

interpretation lun: owned_object "\<lambda>_. cxx_new" cxx_delete "\<lambda>a. [a]" "\<lambda>_. True"
  by unfold_locales (use cxx_new_grows cxx_delete_frees in blast)

fun own_vchannel :: "vchannel_obj \<Rightarrow> addr list" where
  "own_vchannel (Vchannel a luns) = luns @ [a]"

fun own_vunit :: "vunit_obj \<Rightarrow> addr list" where
  "own_vunit (Vunit a geo chs) = concat (map own_vchannel chs) @ [geo, a]"

fun own_vssd :: "vssd_obj \<Rightarrow> addr list" where
  "own_vssd (Vssd a us) = concat (map own_vunit us) @ [a]"

fun own_channel :: "channel_obj \<Rightarrow> addr list" where
  "own_channel (Channel a n luns) = luns @ [a]"

fun own_device :: "device_obj \<Rightarrow> addr list" where
  "own_device (Device a name shared exclusive) =
     concat (map own_channel shared) @ concat (map own_channel exclusive) @ [a]"

lemma delete_all_frees: "\<forall>p\<in>set ps. frees (del p) (own p) \<Longrightarrow> frees (delete_all del ps) (concat (map own ps))"
proof (induction ps)
  case Nil
  then show ?case by (simp add: frees_def)
next
  case (Cons p ps)
  then have "frees (del p) (own p)" "frees (delete_all del ps) (concat (map own ps))" by simp_all
  from frees_ext [OF _ frees_bind [OF this], of "delete_all del (p # ps)"] show ?case
    by (simp del: delete_all.simps(2)) (simp add: frees_def)
qed

lemma delete_vchannel_frees: "frees (delete_vchannel p) (own_vchannel p)"
proof (cases p)
  case (Vchannel a luns)
  have "frees (delete_all cxx_delete luns) luns"
    using delete_all_frees [of luns cxx_delete "\<lambda>a. [a]"] by (simp add: cxx_delete_frees)
  from frees_ext [OF _ frees_bind [OF this cxx_delete_frees [of a]], of "delete_vchannel p"] show ?thesis
    by (simp add: Vchannel)
qed

lemma delete_vunit_frees: "frees (delete_vunit p) (own_vunit p)"
proof (cases p)
  case (Vunit a geo chs)
  have "frees (delete_all delete_vchannel chs) (concat (map own_vchannel chs))"
    by (rule delete_all_frees) (simp add: delete_vchannel_frees)
  from frees_ext [OF _ frees_bind [OF this frees_bind [OF cxx_delete_frees [of geo] cxx_delete_frees [of a]]],
      of "delete_vunit p"]
  show ?thesis by (simp add: Vunit)
qed

lemma delete_vssd_frees: "frees (delete_vssd p) (own_vssd p)"
proof (cases p)
  case (Vssd a us)
  have "frees (delete_all delete_vunit us) (concat (map own_vunit us))"
    by (rule delete_all_frees) (simp add: delete_vunit_frees)
  from frees_ext [OF _ frees_bind [OF this cxx_delete_frees [of a]], of "delete_vssd p"] show ?thesis
    by (simp add: Vssd)
qed

interpretation vchannel: owned_object make_vchannel delete_vchannel own_vchannel "\<lambda>_. True"
proof unfold_locales
  fix ch h p h' assume "make_vchannel ch h = (p, h')"
  then obtain a h1 luns where r: "cxx_new h = (a, h1)" "make_all (\<lambda>_. cxx_new) (vc_luns ch) h1 = (luns, h')" "p = Vchannel a luns"
    by (auto simp: make_vchannel_def Let_def split: prod.splits)
  have "grows h1 h' luns" using lun.make_all_owns [OF _ r(2)] by simp
  from grows_perm [OF grows_trans [OF cxx_new_grows [OF r(1)] this]]
  show "grows h h' (own_vchannel p) \<and> frees (delete_vchannel p) (own_vchannel p)"
    using delete_vchannel_frees [of p] r(3) by simp
qed

text \<open>The destructor of a channel reads its LUN pointers by index.\<close>

lemma delete_luns_eq: "n \<le> length luns \<Longrightarrow> delete_luns luns [m..<n] h = delete_all cxx_delete (drop m (take n luns)) h"
proof (induction "n - m" arbitrary: m h)
  case (Suc k)
  then have "[m..<n] = m # [Suc m..<n]" "drop m (take n luns) = luns ! m # drop (Suc m) (take n luns)"
    by (simp_all add: upt_conv_Cons Cons_nth_drop_Suc [symmetric])
  moreover have "delete_luns luns [Suc m..<n] = delete_all cxx_delete (drop (Suc m) (take n luns))"
    using Suc by (intro ext) simp
  moreover have "m < length luns" using Suc(2,3) by linarith
  ultimately show ?case by simp
qed simp

lemma delete_channel_frees: "n = length luns \<Longrightarrow> frees (delete_channel (Channel a n luns)) (own_channel (Channel a n luns))"
proof -
  assume n: "n = length luns"
  have "frees (delete_all cxx_delete luns) luns"
    using delete_all_frees [of luns cxx_delete "\<lambda>a. [a]"] by (simp add: cxx_delete_frees)
  from frees_ext [OF _ frees_bind [OF this cxx_delete_frees [of a]], of "delete_channel (Channel a n luns)"]
  show ?thesis by (simp add: n delete_luns_eq)
qed

interpretation channel: owned_object make_channel delete_channel own_channel channel_inv
proof unfold_locales
  fix ch h p h' assume inv: "channel_inv ch" and "make_channel ch h = (p, h')"
  then obtain a h1 luns where r: "cxx_new h = (a, h1)" "make_all (\<lambda>_. cxx_new) (ch_luns ch) h1 = (luns, h')"
    "p = Channel a (unat (ch_num_luns ch)) luns"
    by (auto simp: make_channel_def Let_def split: prod.splits)
  have l: "grows h1 h' luns" "length luns = length (ch_luns ch)" using lun.make_all_owns [OF _ r(2)] by auto
  have "length (ch_luns ch) = unat (ch_num_luns ch)" by (rule channel_inv_length [OF inv])
  then show "grows h h' (own_channel p) \<and> frees (delete_channel p) (own_channel p)"
    using grows_perm [OF grows_trans [OF cxx_new_grows [OF r(1)] l(1)]] delete_channel_frees [of _ luns a] l(2) r(3)
    by (simp del: delete_channel.simps)
qed

interpretation device: owned_object make_device delete_device own_device device_inv
proof unfold_locales
  fix u h p h' assume inv: "device_inv u" and "make_device u h = (p, h')"
  then obtain a h1 sh h2 ex where r: "cxx_new h = (a, h1)" "make_all make_channel (du_shared_channels u) h1 = (sh, h2)"
    "make_all make_channel (du_exclusive_channels u) h2 = (ex, h')" "p = Device a (du_name u) sh ex"
    by (auto simp: make_device_def Let_def split: prod.splits)
  have "list_all channel_inv (du_shared_channels u)" "list_all channel_inv (du_exclusive_channels u)"
    using inv by (auto simp: device_inv_def shared_ok_def exclusive_ok_def geo_channel_def list_all_iff)
  note sh = channel.make_all_owns [OF this(1) r(2)] and ex = channel.make_all_owns [OF this(2) r(3)]
  have "grows h h' ([a] @ concat (map own_channel sh) @ concat (map own_channel ex))"
    using grows_trans [OF cxx_new_grows [OF r(1)] grows_trans] sh ex by blast
  then have "grows h h' (own_device p)" by (rule grows_perm) (simp add: r(4))
  moreover have "frees (delete_device p) (own_device p)"
    using frees_ext [OF _ frees_bind [OF conjunct1 [OF conjunct2 [OF sh]]
          frees_bind [OF conjunct1 [OF conjunct2 [OF ex]] cxx_delete_frees [of a]]], of "delete_device p"]
    by (simp add: r(4))
  ultimately show "grows h h' (own_device p) \<and> frees (delete_device p) (own_device p)" by blast
qed

section \<open>The handler's objects\<close>

lemma make_vunit_owns: "make_vunit h = (p, h') \<Longrightarrow> grows h h' (own_vunit p)"
proof -
  assume "make_vunit h = (p, h')"
  then obtain a h1 g where r: "cxx_new h = (a, h1)" "cxx_new h1 = (g, h')" "p = Vunit a g []"
    by (auto simp: make_vunit_def Let_def split: prod.splits)
  from grows_perm [OF grows_trans [OF cxx_new_grows [OF r(1)] cxx_new_grows [OF r(2)]]] show ?thesis by (simp add: r(3))
qed

lemma own_add_vchannels: "mset (own_vunit (add_vchannels u chs)) = mset (own_vunit u) + mset (concat (map own_vchannel chs))"
  by (cases u) simp

lemma own_add_vunit: "mset (own_vssd (add_vunit p u)) = mset (own_vssd p) + mset (own_vunit u)"
  by (cases p) simp

lemma alloc_channels_heap_owns:
  assumes "heap_ok h0" "grows h0 h (own_vssd p)"
  shows "\<exists>p' h'. alloc_channels_heap rq n chs p h = Some (p', h') \<and> grows h0 h' (own_vssd p')"
proof (cases "rq_num_channels rq = 0")
  case True
  then show ?thesis using assms(2) by (simp add: alloc_channels_heap_def)
next
  case False
  obtain u h1 vchs h2 where r: "make_vunit h = (u, h1)" "make_all make_vchannel chs h1 = (vchs, h2)"
    by (metis surj_pair)
  let ?u = "add_vchannels u vchs"
  have "grows h h2 (own_vunit u @ concat (map own_vchannel vchs))"
    using grows_trans [OF make_vunit_owns [OF r(1)]] vchannel.make_all_owns [OF _ r(2)] by simp
  then have "grows h h2 (own_vunit ?u)" by (rule grows_perm) (simp add: own_add_vchannels)
  from grows_trans [OF assms(2) this] have g: "grows h0 h2 (own_vssd p @ own_vunit ?u)" .
  show ?thesis
  proof (cases "n = 0")
    case True
    then show ?thesis
      using grows_frees [OF assms(1) g delete_vunit_frees] False r by (auto simp: alloc_channels_heap_def)
  next
    case False
    have "grows h0 h2 (own_vssd (add_vunit p ?u))" by (rule grows_perm [OF g]) (simp add: own_add_vunit)
    then show ?thesis using False \<open>rq_num_channels rq \<noteq> 0\<close> r by (simp add: alloc_channels_heap_def)
  qed
qed

lemma alloc_loop_heap_owns:
  "devices_inv us \<Longrightarrow> heap_ok h0 \<Longrightarrow> grows h0 h (own_vssd p) \<Longrightarrow>
   \<exists>p' h'. alloc_loop_heap us v rq p h = Some (p', h') \<and> grows h0 h' (own_vssd p')"
proof (induction us arbitrary: v rq p h)
  case (Cons u us)
  have "device_inv u" "devices_inv us" using Cons.prems(1) by (auto simp: devices_inv_Cons)
  moreover from this(1) obtain n v' u' where "alloc_channels u v rq = Some (n, v', u')"
    using alloc_channels_grant [of u v rq] by auto
  moreover obtain p1 h1 where "alloc_channels_heap rq n (granted_channels v v') p h = Some (p1, h1)"
    "grows h0 h1 (own_vssd p1)"
    using alloc_channels_heap_owns [OF Cons.prems(2,3)] by blast
  ultimately show ?case using Cons.IH [OF _ Cons.prems(2)] by (auto simp: Let_def)
qed simp

lemma make_bufferq_owns: "make_bufferq h = ((a, mem), h') \<Longrightarrow> grows h h' [a, mem]"
proof -
  assume "make_bufferq h = ((a, mem), h')"
  then obtain h1 where r: "cxx_new h = (a, h1)" "cxx_new h1 = (mem, h')"
    by (auto simp: make_bufferq_def Let_def split: prod.splits)
  from grows_trans [OF cxx_new_grows [OF r(1)] cxx_new_grows [OF r(2)]] show ?thesis by simp
qed

definition empty_heap :: heap where
  "empty_heap = \<lparr>hp_next = 1, hp_live = {}\<rparr>"

text \<open>The destructor of a connection frees all of its virtual blocks and closes the device it opened last.\<close>

lemma ocssd_conn_delete_frees:
  assumes "\<forall>d b. b \<noteq> NULL \<longrightarrow> nvm_vblk_free lib d b \<noteq> None" "NULL \<notin> set (cn_blks_array c)"
  shows "\<exists>d'. ocssd_conn_delete lib c d =
    Some (if cn_remote_vssd c \<noteq> 0 then map_option fst (cn_dev c) else None, d')"
proof -
  have "NULL \<notin> set bs \<Longrightarrow> \<exists>d'. free_vblks lib bs d = Some d'" for bs d
  proof (induction bs arbitrary: d)
    case (Cons b bs)
    moreover obtain d1 where "nvm_vblk_free lib d b = Some d1" using assms(1) Cons.prems by fastforce
    ultimately show ?case by simp
  qed simp
  from this [OF assms(2), of d] show ?thesis by (auto simp: ocssd_conn_delete_def)
qed

section \<open>Theorems\<close>



text \<open>Deleting the manager frees every device, channel and LUN exactly once, leaves all other objects
  alone, and closes every device, in order.  The loop over \<^verbatim>\<open>num_luns_\<close> never runs past the LUN
  pointers of a channel.\<close>

theorem manager_destructor_frees_all:
  assumes "manager_inv m" and "heap_ok h" and "make_all make_device (mg_ocssds m) h = (us, h')"
  shows "\<exists>h''. delete_manager_units us h' = Some (h'', map du_name (mg_ocssds m)) \<and> hp_live h'' = hp_live h"
proof -
  have "list_all device_inv (mg_ocssds m)" using assms(1) by (auto simp: manager_inv_def devices_inv_def list_all_iff)
  note o = device.make_all_owns [OF this assms(3)]
  then obtain h'' where d: "delete_all delete_device us h' = Some h''" "grows h h'' []"
    using grows_frees [OF assms(2), of h' "[]"] by auto
  have "make_all make_device xs k = (ps, k') \<Longrightarrow> map device_obj_name ps = map du_name xs" for xs k ps k'
    by (induction xs arbitrary: k ps) (auto simp: make_device_def Let_def split: prod.splits)
  with assms(3) d show ?thesis by (simp add: delete_manager_units_def grows_def)
qed

theorem manager_destructor_frees_all_witness:
  "\<exists>h''. delete_manager_units (fst (make_all make_device (mg_ocssds sample_manager) empty_heap))
       (snd (make_all make_device (mg_ocssds sample_manager) empty_heap)) =
     Some (h'', map du_name (mg_ocssds sample_manager)) \<and> hp_live h'' = {}"
  using manager_destructor_frees_all [OF sample_manager_inv, of empty_heap
      "fst (make_all make_device (mg_ocssds sample_manager) empty_heap)"
      "snd (make_all make_device (mg_ocssds sample_manager) empty_heap)"]
  by (simp add: empty_heap_def heap_ok_def)

end
