(* ===== verification/Printing.thy ===== *)
theory Printing
  imports VSSD Libc
begin

text \<open>
  The \<^verbatim>\<open>print\<close> methods of the descriptions (\<^verbatim>\<open>src/ocssd_server.h\<close>), which the server calls for
  every virtual SSD it grants.  The output is a list of lines, each ended by a newline.  The log is shown
  to be faithful: from the printed text alone the identifier, the devices, the channels and the blocks of
  the virtual SSD are determined.
\<close>

section \<open>The methods\<close>

text \<open>An unsigned integer as \<^verbatim>\<open>operator<<\<close> and \<^verbatim>\<open>printf\<close> write it.\<close>

abbreviation show_u32 :: "u32 \<Rightarrow> string" where
  "show_u32 x \<equiv> numeral_string (unat x)"

definition virtual_ocssd_lun_print :: "virtual_ocssd_lun \<Rightarrow> string" where
  "virtual_ocssd_lun_print l = ''LUN '' @ show_u32 (vl_lun_id l) @ '': '' @ ''block start '' @
     show_u32 (vl_block_start l) @ '', '' @ show_u32 (vl_num_blocks l) @ '' blocks''"

definition virtual_ocssd_channel_print :: "virtual_ocssd_channel \<Rightarrow> string list" where
  "virtual_ocssd_channel_print ch =
     (''Channel '' @ show_u32 (vc_channel_id ch) @ '': '' @ ''shared '' @ show_u32 (vc_shared ch) @ '', '' @
      show_u32 (vc_num_luns ch) @ '' LUNs, total '' @ show_u32 (vc_total_blocks ch) @ '' blocks'') #
     map virtual_ocssd_lun_print (vc_luns ch)"

definition virtual_ocssd_unit_print :: "virtual_ocssd_unit \<Rightarrow> string list" where
  "virtual_ocssd_unit_print u =
     (''Device '' @ vu_dev_name u @ '': '' @ numeral_string (length (vu_channels u)) @ '' channels'') #
     concat (map virtual_ocssd_channel_print (vu_channels u))"

definition virtual_ocssd_print :: "virtual_ocssd \<Rightarrow> string list" where
  "virtual_ocssd_print v =
     (''Virtual SSD ID '' @ show_u32 (v_id v) @ '', '' @ numeral_string (length (v_units v)) @ '' Devices'') #
     concat (map virtual_ocssd_unit_print (v_units v))"

definition newline :: char where "newline = CHR 0x0A"

definition text_of :: "string list \<Rightarrow> string" where
  "text_of ls = concat (map (\<lambda>l. l @ [newline]) ls)"

section \<open>Reading it back\<close>

text \<open>A number ends where its digits end.\<close>

lemma takeWhile_numeral: "\<not> is_digit x \<Longrightarrow> takeWhile is_digit (numeral_string n @ x # xs) = numeral_string n"
  using numeral_string_digits [of n] by (simp add: takeWhile_append2 list_all_iff)

lemma numeral_string_inject: "numeral_string m = numeral_string n \<longleftrightarrow> m = n"
  using numeral_string_digits [of m] numeral_string_digits [of n] by (metis of_nat_eq_iff)

lemma numeral_split:
  assumes "\<not> is_digit x" "\<not> is_digit y"
  shows "numeral_string m @ x # xs = numeral_string n @ y # ys \<longleftrightarrow> m = n \<and> x = y \<and> xs = ys"
proof
  assume eq: "numeral_string m @ x # xs = numeral_string n @ y # ys"
  have "numeral_string m = numeral_string n"
    using arg_cong [OF eq, of "takeWhile is_digit"] takeWhile_numeral assms by simp
  then show "m = n \<and> x = y \<and> xs = ys" using eq by (simp add: numeral_string_inject)
qed simp

lemma not_digits: "\<not> is_digit CHR '':''" "\<not> is_digit CHR '',''" "\<not> is_digit CHR '' ''"
  by (simp_all add: is_digit_def)

lemma show_u32_inject: "show_u32 x = show_u32 y \<longleftrightarrow> x = y"
  by (simp add: numeral_string_inject word_unat_eq_iff)

lemma lun_print_inject: "virtual_ocssd_lun_print l = virtual_ocssd_lun_print l' \<longleftrightarrow> l = l'"
proof
  assume "virtual_ocssd_lun_print l = virtual_ocssd_lun_print l'"
  then show "l = l'"
    by (intro virtual_ocssd_lun.equality)
      (simp_all add: virtual_ocssd_lun_print_def numeral_split not_digits show_u32_inject word_unat_eq_iff)
qed simp

text \<open>A sequence of blocks of lines, each with a first line that can be told from the others, determines the
  blocks.\<close>

definition blocky :: "('l \<Rightarrow> bool) \<Rightarrow> 'l list \<Rightarrow> bool" where
  "blocky P ls \<longleftrightarrow> ls \<noteq> [] \<and> P (hd ls) \<and> list_all (\<lambda>l. \<not> P l) (tl ls)"

lemma blocks_inject:
  "list_all (blocky P) xs \<Longrightarrow> list_all (blocky P) ys \<Longrightarrow> concat xs = concat ys \<Longrightarrow> xs = ys"
proof (induction xs arbitrary: ys)
  case Nil
  then show ?case by (cases ys) (auto simp: blocky_def)
next
  case (Cons x xs)
  then obtain y ys' where ys: "ys = y # ys'" by (cases ys) (auto simp: blocky_def)
  have rest: "takeWhile (\<lambda>l. \<not> P l) (tl z @ concat zs) = tl z" if "blocky P z" "list_all (blocky P) zs" for z zs
  proof -
    have "takeWhile (\<lambda>l. \<not> P l) (concat zs) = []"
      using that(2) by (cases zs) (auto simp: blocky_def takeWhile_eq_Nil_iff hd_append)
    moreover have "\<forall>l\<in>set (tl z). \<not> P l" using that(1) by (simp add: blocky_def list_all_iff)
    ultimately show ?thesis by (simp add: takeWhile_append2)
  qed
  have eq: "x @ concat xs = y @ concat ys'" using Cons.prems(3) ys by simp
  have "x \<noteq> []" "y \<noteq> []" using Cons.prems(1,2) ys by (auto simp: blocky_def)
  then have "hd x = hd y" "tl x @ concat xs = tl y @ concat ys'"
    using arg_cong [OF eq, of hd] arg_cong [OF eq, of tl] by simp_all
  moreover from this(2) have "tl x = tl y"
    using rest [of x xs] rest [of y ys'] Cons.prems(1,2) ys by simp
  ultimately have "x = y" using \<open>x \<noteq> []\<close> \<open>y \<noteq> []\<close> by (metis list.collapse)
  then show ?case using Cons ys by simp
qed

definition starts :: "string \<Rightarrow> string \<Rightarrow> bool" where
  "starts p l \<longleftrightarrow> take (length p) l = p"

lemma channel_print_blocky: "blocky (starts ''C'') (virtual_ocssd_channel_print ch)"
  by (auto simp: blocky_def starts_def virtual_ocssd_channel_print_def virtual_ocssd_lun_print_def list_all_iff)

lemma unit_print_blocky: "blocky (starts ''D'') (virtual_ocssd_unit_print u)"
  by (auto simp: blocky_def starts_def virtual_ocssd_unit_print_def virtual_ocssd_channel_print_def
      virtual_ocssd_lun_print_def list_all_iff)

lemma channel_print_inject: "virtual_ocssd_channel_print ch = virtual_ocssd_channel_print ch' \<longleftrightarrow> ch = ch'"
proof
  assume eq: "virtual_ocssd_channel_print ch = virtual_ocssd_channel_print ch'"
  have "inj virtual_ocssd_lun_print" by (simp add: inj_def lun_print_inject)
  then have "vc_luns ch = vc_luns ch'" using eq by (simp add: virtual_ocssd_channel_print_def inj_map_eq_map)
  then show "ch = ch'" using eq
    by (intro virtual_ocssd_channel.equality)
      (simp_all add: virtual_ocssd_channel_print_def numeral_split not_digits show_u32_inject word_unat_eq_iff)
qed simp

lemma unit_print_inject:
  assumes "virtual_ocssd_unit_print u = virtual_ocssd_unit_print u'"
  shows "vu_dev_name u = vu_dev_name u' \<and> vu_channels u = vu_channels u'"
proof -
  have "concat (map virtual_ocssd_channel_print (vu_channels u)) = concat (map virtual_ocssd_channel_print (vu_channels u'))"
    using assms by (simp add: virtual_ocssd_unit_print_def)
  then have "map virtual_ocssd_channel_print (vu_channels u) = map virtual_ocssd_channel_print (vu_channels u')"
    by (intro blocks_inject [where P = "starts ''C''"]) (simp_all add: list_all_iff channel_print_blocky)
  then have "vu_channels u = vu_channels u'" by (simp add: inj_map_eq_map inj_def channel_print_inject)
  with assms show ?thesis by (simp add: virtual_ocssd_unit_print_def)
qed

lemma map_inject_mono:
  "map f xs = map f ys \<Longrightarrow> (\<And>x y. f x = f y \<Longrightarrow> g x = g y) \<Longrightarrow> map g xs = map g ys"
proof (induction xs arbitrary: ys)
  case (Cons x xs)
  from Cons.prems(1) obtain y zs where ys: "ys = y # zs" by (cases ys) simp_all
  then have "map g xs = map g zs" using Cons.prems(1) by (intro Cons.IH Cons.prems(2)) simp_all
  moreover have "g x = g y" using Cons.prems(1) ys by (intro Cons.prems(2)) simp
  ultimately show ?case using ys by simp
qed simp

lemma vssd_print_inject:
  assumes "virtual_ocssd_print v = virtual_ocssd_print v'"
  shows "v_id v = v_id v' \<and> map (\<lambda>u. (vu_dev_name u, vu_channels u)) (v_units v) =
    map (\<lambda>u. (vu_dev_name u, vu_channels u)) (v_units v')"
proof -
  have "concat (map virtual_ocssd_unit_print (v_units v)) = concat (map virtual_ocssd_unit_print (v_units v'))"
    using assms by (simp add: virtual_ocssd_print_def)
  then have "map virtual_ocssd_unit_print (v_units v) = map virtual_ocssd_unit_print (v_units v')"
    by (intro blocks_inject [where P = "starts ''D''"]) (simp_all add: list_all_iff unit_print_blocky)
  then have "map (\<lambda>u. (vu_dev_name u, vu_channels u)) (v_units v) =
      map (\<lambda>u. (vu_dev_name u, vu_channels u)) (v_units v')"
    by (rule map_inject_mono) (drule unit_print_inject, simp)
  moreover have "v_id v = v_id v'"
    using assms by (simp add: virtual_ocssd_print_def numeral_split not_digits word_unat_eq_iff)
  ultimately show ?thesis by simp
qed

text \<open>Lines without newlines are determined by the text.\<close>

lemma text_of_inject:
  assumes "\<forall>l\<in>set ls. newline \<notin> set l" "\<forall>l\<in>set ms. newline \<notin> set l" "text_of ls = text_of ms"
  shows "ls = ms"
proof -
  have "list_all (blocky (\<lambda>c. c = newline)) (map (\<lambda>l. rev (l @ [newline])) xs)" if "\<forall>l\<in>set xs. newline \<notin> set l" for xs
    using that by (auto simp: list_all_iff blocky_def)
  moreover have "concat (map (\<lambda>l. rev (l @ [newline])) (rev xs)) = rev (text_of xs)" for xs
    by (simp add: text_of_def rev_concat rev_map comp_def)
  ultimately have "map (\<lambda>l. rev (l @ [newline])) (rev ls) = map (\<lambda>l. rev (l @ [newline])) (rev ms)"
    using assms by (intro blocks_inject [where P = "\<lambda>c. c = newline"]) simp_all
  then show ?thesis by (simp add: inj_map_eq_map inj_def)
qed

text \<open>No method prints a newline of its own: only a device name could hold one.\<close>

lemma newline_not_digit: "newline \<notin> set (numeral_string n)"
  using numeral_string_digits [of n] by (auto simp: list_all_iff newline_def is_digit_def)

lemma vssd_print_lines:
  assumes "\<forall>u\<in>set (v_units v). newline \<notin> set (vu_dev_name u)"
  shows "\<forall>l\<in>set (virtual_ocssd_print v). newline \<notin> set l"
  using assms newline_not_digit
  by (auto simp: virtual_ocssd_print_def virtual_ocssd_unit_print_def virtual_ocssd_channel_print_def
      virtual_ocssd_lun_print_def newline_def)

text \<open>A description to print.\<close>

definition printed_geo :: "u64 \<Rightarrow> nvm_geo" where
  "printed_geo n = \<lparr>nchannels = 16, nluns = 8, nplanes = 2, nblocks = n, npages = 256, nsectors = 4,
     page_nbytes = 16384, sector_nbytes = 4096, meta_nbytes = 16\<rparr>"

definition printed_vssd :: "nvm_geo \<Rightarrow> virtual_ocssd" where
  "printed_vssd g = \<lparr>v_id = 7, v_units = [\<lparr>vu_dev_name = ''nvme0n1'', vu_geo = g, vu_channels =
     [\<lparr>vc_channel_id = 3, vc_shared = 1, vc_total_blocks = 12, vc_num_luns = 1, vc_luns =
       [\<lparr>vl_lun_id = 5, vl_block_start = 10, vl_num_blocks = 12\<rparr>]\<rparr>]\<rparr>]\<rparr>"

section \<open>Theorems\<close>

text \<open>C36: The log of a virtual SSD is faithful.  Two descriptions whose device names hold no newline and for
  which \<^verbatim>\<open>print\<close> writes the same text have the same identifier and the same sequence of devices, each with
  the same name and the same channels, down to the first block and the number of blocks of every LUN.
\<close>

theorem print_identifies_vssd:
  assumes "\<forall>u\<in>set (v_units v). newline \<notin> set (vu_dev_name u)"
    and "\<forall>u\<in>set (v_units v'). newline \<notin> set (vu_dev_name u)"
    and "text_of (virtual_ocssd_print v) = text_of (virtual_ocssd_print v')"
  shows "v_id v = v_id v' \<and> map vu_dev_name (v_units v) = map vu_dev_name (v_units v') \<and>
    map vu_channels (v_units v) = map vu_channels (v_units v')"
proof -
  have "virtual_ocssd_print v = virtual_ocssd_print v'"
    using assms by (intro text_of_inject vssd_print_lines)
  from vssd_print_inject [OF this] show ?thesis
    by (auto intro: map_inject_mono [where f = "\<lambda>u. (vu_dev_name u, vu_channels u)"])
qed

theorem print_identifies_vssd_witness:
  "virtual_ocssd_print (printed_vssd (printed_geo 1020)) =
     [''Virtual SSD ID 7, 1 Devices'', ''Device nvme0n1: 1 channels'', ''Channel 3: shared 1, 1 LUNs, total 12 blocks'',
      ''LUN 5: block start 10, 12 blocks''] \<and>
   printed_vssd (printed_geo 1020) \<noteq> printed_vssd (printed_geo 510) \<and>
   map vu_channels (v_units (printed_vssd (printed_geo 1020))) = map vu_channels (v_units (printed_vssd (printed_geo 510)))"
proof -
  have p: "virtual_ocssd_print (printed_vssd g) =
     [''Virtual SSD ID 7, 1 Devices'', ''Device nvme0n1: 1 channels'', ''Channel 3: shared 1, 1 LUNs, total 12 blocks'',
      ''LUN 5: block start 10, 12 blocks'']" for g
    by (simp add: printed_vssd_def virtual_ocssd_print_def virtual_ocssd_unit_print_def virtual_ocssd_channel_print_def
        virtual_ocssd_lun_print_def numeral_string.simps char_of_def bit_0)
  have "map vu_channels (v_units (printed_vssd (printed_geo 1020))) = map vu_channels (v_units (printed_vssd (printed_geo 510)))"
    using print_identifies_vssd [of "printed_vssd (printed_geo 1020)" "printed_vssd (printed_geo 510)"] p
    by (simp add: printed_vssd_def newline_def)
  moreover have "printed_vssd (printed_geo 1020) \<noteq> printed_vssd (printed_geo 510)"
    by (simp add: printed_vssd_def printed_geo_def)
  ultimately show ?thesis using p by simp
qed

end
