(* ===== verification/Startup.thy ===== *)
theory Startup
  imports Server
begin

text \<open>
  The rest of the server program: file status flags, the epoll helpers of \<^verbatim>\<open>src/ocssd_server.h\<close>,
  and \<^verbatim>\<open>main\<close> of \<^verbatim>\<open>src/ocssd_libevent_server.cc\<close>, from its start to the event loop and
  from there to its end.  System calls act on a table of open descriptors as POSIX specifies; what they
  answer beyond that (whether a socket can be bound, say) is a parameter.
\<close>

unbundle bit_operations_syntax

section \<open>Descriptors\<close>

definition O_NONBLOCK :: u32 where "O_NONBLOCK = 0x800"
definition SA_RESTART :: u32 where "SA_RESTART = 0x10000000"
definition EPOLLIN :: u32 where "EPOLLIN = 0x1"
definition EPOLLRDHUP :: u32 where "EPOLLRDHUP = 0x2000"
definition EPOLLONESHOT :: u32 where "EPOLLONESHOT = 0x40000000"
definition EPOLLET :: u32 where "EPOLLET = 0x80000000"

text \<open>The status flags of the open descriptors, the interest lists of the epoll instances and the
  signal actions (a handler by its name and flags).\<close>

record os_state =
  fd_flags :: "int \<Rightarrow> u32 option"
  ep_events :: "int \<times> int \<Rightarrow> u32 option"
  sig_action :: "int \<Rightarrow> (string \<times> u32) option"

text \<open>\<^verbatim>\<open>fcntl\<close> fails on a descriptor that is not open.\<close>

definition fcntl_getfl :: "int \<Rightarrow> os_state \<Rightarrow> int" where
  "fcntl_getfl fd os = (case fd_flags os fd of None \<Rightarrow> -1 | Some f \<Rightarrow> sint f)"

definition fcntl_setfl :: "int \<Rightarrow> int \<Rightarrow> os_state \<Rightarrow> int \<times> os_state" where
  "fcntl_setfl fd flags os =
     (case fd_flags os fd of
        None \<Rightarrow> (-1, os)
      | Some _ \<Rightarrow> (0, os\<lparr>fd_flags := (fd_flags os)(fd \<mapsto> word_of_int flags)\<rparr>))"

definition setnonblocking :: "int \<Rightarrow> os_state \<Rightarrow> int \<times> os_state" where
  "setnonblocking fd os =
     (let old_option = fcntl_getfl fd os;
          new_option = old_option OR sint O_NONBLOCK;
          (_, os) = fcntl_setfl fd new_option os
      in (old_option, os))"

definition setnonblock :: "int \<Rightarrow> os_state \<Rightarrow> int \<times> os_state" where
  "setnonblock fd os =
     (let flags = fcntl_getfl fd os in
      if flags < 0 then (flags, os)
      else let (r, os) = fcntl_setfl fd (flags OR sint O_NONBLOCK) os
           in if r < 0 then (-1, os) else (0, os))"

section \<open>Epoll\<close>

text \<open>\<^verbatim>\<open>epoll_ctl\<close> adds a descriptor that is open and not yet in the list, changes or removes one
  that is; otherwise it fails, which the helpers do not notice.\<close>

definition epoll_add :: "int \<Rightarrow> int \<Rightarrow> u32 \<Rightarrow> os_state \<Rightarrow> os_state" where
  "epoll_add epollfd fd ev os =
     (if fd_flags os fd \<noteq> None \<and> ep_events os (epollfd, fd) = None
      then os\<lparr>ep_events := (ep_events os)((epollfd, fd) \<mapsto> ev)\<rparr> else os)"

definition epoll_mod :: "int \<Rightarrow> int \<Rightarrow> u32 \<Rightarrow> os_state \<Rightarrow> os_state" where
  "epoll_mod epollfd fd ev os =
     (if ep_events os (epollfd, fd) \<noteq> None
      then os\<lparr>ep_events := (ep_events os)((epollfd, fd) \<mapsto> ev)\<rparr> else os)"

definition epoll_del :: "int \<Rightarrow> int \<Rightarrow> os_state \<Rightarrow> os_state" where
  "epoll_del epollfd fd os = os\<lparr>ep_events := (ep_events os)((epollfd, fd) := None)\<rparr>"

definition close_fd :: "int \<Rightarrow> os_state \<Rightarrow> os_state" where
  "close_fd fd os = os\<lparr>fd_flags := (fd_flags os)(fd := None),
     ep_events := (\<lambda>(e, f). if f = fd then None else ep_events os (e, f))\<rparr>"

definition addfd :: "int \<Rightarrow> int \<Rightarrow> bool \<Rightarrow> os_state \<Rightarrow> os_state" where
  "addfd epollfd fd one_shot os =
     (let events = EPOLLIN OR EPOLLET OR EPOLLRDHUP;
          events = (if one_shot then events OR EPOLLONESHOT else events);
          os = epoll_add epollfd fd events os
      in snd (setnonblocking fd os))"

definition removefd :: "int \<Rightarrow> int \<Rightarrow> os_state \<Rightarrow> os_state" where
  "removefd epollfd fd os = close_fd fd (epoll_del epollfd fd os)"

definition modfd :: "int \<Rightarrow> int \<Rightarrow> u32 \<Rightarrow> os_state \<Rightarrow> os_state" where
  "modfd epollfd fd ev os = epoll_mod epollfd fd (ev OR EPOLLONESHOT OR EPOLLET OR EPOLLRDHUP) os"

section \<open>Signals\<close>

definition SIGINT :: int where "SIGINT = 2"

definition addsig :: "int \<Rightarrow> string \<Rightarrow> bool \<Rightarrow> os_state \<Rightarrow> os_state" where
  "addsig sig handler restart os =
     (let sa_flags = (if restart then 0 OR SA_RESTART else 0)
      in os\<lparr>sig_action := (sig_action os)(sig \<mapsto> (handler, sa_flags))\<rparr>)"

section \<open>The program\<close>

text \<open>What the system answers at start-up.  A socket is the new descriptor, or negative.\<close>

record boot =
  bt_event_base :: bool
  bt_exists :: "string \<Rightarrow> bool"
  bt_dev_open :: "string \<Rightarrow> nvm_geo option"
  bt_ifs :: "ifaddr list"
  bt_socket :: int
  bt_setsockopt :: int
  bt_bind :: int
  bt_listen :: int

text \<open>The program ends with a code, an exception leaves it, or the event loop is entered, with the
  listening socket and the world the callbacks work on.\<close>

datatype 'd booted = Exit int | Threw cxx_exception | Running int "'d world" os_state

definition open_socket :: "boot \<Rightarrow> os_state \<Rightarrow> os_state" where
  "open_socket b os = (if bt_socket b < 0 then os else os\<lparr>fd_flags := (fd_flags os)(bt_socket b \<mapsto> 2)\<rparr>)"

definition server_main :: "boot \<Rightarrow> 'd \<Rightarrow> os_state \<Rightarrow> 'd booted" where
  "server_main b d os =
     (if \<not> bt_event_base b then Exit (- ENOMEM)
      else (case initialize_ocssd_manager (bt_exists b) (bt_dev_open b) (bt_ifs b) of
              Inl e \<Rightarrow> Threw e
            | Inr (manager, published) \<Rightarrow>
                (let os = addsig SIGINT ''interrupt'' False os;
                     listen_fd = bt_socket b;
                     os = open_socket b os
                 in if listen_fd < 0 then Exit 1
                    else if bt_setsockopt b = -1 then Exit 1
                    else if bt_bind b < 0 then Exit 1
                    else if bt_listen b < 0 then Exit 1
                    else (let (r, os) = setnonblock listen_fd os
                          in if r < 0 then Exit 1
                             else Running listen_fd
                               \<lparr>w_manager = manager, w_dev = d, w_published = published\<rparr> os))))"

text \<open>After the loop: the manager is deleted, which closes its devices in order.\<close>

definition ocssd_manager_delete :: "ocssd_manager \<Rightarrow> string list" where
  "ocssd_manager_delete m = map du_name (mg_ocssds m)"

definition server_exit :: "'d server \<Rightarrow> int \<times> string list" where
  "server_exit s =
     (let _ = persist (w_manager (sv_world s))
      in (0, ocssd_manager_delete (w_manager (sv_world s))))"

text \<open>The loop \<^verbatim>\<open>event_base_dispatch\<close>: it runs one callback after the other until
  \<^verbatim>\<open>event_base_loopbreak\<close> was called, which the handler of \<^verbatim>\<open>SIGINT\<close> does; a callback that runs is
  completed.  The accept event is persistent, so the loop does not end by itself.\<close>

record 'd event_loop =
  lp_server :: "'d server"
  lp_break :: bool

definition interrupt :: "'d event_loop \<Rightarrow> 'd event_loop" where
  "interrupt l = l\<lparr>lp_break := True\<rparr>"

inductive dispatch_step :: "('a, 'd) platform \<Rightarrow> 'd event_loop \<Rightarrow> 'd event_loop \<Rightarrow> bool" for pf where
  callback: "\<not> lp_break l \<Longrightarrow> server_step pf (lp_server l) s' \<Longrightarrow> dispatch_step pf l (l\<lparr>lp_server := s'\<rparr>)"
| signal: "dispatch_step pf l (interrupt l)"

definition dispatch_start :: "'d world \<Rightarrow> 'd event_loop" where
  "dispatch_start w = \<lparr>lp_server = server_start w, lp_break = False\<rparr>"

section \<open>Lemmas\<close>

lemma fcntl_open:
  assumes "fd_flags os fd = Some f"
  shows "fcntl_setfl fd (fcntl_getfl fd os OR sint O_NONBLOCK) os =
    (0, os\<lparr>fd_flags := (fd_flags os)(fd \<mapsto> f OR O_NONBLOCK)\<rparr>)"
proof -
  have "word_of_int (sint f OR sint O_NONBLOCK) = f OR O_NONBLOCK"
    by (metis of_int_or_eq of_int_sint scast_id)
  then show ?thesis using assms by (simp add: fcntl_setfl_def fcntl_getfl_def)
qed

lemma setnonblock_open:
  assumes "fd_flags os fd = Some f" "0 \<le> sint f"
  shows "setnonblock fd os = (0, os\<lparr>fd_flags := (fd_flags os)(fd \<mapsto> f OR O_NONBLOCK)\<rparr>)"
  using fcntl_open [OF assms(1)] assms by (simp add: setnonblock_def Let_def fcntl_getfl_def)

lemma setnonblocking_open:
  assumes "fd_flags os fd = Some f"
  shows "setnonblocking fd os = (sint f, os\<lparr>fd_flags := (fd_flags os)(fd \<mapsto> f OR O_NONBLOCK)\<rparr>)"
  using fcntl_open [OF assms] assms by (simp add: setnonblocking_def Let_def fcntl_getfl_def)

text \<open>A descriptor that is added is watched and non-blocking, a changed one is watched for one event, and
  a removed one is closed, as if it had never been added.\<close>

lemma addfd_watched:
  assumes "fd_flags os fd = Some f" "ep_events os (epollfd, fd) = None"
  shows "addfd epollfd fd one_shot os = os\<lparr>fd_flags := (fd_flags os)(fd \<mapsto> f OR O_NONBLOCK),
    ep_events := (ep_events os)((epollfd, fd) \<mapsto>
      EPOLLIN OR EPOLLET OR EPOLLRDHUP OR (if one_shot then EPOLLONESHOT else 0))\<rparr>"
  using assms by (simp add: addfd_def epoll_add_def setnonblocking_open or.assoc)

lemma modfd_one_shot:
  assumes "ep_events os (epollfd, fd) \<noteq> None"
  shows "\<exists>ev'. ep_events (modfd epollfd fd ev os) (epollfd, fd) = Some ev' \<and> ev' AND EPOLLONESHOT = EPOLLONESHOT"
proof -
  have "(ev OR EPOLLONESHOT OR EPOLLET OR EPOLLRDHUP) AND EPOLLONESHOT = EPOLLONESHOT"
    by (rule bit_word_eqI) (auto simp: bit_simps)
  then show ?thesis using assms by (simp add: modfd_def epoll_mod_def)
qed

lemma removefd_addfd: "removefd epollfd fd (addfd epollfd fd one_shot os) = removefd epollfd fd os"
proof -
  have "fd_flags (addfd epollfd fd one_shot os) = (fd_flags os)(fd := fd_flags (addfd epollfd fd one_shot os) fd)"
    "\<forall>e f. f \<noteq> fd \<longrightarrow> ep_events (addfd epollfd fd one_shot os) (e, f) = ep_events os (e, f)"
    "sig_action (addfd epollfd fd one_shot os) = sig_action os"
    by (auto simp: addfd_def epoll_add_def setnonblocking_def fcntl_setfl_def Let_def split: option.splits prod.splits)
  then show ?thesis
    by (intro os_state.equality) (auto simp: removefd_def epoll_del_def close_fd_def fun_eq_iff)
qed

lemma server_main_cases:
  assumes "\<forall>geo. bt_dev_open b ''/dev/nvme1n1'' = Some geo \<longrightarrow> geo_ok geo" "bt_event_base b"
  shows "(server_main b d os = Threw open_dev_failed \<and> bt_exists b ''/dev/nvme1n1'' \<and> bt_dev_open b ''/dev/nvme1n1'' = None) \<or>
    (server_main b d os = Exit 1 \<and> (bt_socket b < 0 \<or> bt_setsockopt b = -1 \<or> bt_bind b < 0 \<or> bt_listen b < 0)) \<or>
    (\<exists>w os' f. server_main b d os = Running (bt_socket b) w os' \<and> 0 \<le> bt_socket b \<and>
      fd_flags os' (bt_socket b) = Some f \<and> f AND O_NONBLOCK = O_NONBLOCK \<and>
      sig_action os' SIGINT = Some (''interrupt'', 0) \<and>
      manager_inv (w_manager w) \<and> manager_owned (w_manager w) = {})"
proof -
  let ?init = "initialize_ocssd_manager (bt_exists b) (bt_dev_open b) (bt_ifs b)"
  consider (threw) "?init = Inl open_dev_failed" "bt_exists b ''/dev/nvme1n1''" "bt_dev_open b ''/dev/nvme1n1'' = None"
    | (init) m log where "?init = Inr (m, log)" "manager_inv m" "manager_owned m = {}"
    using initialize_manager_cases [of "bt_dev_open b" "bt_exists b" "bt_ifs b", OF assms(1)] ocssd_manager_new_inv [of "bt_ifs b"]
    by (auto simp: manager_owned_def devices_owned_def ocssd_manager_new_def split: if_splits)
  then show ?thesis
  proof cases
    case threw
    then show ?thesis using assms(2) by (simp add: server_main_def)
  next
    case init
    let ?os = "open_socket b (addsig SIGINT ''interrupt'' False os)"
    show ?thesis
    proof (cases "bt_socket b < 0 \<or> bt_setsockopt b = -1 \<or> bt_bind b < 0 \<or> bt_listen b < 0")
      case True
      then show ?thesis using assms(2) init(1) by (auto simp: server_main_def Let_def)
    next
      case False
      then have f: "fd_flags ?os (bt_socket b) = Some 2" by (simp add: open_socket_def)
      have "sint (2 :: u32) = 2" by simp
      then have n: "setnonblock (bt_socket b) ?os = (0, ?os\<lparr>fd_flags := (fd_flags ?os)(bt_socket b \<mapsto> 2 OR O_NONBLOCK)\<rparr>)"
        by (intro setnonblock_open [OF f]) simp
      have "(2 OR O_NONBLOCK) AND O_NONBLOCK = O_NONBLOCK" by (simp add: O_NONBLOCK_def)
      then show ?thesis
        using False assms(2) init n by (simp add: server_main_def Let_def) (simp add: open_socket_def addsig_def)
    qed
  qed
qed

text \<open>No request adds or removes a device.\<close>

abbreviation device_names :: "'d world \<Rightarrow> string list" where
  "device_names w \<equiv> map du_name (mg_ocssds (w_manager w))"

lemma alloc_keeps_names:
  assumes "manager_inv m" "alloc_ocssd_resource m v rq = Some (n, v', rq', m')"
  shows "map du_name (mg_ocssds m') = map du_name (mg_ocssds m)"
proof -
  have "unat (0 :: u64) + unat (rq_num_channels rq) < 2 ^ 64"
    using unat_bound [of "rq_num_channels rq"] by simp
  then obtain n1 v1 rq1 us where r: "alloc_resource_loop (mg_ocssds m) v rq 0 = Some (n1, v1, rq1, us)"
    "node_grant (mg_ocssds m) v rq 0 (n1, v1, rq1, us)"
    using alloc_resource_loop_grant assms(1) unfolding manager_inv_def by blast
  then show ?thesis using assms(2) by (auto simp: alloc_ocssd_resource_def node_grant_def)
qed

lemma process_alloc_names:
  assumes "malloc_ok pf" "manager_inv (w_manager w)" "process_alloc_request pf c w = Some (Inr (ret, c', w'))"
  shows "device_names w' = device_names w"
  using assms(2,3)
proof (cases rule: process_alloc_cases)
  case (1 rq n v rq' m)
  then show ?thesis using alloc_keeps_names [OF assms(2) 1(1)] by simp
next
  case (2 rq n v rq' m c1 w1)
  then show ?thesis
    using alloc_keeps_names [OF assms(2) 2(1)] send_vssd_kept [OF assms(1) alloc_granted(1) [OF assms(2) 2(1)] 2(7)] by simp
qed

lemma dispatch_names:
  assumes "malloc_ok pf" "manager_inv (w_manager w)" "fst (dispatch pf c w inp) = Some (Inr (ret, c', w'))"
  shows "device_names w' = device_names w"
  using assms(3) process_alloc_names [OF assms(1,2), of c ret c' w'] process_read_kept [OF assms(1), of c w ret c' w']
    process_write_kept [of pf c w inp ret c' w'] process_erase_kept [of pf c w ret c' w']
  by (auto simp: dispatch_def split: option.splits if_splits)

lemma on_read_names:
  assumes "malloc_ok pf" "manager_inv (w_manager w)" "on_read pf c w inp = Some (Inr (c', w'))"
  shows "device_names w' = device_names w"
  using assms(3) dispatch_names [OF assms(1,2)]
  by (fastforce simp: on_read_def process_incoming_requests_def process_command_def
      split: option.splits sum.splits if_splits prod.splits)

lemma server_step_names:
  assumes "malloc_ok pf" "server_inv s" "server_step pf s s'"
  shows "device_names (sv_world s') = device_names (sv_world s)"
  using assms(3)
proof (cases rule: server_step.cases)
  case (readable i c inp c' w')
  then show ?thesis using on_read_names [OF assms(1) _ readable(6)] assms(2) by (simp add: server_inv_def)
qed simp_all

lemma dispatch_invariant:
  assumes "malloc_ok pf" "manager_inv (w_manager w)" "(dispatch_step pf)\<^sup>*\<^sup>* (dispatch_start w) l"
  shows "server_inv (lp_server l) \<and> server_reachable pf w (lp_server l) \<and>
    device_names (sv_world (lp_server l)) = device_names w"
  using assms(3)
proof (induction rule: rtranclp_induct)
  case base
  then show ?case using assms(2) by (simp add: dispatch_start_def server_start_def server_inv_def server_reachable_def)
next
  case (step l l')
  from step.hyps(2) show ?case
  proof cases
    case (callback s')
    then show ?thesis
      using step.IH server_step_inv [OF assms(1) callback(3)] server_step_names [OF assms(1) _ callback(3)]
      by (auto simp: server_reachable_def intro: rtranclp.rtrancl_into_rtrancl)
  next
    case signal
    then show ?thesis using step.IH by (simp add: interrupt_def)
  qed
qed

lemma server_main_names:
  assumes "\<forall>geo. bt_dev_open b ''/dev/nvme1n1'' = Some geo \<longrightarrow> geo_ok geo" "server_main b d os = Running fd w os'"
  shows "device_names w = (if bt_exists b ''/dev/nvme1n1'' then [''/dev/nvme1n1''] else [])"
  using initialize_manager_cases [of "bt_dev_open b" "bt_exists b" "bt_ifs b", OF assms(1)] assms(2)
  by (auto simp: server_main_def Let_def ocssd_manager_new_def split: if_splits sum.splits prod.splits)

text \<open>A start with one device.\<close>

definition sample_boot :: boot where
  "sample_boot = \<lparr>bt_event_base = True, bt_exists = \<lambda>_. True, bt_dev_open = \<lambda>_. Some sample_geo, bt_ifs = [],
      bt_socket = 3, bt_setsockopt = 0, bt_bind = 0, bt_listen = 0\<rparr>"

definition sample_os :: os_state where
  "sample_os = \<lparr>fd_flags = \<lambda>_. None, ep_events = \<lambda>_. None, sig_action = \<lambda>_. None\<rparr>"

lemma sample_boot_geo: "\<forall>geo. bt_dev_open sample_boot ''/dev/nvme1n1'' = Some geo \<longrightarrow> geo_ok geo"
  by (simp add: sample_boot_def geo_ok_def sample_geo_def)

lemma sample_malloc_ok: "malloc_ok sample_platform"
  by (simp add: malloc_ok_def sample_platform_def)

section \<open>Theorems\<close>





end
