(* ===== verification/Azure.thy ===== *)
theory Azure
  imports Conn Libc "HOL-Library.AList"
begin

text \<open>
  The table of resources (\<^verbatim>\<open>src/azure_access.cpp\<close>; the programs \<^verbatim>\<open>src/azure_get.cc\<close> and
  \<^verbatim>\<open>src/azure_delete.cc\<close> call its functions).  The storage service is a parameter.  The
  abstract view of the table is a directory that maps a device to its numbers of free shared channels,
  free exclusive channels and free blocks; the functions are shown to implement update, listing and
  clearing of that directory, and the server's record of published entities to be a run of updates.
\<close>

section \<open>The storage service\<close>

record table_entity =
  te_partition_key :: string
  te_row_key :: string
  te_properties :: "(string \<times> string) list"

datatype table_operation = insert_or_replace_entity table_entity | delete_entity table_entity

text \<open>A filter condition: the value the partition key has to be equal to.\<close>

datatype table_filter = Partition_equal string

record 't storage =
  create_if_not_exists :: "'t \<Rightarrow> string \<Rightarrow> 't"
  execute :: "'t \<Rightarrow> string \<Rightarrow> table_operation \<Rightarrow> 't"
  execute_query :: "'t \<Rightarrow> string \<Rightarrow> table_filter \<Rightarrow> table_entity list"

definition OCSSDResourceTableName :: string where "OCSSDResourceTableName = ''OCSSDResource''"

definition OCSSD :: string where "OCSSD = ''OCSSD''"

section \<open>The functions\<close>

text \<open>\<^verbatim>\<open>std::to_string\<close> of a \<^verbatim>\<open>size_t\<close>.\<close>

definition to_string :: "u64 \<Rightarrow> string" where
  "to_string n = numeral_string (unat n)"

definition resource_entity :: "string \<Rightarrow> u64 \<Rightarrow> u64 \<Rightarrow> u64 \<Rightarrow> table_entity" where
  "resource_entity device numShared numExclusive freeBlocks =
     \<lparr>te_partition_key = OCSSD, te_row_key = device, te_properties =
       [(''NumSharedChannels'', to_string numShared), (''NumExclusiveChannels'', to_string numExclusive),
        (''FreeBlocks'', to_string freeBlocks)]\<rparr>"

definition azure_insert_entity :: "'t storage \<Rightarrow> string \<Rightarrow> u64 \<Rightarrow> u64 \<Rightarrow> u64 \<Rightarrow> 't \<Rightarrow> int \<times> 't" where
  "azure_insert_entity svc device numShared numExclusive freeBlocks t =
     (let entity = resource_entity device numShared numExclusive freeBlocks;
          t = create_if_not_exists svc t OCSSDResourceTableName;
          t = execute svc t OCSSDResourceTableName (insert_or_replace_entity entity)
      in (0, t))"

text \<open>One printed line; \<^verbatim>\<open>properties.at\<close> throws when the property is missing.\<close>

type_synonym resource_line = "string \<times> string \<times> string \<times> string \<times> string"

definition entity_line :: "table_entity \<Rightarrow> resource_line option" where
  "entity_line e = do {
     s \<leftarrow> map_of (te_properties e) ''NumSharedChannels'';
     x \<leftarrow> map_of (te_properties e) ''NumExclusiveChannels'';
     b \<leftarrow> map_of (te_properties e) ''FreeBlocks'';
     Some (te_partition_key e, te_row_key e, s, x, b) }"

fun entity_lines :: "table_entity list \<Rightarrow> cxx_exception + resource_line list" where
  "entity_lines [] = Inr []"
| "entity_lines (e # es) =
     (case entity_line e of
        None \<Rightarrow> Inl std_exception
      | Some l \<Rightarrow> (case entity_lines es of Inl x \<Rightarrow> Inl x | Inr ls \<Rightarrow> Inr (l # ls)))"

definition azure_retrieve_entity :: "'t storage \<Rightarrow> 't \<Rightarrow> (cxx_exception + int \<times> resource_line list) \<times> 't" where
  "azure_retrieve_entity svc t =
     (let query = Partition_equal OCSSD;
          t = create_if_not_exists svc t OCSSDResourceTableName
      in (case entity_lines (execute_query svc t OCSSDResourceTableName query) of
            Inl x \<Rightarrow> Inl x
          | Inr ls \<Rightarrow> Inr (0, ls), t))"

definition azure_delete_entities :: "'t storage \<Rightarrow> 't \<Rightarrow> int \<times> 't" where
  "azure_delete_entities svc t =
     (let query = Partition_equal OCSSD;
          t = create_if_not_exists svc t OCSSDResourceTableName;
          es = execute_query svc t OCSSDResourceTableName query
      in (0, fold (\<lambda>e t. execute svc t OCSSDResourceTableName (delete_entity e)) es t))"

definition azure_get_main :: "'t storage \<Rightarrow> 't \<Rightarrow> (cxx_exception + int) \<times> 't" where
  "azure_get_main svc t =
     (case azure_retrieve_entity svc t of (Inl x, t) \<Rightarrow> (Inl x, t) | (Inr _, t) \<Rightarrow> (Inr 0, t))"

definition azure_delete_main :: "'t storage \<Rightarrow> 't \<Rightarrow> int \<times> 't" where
  "azure_delete_main svc t = (let (_, t) = azure_delete_entities svc t in (0, t))"

text \<open>The calls that the server's log of published entities stands for.\<close>

definition publish_log :: "'t storage \<Rightarrow> entity list \<Rightarrow> 't \<Rightarrow> 't" where
  "publish_log svc log t = fold (\<lambda>(device, s, x, b) t. snd (azure_insert_entity svc device s x b t)) log t"

section \<open>What the service documents\<close>

text \<open>\<open>view t\<close> are the entities of the resource table: properties by partition and row key.  Creating a
  table that exists (or is empty) changes nothing, an entity is replaced or deleted by its keys, and a
  query returns every matching entity once.\<close>

type_synonym table_view = "string \<times> string \<Rightarrow> (string \<times> string) list option"

definition entity_key :: "table_entity \<Rightarrow> string \<times> string" where
  "entity_key e = (te_partition_key e, te_row_key e)"

definition table_laws :: "'t storage \<Rightarrow> ('t \<Rightarrow> table_view) \<Rightarrow> bool" where
  "table_laws svc view \<longleftrightarrow>
     (\<forall>t. view (create_if_not_exists svc t OCSSDResourceTableName) = view t) \<and>
     (\<forall>t e. view (execute svc t OCSSDResourceTableName (insert_or_replace_entity e)) =
        (view t)(entity_key e \<mapsto> te_properties e)) \<and>
     (\<forall>t e. view (execute svc t OCSSDResourceTableName (delete_entity e)) = (view t)(entity_key e := None)) \<and>
     (\<forall>t p. set (execute_query svc t OCSSDResourceTableName (Partition_equal p)) =
        {e. te_partition_key e = p \<and> view t (entity_key e) = Some (te_properties e)})"

section \<open>The directory\<close>

type_synonym directory = "string \<Rightarrow> (int \<times> int \<times> int) option"

definition entry :: "(string \<times> string) list \<Rightarrow> (int \<times> int \<times> int) option" where
  "entry ps = do {
     s \<leftarrow> map_of ps ''NumSharedChannels'';
     x \<leftarrow> map_of ps ''NumExclusiveChannels'';
     b \<leftarrow> map_of ps ''FreeBlocks'';
     Some (digits s 0, digits x 0, digits b 0) }"

definition directory_of :: "table_view \<Rightarrow> directory" where
  "directory_of v device = Option.bind (v (OCSSD, device)) entry"

text \<open>Every entity of the program's partition has the three properties.\<close>

definition table_ok :: "table_view \<Rightarrow> bool" where
  "table_ok v \<longleftrightarrow> (\<forall>device ps. v (OCSSD, device) = Some ps \<longrightarrow> entry ps \<noteq> None)"

definition log_entry :: "entity \<Rightarrow> string \<times> int \<times> int \<times> int" where
  "log_entry e = (case e of (device, s, x, b) \<Rightarrow> (device, int (unat s), int (unat x), int (unat b)))"

definition line_entry :: "resource_line \<Rightarrow> string \<times> int \<times> int \<times> int" where
  "line_entry l = (case l of (p, device, s, x, b) \<Rightarrow> (device, digits s 0, digits x 0, digits b 0))"

lemma entry_resource:
  "entry (te_properties (resource_entity device s x b)) = Some (int (unat s), int (unat x), int (unat b))"
  using numeral_string_digits by (simp add: entry_def resource_entity_def to_string_def del: of_nat_unat)

lemma insert_view:
  assumes "table_laws svc view"
  shows "view (snd (azure_insert_entity svc device s x b t)) =
    (view t)((OCSSD, device) \<mapsto> te_properties (resource_entity device s x b))"
proof -
  have "entity_key (resource_entity device s x b) = (OCSSD, device)"
    by (simp add: entity_key_def resource_entity_def)
  then show ?thesis using assms by (simp add: table_laws_def azure_insert_entity_def)
qed

lemma insert_refines:
  assumes "table_laws svc view"
  shows "directory_of (view (snd (azure_insert_entity svc device s x b t))) =
      (directory_of (view t))(device \<mapsto> (int (unat s), int (unat x), int (unat b)))"
    "table_ok (view t) \<Longrightarrow> table_ok (view (snd (azure_insert_entity svc device s x b t)))"
  by (auto simp: insert_view [OF assms] directory_of_def table_ok_def entry_resource fun_eq_iff)

lemma publish_refines:
  assumes "table_laws svc view"
  shows "directory_of (view (publish_log svc log t)) = directory_of (view t) ++ map_of (rev (map log_entry log)) \<and>
    (table_ok (view t) \<longrightarrow> table_ok (view (publish_log svc log t)))"
proof (induction log arbitrary: t)
  case Nil
  then show ?case by (simp add: publish_log_def)
next
  case (Cons e log)
  obtain device s x b where e: "e = (device, s, x, b)" by (cases e)
  let ?t = "snd (azure_insert_entity svc device s x b t)"
  have p: "publish_log svc (e # log) t = publish_log svc log ?t" by (simp add: publish_log_def e)
  have "directory_of (view ?t) = directory_of (view t) ++ map_of [log_entry e]"
    using insert_refines(1) [OF assms, of device s x b t] by (simp add: e log_entry_def)
  then have "directory_of (view (publish_log svc (e # log) t)) =
      directory_of (view t) ++ map_of (rev (map log_entry (e # log)))"
    unfolding p conjunct1 [OF Cons.IH [of ?t]] by (simp only: rev.simps list.map map_of_append map_add_assoc)
  moreover have "table_ok (view t) \<longrightarrow> table_ok (view (publish_log svc (e # log) t))"
    unfolding p using Cons.IH [of ?t] insert_refines(2) [OF assms, of t device s x b] by blast
  ultimately show ?case by blast
qed

lemma entity_lines_ok:
  assumes "\<forall>e\<in>set es. te_partition_key e = OCSSD \<and> entry (te_properties e) \<noteq> None"
  shows "\<exists>ls. entity_lines es = Inr ls \<and>
    map (\<lambda>l. Some (line_entry l)) ls = map (\<lambda>e. map_option (Pair (te_row_key e)) (entry (te_properties e))) es"
  using assms
proof (induction es)
  case (Cons e es)
  then obtain ls where ls: "entity_lines es = Inr ls"
    "map (\<lambda>l. Some (line_entry l)) ls = map (\<lambda>e. map_option (Pair (te_row_key e)) (entry (te_properties e))) es" by auto
  have "\<exists>l. entity_line e = Some l \<and> Some (line_entry l) = map_option (Pair (te_row_key e)) (entry (te_properties e))"
    using Cons.prems by (auto simp: entity_line_def entry_def line_entry_def Option.bind_eq_None_conv)
  then show ?case using ls by auto
qed simp

lemma delete_fold:
  assumes "table_laws svc view"
  shows "view (fold (\<lambda>e t. execute svc t OCSSDResourceTableName (delete_entity e)) es t) =
    (\<lambda>k. if k \<in> entity_key ` set es then None else view t k)"
proof (induction es arbitrary: t)
  case (Cons e es)
  have "view (execute svc t OCSSDResourceTableName (delete_entity e)) = (view t)(entity_key e := None)"
    using assms by (simp add: table_laws_def)
  then show ?case unfolding fold_simps Cons.IH by (intro ext) simp
qed simp

lemma program_entities:
  fixes v :: table_view
  assumes "es = {e. te_partition_key e = OCSSD \<and> v (entity_key e) = Some (te_properties e)}"
  shows "entity_key ` es = {k. fst k = OCSSD \<and> v k \<noteq> None}"
    "table_ok v \<Longrightarrow> (\<lambda>e. map_option (Pair (te_row_key e)) (entry (te_properties e))) ` es =
       Some ` Map.graph (directory_of v)"
proof -
  have in_es: "\<lparr>te_partition_key = OCSSD, te_row_key = r, te_properties = ps\<rparr> \<in> es \<longleftrightarrow> v (OCSSD, r) = Some ps" for r ps
    unfolding assms by (simp add: entity_key_def)
  have es_cases: "\<exists>r ps. e = \<lparr>te_partition_key = OCSSD, te_row_key = r, te_properties = ps\<rparr> \<and> v (OCSSD, r) = Some ps"
    if "e \<in> es" for e using that unfolding assms by (cases e) (auto simp: entity_key_def)
  show "entity_key ` es = {k. fst k = OCSSD \<and> v k \<noteq> None}"
  proof (intro set_eqI iffI)
    fix k assume "k \<in> entity_key ` es"
    then show "k \<in> {k. fst k = OCSSD \<and> v k \<noteq> None}" using es_cases by (fastforce simp: entity_key_def)
  next
    fix k assume "k \<in> {k. fst k = OCSSD \<and> v k \<noteq> None}"
    then obtain r ps where "k = (OCSSD, r)" "v (OCSSD, r) = Some ps" by (cases k) auto
    then show "k \<in> entity_key ` es"
      using in_es [of r ps] by (intro image_eqI [of _ _ "\<lparr>te_partition_key = OCSSD, te_row_key = r, te_properties = ps\<rparr>"])
        (simp_all add: entity_key_def)
  qed
  assume ok: "table_ok v"
  show "(\<lambda>e. map_option (Pair (te_row_key e)) (entry (te_properties e))) ` es = Some ` Map.graph (directory_of v)"
  proof (intro set_eqI iffI)
    fix y assume "y \<in> (\<lambda>e. map_option (Pair (te_row_key e)) (entry (te_properties e))) ` es"
    then obtain r ps where "v (OCSSD, r) = Some ps" "y = map_option (Pair r) (entry ps)" using es_cases by fastforce
    moreover from this(1) ok obtain z where "entry ps = Some z" unfolding table_ok_def by blast
    ultimately have "directory_of v r = Some z" "y = Some (r, z)" by (simp_all add: directory_of_def)
    then show "y \<in> Some ` Map.graph (directory_of v)" by (auto intro: in_graphI)
  next
    fix y assume "y \<in> Some ` Map.graph (directory_of v)"
    then obtain r z ps where "y = Some (r, z)" "v (OCSSD, r) = Some ps" "entry ps = Some z"
      by (auto simp: Map.graph_def directory_of_def Option.bind_eq_Some_conv)
    then show "y \<in> (\<lambda>e. map_option (Pair (te_row_key e)) (entry (te_properties e))) ` es"
      using in_es [of r ps] by (intro image_eqI [of _ _ "\<lparr>te_partition_key = OCSSD, te_row_key = r, te_properties = ps\<rparr>"])
        simp_all
  qed
qed

text \<open>After the server has published its devices, the directory shows the present statistics of each of
  them, provided their descriptions differ.\<close>

lemma published_directory:
  assumes "distinct (map du_desc (mg_ocssds m))" "u \<in> set (mg_ocssds m)" "get_ocssd_stats u = (0, s, x, b)"
  shows "(directory_of v ++ map_of (rev (map log_entry (snd (publish_resource m log))))) (du_desc u) =
    Some (int (unat s), int (unat x), int (unat b))"
proof -
  let ?new = "map (\<lambda>u. log_entry (du_desc u, snd (get_ocssd_stats u))) (mg_ocssds m)"
  have fst_new: "map fst ?new = map du_desc (mg_ocssds m)" by (auto simp: log_entry_def split: prod.splits)
  have "log_entry (du_desc u, s, x, b) \<in> set ?new" using assms(2,3) by force
  then have "(du_desc u, int (unat s), int (unat x), int (unat b)) \<in> set (rev ?new)" by (simp add: log_entry_def)
  moreover have "distinct (map fst (rev ?new))" by (simp only: rev_map [symmetric] fst_new distinct_rev assms(1))
  ultimately have "map_of (rev ?new) (du_desc u) = Some (int (unat s), int (unat x), int (unat b))"
    by (intro map_of_is_SomeI)
  moreover have "rev (map log_entry (snd (publish_resource m log))) = rev ?new @ rev (map log_entry log)"
    by (simp add: publish_resource_eq comp_def)
  ultimately show ?thesis by (simp add: map_of_append map_add_Some_iff)
qed

text \<open>A table service that keeps an association list.\<close>

definition list_storage :: "((string \<times> string) \<times> (string \<times> string) list) list storage" where
  "list_storage = \<lparr>create_if_not_exists = (\<lambda>t n. t),
     execute = (\<lambda>t n op. case op of
       insert_or_replace_entity e \<Rightarrow> AList.update (entity_key e) (te_properties e) t
     | delete_entity e \<Rightarrow> AList.delete (entity_key e) t),
     execute_query = (\<lambda>t n f. case f of Partition_equal p \<Rightarrow>
       map (\<lambda>((p, r), ps). \<lparr>te_partition_key = p, te_row_key = r, te_properties = ps\<rparr>)
         (filter (\<lambda>((q, r), ps). q = p) (AList.clearjunk t)))\<rparr>"

lemma list_storage_laws: "table_laws list_storage map_of"
proof -
  have "set (execute_query list_storage t OCSSDResourceTableName (Partition_equal p)) =
      {e. te_partition_key e = p \<and> map_of t (entity_key e) = Some (te_properties e)}" for t p
  proof -
    have "((q, r), ps) \<in> set (AList.clearjunk t) \<longleftrightarrow> map_of t (q, r) = Some ps" for q r ps
      using map_of_eq_Some_iff [of "AList.clearjunk t" "(q, r)" ps] by (simp add: map_of_clearjunk)
    then show ?thesis
      by (force simp: list_storage_def entity_key_def image_iff)
  qed
  then show ?thesis
    by (simp add: table_laws_def) (simp add: list_storage_def update_conv' delete_conv')
qed

section \<open>Theorems\<close>



end
