(* ===== verification/Threadpool.thy ===== *)
theory Threadpool
  imports Requests
begin

text \<open>
  The thread pool of \<^verbatim>\<open>src/threadpool.h\<close> over the semaphore and the mutex of
  \<^verbatim>\<open>src/locker.h\<close>, as a transition system: every thread has a program counter, and one
  step is one access to shared data or one operation of a mutex or a semaphore.  Producers call
  \<^verbatim>\<open>append\<close>, workers run \<^verbatim>\<open>run\<close>.  The invariant is proved by induction over
  the steps: the mutex excludes, the queue never exceeds its bound, no worker takes from an empty
  queue, requests are taken in the order in which they were accepted, and no wake-up is lost.
\<close>

section \<open>Mutex and semaphore\<close>

text \<open>The holder of a mutex, if any; the count of a semaphore.  The return values of
  \<^verbatim>\<open>lock\<close>, \<^verbatim>\<open>unlock\<close>, \<^verbatim>\<open>wait\<close> and \<^verbatim>\<open>post\<close> are
  ignored by the pool; \<^verbatim>\<open>wait\<close> may fail when a signal interrupts it.\<close>

datatype thread = Worker nat | Producer nat

definition locker_lock :: "thread \<Rightarrow> thread option \<Rightarrow> thread option option" where
  "locker_lock t m = (if m = None then Some (Some t) else None)"

definition locker_unlock :: "thread \<Rightarrow> thread option \<Rightarrow> thread option" where
  "locker_unlock t m = (if m = Some t then None else m)"

definition sem_wait :: "nat \<Rightarrow> nat option" where
  "sem_wait n = (if 0 < n then Some (n - 1) else None)"

definition sem_post :: "nat \<Rightarrow> nat" where
  "sem_post n = n + 1"

text \<open>The constructors; a failing initialisation throws.\<close>

definition locker_new :: "bool \<Rightarrow> cxx_exception + thread option" where
  "locker_new mutex_init = (if mutex_init then Inr None else Inl std_exception)"

definition sem_new :: "bool \<Rightarrow> cxx_exception + nat" where
  "sem_new sem_init = (if sem_init then Inr 0 else Inl std_exception)"

text \<open>The destructors.  Destroying a mutex that is locked, or a semaphore or condition variable that threads are
  blocked on, is undefined (\<^term>\<open>None\<close>); \<open>blocked\<close> is the number of such threads.\<close>

definition locker_delete :: "thread option \<Rightarrow> unit option" where
  "locker_delete m = (if m = None then Some () else None)"

definition sem_delete :: "nat \<Rightarrow> unit option" where
  "sem_delete blocked = (if blocked = 0 then Some () else None)"

section \<open>The condition variable\<close>

text \<open>The class \<^verbatim>\<open>cond\<close>: its mutex, the threads that wait, and those a signal has woken that still have
  to take the mutex again.\<close>

record condvar =
  cv_mutex :: "thread option"
  cv_waiting :: "thread list"
  cv_woken :: "thread list"

definition cond_new :: "bool \<Rightarrow> bool \<Rightarrow> cxx_exception + condvar" where
  "cond_new mutex_init cond_init =
     (if \<not> mutex_init then Inl std_exception
      else if \<not> cond_init then Inl std_exception
      else Inr \<lparr>cv_mutex = None, cv_waiting = [], cv_woken = []\<rparr>)"

text \<open>Program points of \<^verbatim>\<open>wait\<close>: before the lock, before and inside of
  \<^verbatim>\<open>pthread_cond_wait\<close>, before the unlock, and returned.\<close>

datatype cond_pc = CLock | CWait | CBlocked | CUnlock | CDone

definition cond_wait_step :: "thread \<Rightarrow> cond_pc \<Rightarrow> condvar \<Rightarrow> (cond_pc \<times> condvar) option" where
  "cond_wait_step t pc cv =
     (case pc of
        CLock \<Rightarrow> do { m \<leftarrow> locker_lock t (cv_mutex cv); Some (CWait, cv\<lparr>cv_mutex := m\<rparr>) }
      | CWait \<Rightarrow> Some (CBlocked, cv\<lparr>cv_mutex := locker_unlock t (cv_mutex cv), cv_waiting := cv_waiting cv @ [t]\<rparr>)
      | CBlocked \<Rightarrow> if t \<in> set (cv_woken cv)
          then do { m \<leftarrow> locker_lock t (cv_mutex cv);
                    Some (CUnlock, cv\<lparr>cv_mutex := m, cv_woken := removeAll t (cv_woken cv)\<rparr>) }
          else None
      | CUnlock \<Rightarrow> Some (CDone, cv\<lparr>cv_mutex := locker_unlock t (cv_mutex cv)\<rparr>)
      | CDone \<Rightarrow> None)"

definition cond_signal :: "condvar \<Rightarrow> condvar" where
  "cond_signal cv = (case cv_waiting cv of
     [] \<Rightarrow> cv | t # ts \<Rightarrow> cv\<lparr>cv_waiting := ts, cv_woken := cv_woken cv @ [t]\<rparr>)"

definition cond_delete :: "condvar \<Rightarrow> unit option" where
  "cond_delete cv = do { _ \<leftarrow> locker_delete (cv_mutex cv); if cv_waiting cv = [] then Some () else None }"

section \<open>The pool\<close>

text \<open>Program points of \<^verbatim>\<open>run\<close>: the loop head, before \<^verbatim>\<open>wait\<close>, before
  \<^verbatim>\<open>lock\<close>, with the lock (before \<^verbatim>\<open>empty()\<close>, before taking the front, before the
  two calls of \<^verbatim>\<open>unlock\<close>), running a request, and returned.\<close>

datatype 'r worker_pc =
    WLoop | WWait | WLock | WCheck | WTake | WUnlock "'r option" | WSkip | WRun "'r option" | WDone

text \<open>Program points of \<^verbatim>\<open>append\<close>; \<open>PIdle\<close> is outside of a call.\<close>

datatype 'r producer_pc =
    PIdle | PLock "'r option" | PCheck "'r option" | PPush "'r option" | PUnlock | PPost | PFull

text \<open>A request is a shared pointer, which may be null (\<^term>\<open>None\<close>).  \<open>tp_accepted\<close>, \<open>tp_taken\<close> and
  \<open>tp_processed\<close> are history.\<close>

record 'r threadpool =
  tp_max_requests :: nat
  tp_workqueue :: "'r option list"
  tp_queuelocker :: "thread option"
  tp_queuestat :: nat
  tp_stop :: bool
  tp_workers :: "'r worker_pc list"
  tp_producers :: "'r producer_pc list"
  tp_accepted :: "'r option list"
  tp_taken :: "'r option list"
  tp_processed :: "'r list"

text \<open>The constructor; \<open>create i\<close> and \<open>detach i\<close> tell whether \<^verbatim>\<open>pthread_create\<close> and
  \<^verbatim>\<open>pthread_detach\<close> succeed for thread \<open>i\<close>, \<open>n\<close> is the number of calling threads.\<close>

definition threadpool_new ::
  "(nat \<Rightarrow> bool) \<Rightarrow> (nat \<Rightarrow> bool) \<Rightarrow> nat \<Rightarrow> int \<Rightarrow> nat \<Rightarrow> cxx_exception + 'r threadpool" where
  "threadpool_new create detach n thread_number max_requests =
     (if thread_number \<le> 0 \<or> max_requests \<le> 0 then Inl std_exception
      else if list_all (\<lambda>i. create i \<and> detach i) [0..<nat thread_number]
      then Inr \<lparr>tp_max_requests = max_requests, tp_workqueue = [], tp_queuelocker = None, tp_queuestat = 0,
                tp_stop = False, tp_workers = replicate (nat thread_number) WLoop,
                tp_producers = replicate n PIdle, tp_accepted = [], tp_taken = [], tp_processed = []\<rparr>
      else Inl std_exception)"

abbreviation set_worker :: "nat \<Rightarrow> 'r worker_pc \<Rightarrow> 'r threadpool \<Rightarrow> 'r threadpool" where
  "set_worker i pc s \<equiv> s\<lparr>tp_workers := (tp_workers s)[i := pc]\<rparr>"

abbreviation set_producer :: "nat \<Rightarrow> 'r producer_pc \<Rightarrow> 'r threadpool \<Rightarrow> 'r threadpool" where
  "set_producer i pc s \<equiv> s\<lparr>tp_producers := (tp_producers s)[i := pc]\<rparr>"

text \<open>One step of \<^verbatim>\<open>append\<close> by producer \<open>i\<close>; \<^term>\<open>None\<close>: it cannot step.\<close>

definition append_step :: "nat \<Rightarrow> 'r threadpool \<Rightarrow> 'r threadpool option" where
  "append_step i s =
     (case tp_producers s ! i of
        PIdle \<Rightarrow> None
      | PLock r \<Rightarrow> do { m \<leftarrow> locker_lock (Producer i) (tp_queuelocker s);
                      Some (set_producer i (PCheck r) (s\<lparr>tp_queuelocker := m\<rparr>)) }
      | PCheck r \<Rightarrow> Some (set_producer i (if length (tp_workqueue s) > tp_max_requests s then PFull else PPush r) s)
      | PPush r \<Rightarrow> Some (set_producer i PUnlock
          (s\<lparr>tp_workqueue := tp_workqueue s @ [r], tp_accepted := tp_accepted s @ [r]\<rparr>))
      | PUnlock \<Rightarrow> Some (set_producer i PPost
          (s\<lparr>tp_queuelocker := locker_unlock (Producer i) (tp_queuelocker s)\<rparr>))
      | PPost \<Rightarrow> Some (set_producer i PIdle (s\<lparr>tp_queuestat := sem_post (tp_queuestat s)\<rparr>))
      | PFull \<Rightarrow> Some (set_producer i PIdle
          (s\<lparr>tp_queuelocker := locker_unlock (Producer i) (tp_queuelocker s)\<rparr>)))"

text \<open>One step of \<^verbatim>\<open>run\<close> by worker \<open>i\<close>; \<open>interrupted\<close> tells whether a signal
  interrupts \<^verbatim>\<open>sem_wait\<close>.  Taking from an empty queue has no step.\<close>

definition run_step :: "bool \<Rightarrow> nat \<Rightarrow> 'r threadpool \<Rightarrow> 'r threadpool option" where
  "run_step interrupted i s =
     (case tp_workers s ! i of
        WLoop \<Rightarrow> Some (set_worker i (if tp_stop s then WDone else WWait) s)
      | WWait \<Rightarrow> if interrupted then Some (set_worker i WLock s)
                 else do { n \<leftarrow> sem_wait (tp_queuestat s); Some (set_worker i WLock (s\<lparr>tp_queuestat := n\<rparr>)) }
      | WLock \<Rightarrow> do { m \<leftarrow> locker_lock (Worker i) (tp_queuelocker s);
                     Some (set_worker i WCheck (s\<lparr>tp_queuelocker := m\<rparr>)) }
      | WCheck \<Rightarrow> Some (set_worker i (if tp_workqueue s = [] then WSkip else WTake) s)
      | WTake \<Rightarrow> (case tp_workqueue s of
                    [] \<Rightarrow> None
                  | r # q \<Rightarrow> Some (set_worker i (WUnlock r) (s\<lparr>tp_workqueue := q, tp_taken := tp_taken s @ [r]\<rparr>)))
      | WSkip \<Rightarrow> Some (set_worker i WLoop (s\<lparr>tp_queuelocker := locker_unlock (Worker i) (tp_queuelocker s)\<rparr>))
      | WUnlock r \<Rightarrow> Some (set_worker i (WRun r) (s\<lparr>tp_queuelocker := locker_unlock (Worker i) (tp_queuelocker s)\<rparr>))
      | WRun r \<Rightarrow> Some (set_worker i WLoop (case r of None \<Rightarrow> s | Some x \<Rightarrow> s\<lparr>tp_processed := tp_processed s @ [x]\<rparr>))
      | WDone \<Rightarrow> None)"

text \<open>The destructor: it frees the array of thread handles and sets the flag the workers look at before
  they wait.\<close>

definition threadpool_delete :: "'r threadpool \<Rightarrow> 'r threadpool" where
  "threadpool_delete s = s\<lparr>tp_stop := True\<rparr>"

text \<open>The members are destroyed after the body, in the reverse order of their declaration.  A worker in
  \<^verbatim>\<open>wait\<close> is blocked when the semaphore has no count.\<close>

definition blocked_workers :: "'r threadpool \<Rightarrow> nat" where
  "blocked_workers s = (if tp_queuestat s = 0 then length (filter (\<lambda>pc. pc = WWait) (tp_workers s)) else 0)"

definition threadpool_destroy :: "'r threadpool \<Rightarrow> 'r threadpool option" where
  "threadpool_destroy s =
     (let s = threadpool_delete s in do {
        _ \<leftarrow> sem_delete (blocked_workers s);
        _ \<leftarrow> locker_delete (tp_queuelocker s);
        Some s })"

inductive pool_step :: "'r threadpool \<Rightarrow> 'r threadpool \<Rightarrow> bool" where
  call: "i < length (tp_producers s) \<Longrightarrow> tp_producers s ! i = PIdle \<Longrightarrow>
    pool_step s (set_producer i (PLock r) s)"
| produce: "i < length (tp_producers s) \<Longrightarrow> append_step i s = Some s' \<Longrightarrow> pool_step s s'"
| work: "i < length (tp_workers s) \<Longrightarrow> run_step interrupted i s = Some s' \<Longrightarrow> pool_step s s'"

section \<open>Invariant\<close>

definition w_holds :: "'r worker_pc \<Rightarrow> bool" where
  "w_holds pc \<longleftrightarrow> (case pc of WCheck \<Rightarrow> True | WTake \<Rightarrow> True | WUnlock _ \<Rightarrow> True | WSkip \<Rightarrow> True | _ \<Rightarrow> False)"

definition p_holds :: "'r producer_pc \<Rightarrow> bool" where
  "p_holds pc \<longleftrightarrow> (case pc of PCheck _ \<Rightarrow> True | PPush _ \<Rightarrow> True | PUnlock \<Rightarrow> True | PFull \<Rightarrow> True | _ \<Rightarrow> False)"

text \<open>The threads at a program point with the lock are exactly the holder of the mutex.\<close>

definition exclusive_lock :: "thread option \<Rightarrow> 'r worker_pc list \<Rightarrow> 'r producer_pc list \<Rightarrow> bool" where
  "exclusive_lock l ws ps \<longleftrightarrow>
     (\<forall>i. (i < length ws \<and> w_holds (ws ! i)) \<longleftrightarrow> l = Some (Worker i)) \<and>
     (\<forall>i. (i < length ps \<and> p_holds (ps ! i)) \<longleftrightarrow> l = Some (Producer i))"

text \<open>Pushed requests whose \<^verbatim>\<open>post\<close> is still to come, and workers past their
  \<^verbatim>\<open>wait\<close> that have not taken a request yet.\<close>

definition posting :: "'r producer_pc \<Rightarrow> nat" where
  "posting pc = (case pc of PUnlock \<Rightarrow> 1 | PPost \<Rightarrow> 1 | _ \<Rightarrow> 0)"

definition coming :: "'r worker_pc \<Rightarrow> nat" where
  "coming pc = (case pc of WLock \<Rightarrow> 1 | WCheck \<Rightarrow> 1 | WTake \<Rightarrow> 1 | _ \<Rightarrow> 0)"

definition wakeups :: "'r threadpool \<Rightarrow> nat" where
  "wakeups s = tp_queuestat s + sum_list (map posting (tp_producers s)) + sum_list (map coming (tp_workers s))"

definition pushing_ok :: "nat \<Rightarrow> 'r option list \<Rightarrow> 'r producer_pc list \<Rightarrow> bool" where
  "pushing_ok m q ps \<longleftrightarrow> (\<forall>r. PPush r \<in> set ps \<longrightarrow> length q \<le> m)"

definition taking_ok :: "'r option list \<Rightarrow> 'r worker_pc list \<Rightarrow> bool" where
  "taking_ok q ws \<longleftrightarrow> (WTake \<in> set ws \<longrightarrow> q \<noteq> [])"

definition pool_inv :: "'r threadpool \<Rightarrow> bool" where
  "pool_inv s \<longleftrightarrow> exclusive_lock (tp_queuelocker s) (tp_workers s) (tp_producers s) \<and>
     length (tp_workqueue s) \<le> tp_max_requests s + 1 \<and>
     pushing_ok (tp_max_requests s) (tp_workqueue s) (tp_producers s) \<and>
     taking_ok (tp_workqueue s) (tp_workers s) \<and>
     tp_accepted s = tp_taken s @ tp_workqueue s \<and> length (tp_workqueue s) \<le> wakeups s"

lemma sum_list_upd:
  "i < length xs \<Longrightarrow> sum_list (map f (xs[i := y])) + f (xs ! i) = sum_list (map f xs) + (f y :: nat)"
proof (induction xs arbitrary: i)
  case (Cons x xs)
  then show ?case by (cases i) auto
qed simp

lemma in_set_upd: "x \<in> set (xs[i := y]) \<Longrightarrow> x = y \<or> x \<in> set xs"
  using set_update_subset_insert [of xs i y] by auto

lemma exclusive_worker:
  assumes "exclusive_lock l ws ps" "i < length ws"
  shows "w_holds pc \<longleftrightarrow> w_holds (ws ! i) \<Longrightarrow> exclusive_lock l (ws[i := pc]) ps"
    "l = None \<Longrightarrow> w_holds pc \<Longrightarrow> exclusive_lock (Some (Worker i)) (ws[i := pc]) ps"
    "w_holds (ws ! i) \<Longrightarrow> \<not> w_holds pc \<Longrightarrow> exclusive_lock (locker_unlock (Worker i) l) (ws[i := pc]) ps"
  using assms by (auto simp: exclusive_lock_def nth_list_update locker_unlock_def)

lemma exclusive_producer:
  assumes "exclusive_lock l ws ps" "i < length ps"
  shows "p_holds pc \<longleftrightarrow> p_holds (ps ! i) \<Longrightarrow> exclusive_lock l ws (ps[i := pc])"
    "l = None \<Longrightarrow> p_holds pc \<Longrightarrow> exclusive_lock (Some (Producer i)) ws (ps[i := pc])"
    "p_holds (ps ! i) \<Longrightarrow> \<not> p_holds pc \<Longrightarrow> exclusive_lock (locker_unlock (Producer i) l) ws (ps[i := pc])"
  using assms by (auto simp: exclusive_lock_def nth_list_update locker_unlock_def)

text \<open>While a thread has the lock, no other thread is at a program point with the lock.\<close>

lemma exclusive_worker_alone:
  assumes "exclusive_lock l ws ps" "i < length ws" "w_holds (ws ! i)"
  shows "x \<in> set ps \<Longrightarrow> \<not> p_holds x" "j < length ws \<Longrightarrow> w_holds (ws ! j) \<Longrightarrow> j = i"
proof -
  have l: "l = Some (Worker i)" using assms by (auto simp: exclusive_lock_def)
  show "\<not> p_holds x" if "x \<in> set ps" using assms(1) that l by (auto simp: exclusive_lock_def in_set_conv_nth)
  show "j = i" if "j < length ws" "w_holds (ws ! j)" using assms(1) that l by (auto simp: exclusive_lock_def)
qed

lemma exclusive_producer_alone:
  assumes "exclusive_lock l ws ps" "i < length ps" "p_holds (ps ! i)"
  shows "x \<in> set ws \<Longrightarrow> \<not> w_holds x" "j < length ps \<Longrightarrow> p_holds (ps ! j) \<Longrightarrow> j = i"
proof -
  have l: "l = Some (Producer i)" using assms by (auto simp: exclusive_lock_def)
  show "\<not> w_holds x" if "x \<in> set ws" using assms(1) that l by (auto simp: exclusive_lock_def in_set_conv_nth)
  show "j = i" if "j < length ps" "p_holds (ps ! j)" using assms(1) that l by (auto simp: exclusive_lock_def)
qed

text \<open>A producer moves to \<open>pc\<close> and changes the lock, the queue and the semaphore.\<close>

lemma producer_inv:
  assumes "pool_inv s" "i < length (tp_producers s)"
    and "exclusive_lock l (tp_workers s) ((tp_producers s)[i := pc])"
    and "length q \<le> tp_max_requests s + 1" "pushing_ok (tp_max_requests s) q ((tp_producers s)[i := pc])"
    and "taking_ok q (tp_workers s)" "acc = tp_taken s @ q"
    and "length q + posting (tp_producers s ! i) + tp_queuestat s \<le> length (tp_workqueue s) + posting pc + n"
  shows "pool_inv (s\<lparr>tp_queuelocker := l, tp_workqueue := q, tp_accepted := acc, tp_queuestat := n,
    tp_producers := (tp_producers s)[i := pc]\<rparr>)"
  using assms sum_list_upd [OF assms(2), of posting pc] by (simp add: pool_inv_def wakeups_def)

lemma worker_inv:
  assumes "pool_inv s" "i < length (tp_workers s)"
    and "exclusive_lock l ((tp_workers s)[i := pc]) (tp_producers s)"
    and "length q \<le> tp_max_requests s + 1" "pushing_ok (tp_max_requests s) q (tp_producers s)"
    and "taking_ok q ((tp_workers s)[i := pc])" "tp_accepted s = t @ q"
    and "length q + coming (tp_workers s ! i) + tp_queuestat s \<le> length (tp_workqueue s) + coming pc + n \<or> q = []"
  shows "pool_inv (s\<lparr>tp_queuelocker := l, tp_workqueue := q, tp_taken := t, tp_queuestat := n,
    tp_workers := (tp_workers s)[i := pc]\<rparr>)"
  using assms sum_list_upd [OF assms(2), of coming pc] by (auto simp: pool_inv_def wakeups_def)

lemma pushing_upd: "pushing_ok m q ps \<Longrightarrow> (\<And>r. pc = PPush r \<Longrightarrow> length q \<le> m) \<Longrightarrow> pushing_ok m q (ps[i := pc])"
  by (auto simp: pushing_ok_def dest!: in_set_upd)

lemma taking_upd: "taking_ok q ws \<Longrightarrow> (pc = WTake \<Longrightarrow> q \<noteq> []) \<Longrightarrow> taking_ok q (ws[i := pc])"
  by (auto simp: taking_ok_def dest!: in_set_upd)

lemma pool_invD:
  assumes "pool_inv s"
  shows "exclusive_lock (tp_queuelocker s) (tp_workers s) (tp_producers s)"
    "length (tp_workqueue s) \<le> tp_max_requests s + 1"
    "pushing_ok (tp_max_requests s) (tp_workqueue s) (tp_producers s)"
    "taking_ok (tp_workqueue s) (tp_workers s)" "tp_accepted s = tp_taken s @ tp_workqueue s"
  using assms by (simp_all add: pool_inv_def)

lemmas pc_simps = p_holds_def w_holds_def posting_def coming_def

lemma call_inv:
  assumes "pool_inv s" "i < length (tp_producers s)" "tp_producers s ! i = PIdle"
  shows "pool_inv (set_producer i (PLock r) s)"
proof -
  note D = pool_invD [OF assms(1)]
  have "pool_inv (s\<lparr>tp_queuelocker := tp_queuelocker s, tp_workqueue := tp_workqueue s,
      tp_accepted := tp_accepted s, tp_queuestat := tp_queuestat s, tp_producers := (tp_producers s)[i := PLock r]\<rparr>)"
    by (rule producer_inv [OF assms(1,2) exclusive_producer(1) [OF D(1) assms(2)] D(2) pushing_upd [OF D(3)] D(4,5)])
      (simp_all add: assms(3) pc_simps)
  then show ?thesis by simp
qed

lemma append_step_inv:
  assumes "pool_inv s" "i < length (tp_producers s)" "append_step i s = Some s'"
  shows "pool_inv s'"
proof -
  note D = pool_invD [OF assms(1)] and E = exclusive_producer [OF pool_invD(1) [OF assms(1)] assms(2)]
  have P: "pool_inv (s\<lparr>tp_queuelocker := l, tp_workqueue := tp_workqueue s, tp_accepted := tp_accepted s,
      tp_queuestat := n, tp_producers := (tp_producers s)[i := pc]\<rparr>)"
    if "exclusive_lock l (tp_workers s) ((tp_producers s)[i := pc])"
      "\<And>r. pc = PPush r \<Longrightarrow> length (tp_workqueue s) \<le> tp_max_requests s"
      "posting (tp_producers s ! i) + tp_queuestat s \<le> posting pc + n" for l pc n
    by (rule producer_inv [OF assms(1,2) that(1) D(2) pushing_upd [OF D(3) that(2)] D(4,5)]) (use that(3) in auto)
  show ?thesis
  proof (cases "tp_producers s ! i")
    case (PLock r)
    then have "s' = s\<lparr>tp_queuelocker := Some (Producer i), tp_producers := (tp_producers s)[i := PCheck r]\<rparr>"
      "tp_queuelocker s = None"
      using assms(3) by (auto simp: append_step_def locker_lock_def split: if_splits)
    then show ?thesis using P [OF E(2), of "PCheck r" "tp_queuestat s"] PLock by (simp add: pc_simps)
  next
    case (PCheck r)
    then show ?thesis
      using assms(3) P [OF E(1), of PFull "tp_queuestat s"] P [OF E(1), of "PPush r" "tp_queuestat s"]
      by (auto simp: append_step_def pc_simps)
  next
    case (PPush r)
    have "PPush r \<in> set (tp_producers s)" using nth_mem [OF assms(2)] PPush by simp
    then have q: "length (tp_workqueue s) \<le> tp_max_requests s" using D(3) by (auto simp: pushing_ok_def)
    have h: "p_holds (tp_producers s ! i)" by (simp add: PPush p_holds_def)
    have "PPush x \<notin> set ((tp_producers s)[i := PUnlock])" for x
    proof
      assume "PPush x \<in> set ((tp_producers s)[i := PUnlock])"
      then obtain j where j: "j < length (tp_producers s)" "(tp_producers s)[i := PUnlock] ! j = PPush x"
        by (auto simp: in_set_conv_nth)
      then have "j \<noteq> i" by auto
      then have "p_holds (tp_producers s ! j)" using j(2) by (simp add: p_holds_def)
      from exclusive_producer_alone(2) [OF D(1) assms(2) h j(1) this] \<open>j \<noteq> i\<close> show False by simp
    qed
    then have np: "pushing_ok (tp_max_requests s) (tp_workqueue s @ [r]) ((tp_producers s)[i := PUnlock])"
      by (simp add: pushing_ok_def)
    have e: "exclusive_lock (tp_queuelocker s) (tp_workers s) ((tp_producers s)[i := PUnlock])"
      by (rule E(1)) (simp add: PPush p_holds_def)
    have "pool_inv (s\<lparr>tp_queuelocker := tp_queuelocker s, tp_workqueue := tp_workqueue s @ [r],
        tp_accepted := tp_accepted s @ [r], tp_queuestat := tp_queuestat s,
        tp_producers := (tp_producers s)[i := PUnlock]\<rparr>)"
      by (rule producer_inv [OF assms(1,2) e _ np])
        (use q D(5) in \<open>simp_all add: PPush posting_def taking_ok_def\<close>)
    then show ?thesis using assms(3) PPush by (auto simp: append_step_def)
  next
    case PUnlock
    then show ?thesis
      using assms(3) P [OF E(3), of PPost "tp_queuestat s"] by (auto simp: append_step_def pc_simps)
  next
    case PPost
    then show ?thesis
      using assms(3) P [OF E(1), of PIdle "tp_queuestat s + 1"] by (auto simp: append_step_def pc_simps sem_post_def)
  next
    case PFull
    then show ?thesis
      using assms(3) P [OF E(3), of PIdle "tp_queuestat s"] by (auto simp: append_step_def pc_simps)
  qed (use assms(3) in \<open>simp add: append_step_def\<close>)
qed

lemma run_step_inv:
  assumes "pool_inv s" "i < length (tp_workers s)" "run_step interrupted i s = Some s'"
  shows "pool_inv s'"
proof -
  note D = pool_invD [OF assms(1)] and E = exclusive_worker [OF pool_invD(1) [OF assms(1)] assms(2)]
  have P: "pool_inv (s\<lparr>tp_queuelocker := l, tp_workqueue := tp_workqueue s, tp_taken := tp_taken s,
      tp_queuestat := n, tp_workers := (tp_workers s)[i := pc]\<rparr>)"
    if "exclusive_lock l ((tp_workers s)[i := pc]) (tp_producers s)" "pc = WTake \<Longrightarrow> tp_workqueue s \<noteq> []"
      "coming (tp_workers s ! i) + tp_queuestat s \<le> coming pc + n \<or> tp_workqueue s = []" for l pc n
    by (rule worker_inv [OF assms(1,2) that(1) D(2,3) taking_upd [OF D(4) that(2)] D(5)]) (use that(3) in auto)
  show ?thesis
  proof (cases "tp_workers s ! i")
    case WLoop
    then show ?thesis
      using assms(3) P [OF E(1), of WDone "tp_queuestat s"] P [OF E(1), of WWait "tp_queuestat s"]
      by (auto simp: run_step_def pc_simps)
  next
    case WWait
    then show ?thesis
      using assms(3) P [OF E(1), of WLock "tp_queuestat s"] P [OF E(1), of WLock "tp_queuestat s - 1"]
      by (auto simp: run_step_def pc_simps sem_wait_def split: if_splits)
  next
    case WLock
    then have "s' = s\<lparr>tp_queuelocker := Some (Worker i), tp_workers := (tp_workers s)[i := WCheck]\<rparr>"
      "tp_queuelocker s = None"
      using assms(3) by (auto simp: run_step_def locker_lock_def split: if_splits)
    then show ?thesis using P [OF E(2), of WCheck "tp_queuestat s"] WLock by (simp add: pc_simps)
  next
    case WCheck
    have k: "pool_inv (set_worker i pc s)" if "w_holds pc" "pc = WTake \<Longrightarrow> tp_workqueue s \<noteq> []"
      "coming pc = 1 \<or> tp_workqueue s = []" for pc
      using P [OF E(1), of pc "tp_queuestat s"] WCheck that by (auto simp: w_holds_def coming_def)
    then show ?thesis
      using assms(3) WCheck k [of WSkip] k [of WTake] by (auto simp: run_step_def w_holds_def coming_def)
  next
    case WTake
    then obtain r q where q: "tp_workqueue s = r # q"
      "s' = s\<lparr>tp_workqueue := q, tp_taken := tp_taken s @ [r], tp_workers := (tp_workers s)[i := WUnlock r]\<rparr>"
      using assms(3) by (auto simp: run_step_def split: list.splits)
    have h: "w_holds (tp_workers s ! i)" by (simp add: WTake w_holds_def)
    have "WTake \<notin> set ((tp_workers s)[i := WUnlock r])"
    proof
      assume "WTake \<in> set ((tp_workers s)[i := WUnlock r])"
      then obtain j where j: "j < length (tp_workers s)" "(tp_workers s)[i := WUnlock r] ! j = WTake"
        by (auto simp: in_set_conv_nth)
      then have "j \<noteq> i" by auto
      then have "w_holds (tp_workers s ! j)" using j(2) by (simp add: w_holds_def)
      from exclusive_worker_alone(2) [OF D(1) assms(2) h j(1) this] \<open>j \<noteq> i\<close> show False by simp
    qed
    then have nt: "taking_ok q ((tp_workers s)[i := WUnlock r])" by (simp add: taking_ok_def)
    have e: "exclusive_lock (tp_queuelocker s) ((tp_workers s)[i := WUnlock r]) (tp_producers s)"
      by (rule E(1)) (simp add: WTake w_holds_def)
    have p: "pushing_ok (tp_max_requests s) q (tp_producers s)"
      using D(3) q(1) by (auto simp: pushing_ok_def)
    have "pool_inv (s\<lparr>tp_queuelocker := tp_queuelocker s, tp_workqueue := q, tp_taken := tp_taken s @ [r],
        tp_queuestat := tp_queuestat s, tp_workers := (tp_workers s)[i := WUnlock r]\<rparr>)"
      by (rule worker_inv [OF assms(1,2) e _ p nt]) (use q(1) D(2,5) in \<open>simp_all add: WTake coming_def\<close>)
    then show ?thesis unfolding q(2) by simp
  next
    case (WUnlock r)
    then show ?thesis
      using assms(3) P [OF E(3), of "WRun r" "tp_queuestat s"] by (auto simp: run_step_def pc_simps)
  next
    case WSkip
    then show ?thesis
      using assms(3) P [OF E(3), of WLoop "tp_queuestat s"] by (auto simp: run_step_def pc_simps)
  next
    case (WRun r)
    have "pool_inv (set_worker i WLoop s)"
      using P [OF E(1), of WLoop "tp_queuestat s"] WRun by (simp add: pc_simps)
    then have "pool_inv (set_worker i WLoop (s\<lparr>tp_processed := x\<rparr>))" for x
      by (simp add: pool_inv_def wakeups_def)
    then show ?thesis
      using assms(3) WRun \<open>pool_inv (set_worker i WLoop s)\<close> by (auto simp: run_step_def split: option.splits)
  qed (use assms(3) in \<open>simp add: run_step_def\<close>)
qed

lemma pool_step_inv: "pool_step s s' \<Longrightarrow> pool_inv s \<Longrightarrow> pool_inv s'"
  by (induction rule: pool_step.induct) (auto intro: call_inv append_step_inv run_step_inv)

lemma threadpool_new_inv:
  assumes "threadpool_new create detach n thread_number max_requests = Inr s"
  shows "pool_inv s"
  using assms by (auto simp: threadpool_new_def pool_inv_def exclusive_lock_def pc_simps pushing_ok_def
      taking_ok_def split: if_splits)

lemma pool_reachable_inv:
  assumes "threadpool_new create detach n thread_number max_requests = Inr s0" "pool_step\<^sup>*\<^sup>* s0 s"
  shows "pool_inv s \<and> tp_max_requests s = tp_max_requests s0"
  using assms(2)
proof (induction rule: rtranclp_induct)
  case base
  then show ?case using threadpool_new_inv [OF assms(1)] by simp
next
  case (step s1 s2)
  have "tp_max_requests s2 = tp_max_requests s1"
    using step(2) by (cases rule: pool_step.cases)
      (auto simp: append_step_def run_step_def Option.bind_eq_Some_conv Let_def
        split: worker_pc.splits producer_pc.splits list.splits option.splits if_splits)
  then show ?case using step pool_step_inv by auto
qed

section \<open>Stopping\<close>

text \<open>The destructor keeps the invariant but wakes nobody: a worker that waits on an empty semaphore cannot
  go on, and does not see the flag.\<close>

lemma threadpool_delete_inv: "pool_inv s \<Longrightarrow> pool_inv (threadpool_delete s)"
  by (simp add: pool_inv_def threadpool_delete_def wakeups_def)

lemma threadpool_delete_stuck:
  "tp_workers s ! i = WWait \<Longrightarrow> tp_queuestat s = 0 \<Longrightarrow> run_step False i (threadpool_delete s) = None"
  by (simp add: run_step_def threadpool_delete_def sem_wait_def)

text \<open>So the pool can be destroyed only while no worker waits for work and no thread is inside a critical
  section; an idle pool cannot.\<close>

lemma threadpool_destroy_defined:
  "threadpool_destroy s \<noteq> None \<longleftrightarrow> tp_queuelocker s = None \<and> (tp_queuestat s = 0 \<longrightarrow> WWait \<notin> set (tp_workers s))"
  by (auto simp: threadpool_destroy_def threadpool_delete_def blocked_workers_def sem_delete_def locker_delete_def
      filter_empty_conv Let_def split: if_splits)

lemma threadpool_destroy_idle:
  assumes "i < length (tp_workers s)" "tp_workers s ! i = WWait" "tp_queuestat s = 0"
  shows "threadpool_destroy s = None"
  using assms threadpool_destroy_defined [of s] by (metis nth_mem)

text \<open>A condition variable can be destroyed when the threads that used it have left.\<close>

lemma cond_delete_new: "cond_new True True = Inr cv \<Longrightarrow> cond_delete cv = Some ()"
  by (auto simp: cond_new_def cond_delete_def locker_delete_def)

lemma cond_delete_waiting:
  "cond_wait_step t CWait cv = Some (CBlocked, cv') \<Longrightarrow> cond_delete cv' = None"
  by (auto simp: cond_wait_step_def cond_delete_def locker_delete_def)

text \<open>A signal reaches a thread that waits, and lets it through once the mutex is free; a signal that
  nobody waits for is lost.\<close>

lemma cond_signal_wakes:
  assumes "cv_waiting cv = t # ts" "cv_mutex cv = None"
  obtains cv' where "cond_wait_step t CBlocked (cond_signal cv) = Some (CUnlock, cv')" "cv_mutex cv' = Some t"
    "cv_waiting cv' = ts"
  using assms by (auto simp: cond_wait_step_def cond_signal_def locker_lock_def)

lemma cond_signal_lost:
  assumes "cond_new True True = Inr cv"
  shows "\<exists>cv1 cv2. cond_wait_step t CLock (cond_signal cv) = Some (CWait, cv1) \<and>
    cond_wait_step t CWait cv1 = Some (CBlocked, cv2) \<and> cond_wait_step t CBlocked cv2 = None"
  using assms by (auto simp: cond_new_def cond_wait_step_def cond_signal_def locker_lock_def)

section \<open>Examples\<close>

definition sample_pool :: "nat threadpool" where
  "sample_pool = (case threadpool_new (\<lambda>_. True) (\<lambda>_. True) 2 1 1 of Inr s \<Rightarrow> s)"

lemma sample_pool_new: "threadpool_new (\<lambda>_. True) (\<lambda>_. True) 2 1 1 = Inr sample_pool"
  by (simp add: sample_pool_def threadpool_new_def)

text \<open>Two callers fill the queue of the sample pool while its worker waits.\<close>

definition busy_pool :: "nat threadpool" where
  "busy_pool = sample_pool\<lparr>tp_workqueue := [Some 1, Some 2], tp_queuestat := 2, tp_workers := [WWait],
     tp_accepted := [Some 1, Some 2]\<rparr>"

fun append_steps :: "nat \<Rightarrow> nat \<Rightarrow> 'r threadpool \<Rightarrow> 'r threadpool option" where
  "append_steps i 0 s = Some s"
| "append_steps i (Suc k) s = do { s \<leftarrow> append_step i s; append_steps i k s }"

lemma append_steps_reach:
  "append_steps i k s = Some s' \<Longrightarrow> i < length (tp_producers s) \<Longrightarrow> pool_step\<^sup>*\<^sup>* s s'"
proof (induction k arbitrary: s)
  case (Suc k)
  then obtain s1 where s1: "append_step i s = Some s1" "append_steps i k s1 = Some s'"
    by (auto simp: Option.bind_eq_Some_conv)
  have "length (tp_producers s1) = length (tp_producers s)"
    using s1(1) by (auto simp: append_step_def Option.bind_eq_Some_conv split: producer_pc.splits)
  then show ?case
    using produce [OF Suc.prems(2) s1(1)] Suc.IH [OF s1(2)] Suc.prems(2)
    by (simp add: converse_rtranclp_into_rtranclp)
qed simp

lemma busy_pool_reachable: "pool_step\<^sup>*\<^sup>* sample_pool busy_pool"
proof -
  let ?s1 = "set_producer 0 (PLock (Some 1)) sample_pool"
  let ?s2 = "sample_pool\<lparr>tp_workqueue := [Some 1], tp_queuestat := 1, tp_accepted := [Some 1]\<rparr>"
  let ?s3 = "set_producer 1 (PLock (Some 2)) ?s2"
  let ?s4 = "sample_pool\<lparr>tp_workqueue := [Some 1, Some 2], tp_queuestat := 2, tp_accepted := [Some 1, Some 2]\<rparr>"
  have len: "length (tp_producers sample_pool) = 2" by (simp add: sample_pool_def threadpool_new_def)
  have idle: "tp_producers sample_pool ! 0 = PIdle" "tp_producers sample_pool ! 1 = PIdle"
    by (simp_all add: sample_pool_def threadpool_new_def)
  have 1: "pool_step sample_pool ?s1" using call [of 0 sample_pool "Some 1"] len idle by simp
  have "append_steps 0 5 ?s1 = Some ?s2" by code_simp
  then have 2: "pool_step\<^sup>*\<^sup>* ?s1 ?s2" by (rule append_steps_reach) (simp add: len)
  have 3: "pool_step ?s2 ?s3" using call [of 1 ?s2 "Some 2"] len idle by simp
  have "append_steps 1 5 ?s3 = Some ?s4" by code_simp
  then have 4: "pool_step\<^sup>*\<^sup>* ?s3 ?s4" by (rule append_steps_reach) (simp add: len)
  have "run_step False 0 ?s4 = Some busy_pool" by code_simp
  then have 5: "pool_step ?s4 busy_pool" by (rule work [rotated]) (simp add: sample_pool_def threadpool_new_def)
  from 1 2 3 4 5 show ?thesis by (meson converse_rtranclp_into_rtranclp rtranclp.rtrancl_into_rtrancl rtranclp_trans)
qed

section \<open>Theorems\<close>

text \<open>C12: Safety of the pool, for any number of workers and callers and any interleaving: at most one
  thread is inside a critical section, the queue never exceeds its limit by more than one, a worker
  takes from the queue only when it is not empty, and requests are taken in the order in which they
  were accepted, each exactly once, none lost.\<close>

theorem threadpool_safe:
  assumes "threadpool_new create detach n thread_number max_requests = Inr s0" and "pool_step\<^sup>*\<^sup>* s0 s"
  shows "exclusive_lock (tp_queuelocker s) (tp_workers s) (tp_producers s) \<and>
    length (tp_workqueue s) \<le> max_requests + 1 \<and>
    (WTake \<in> set (tp_workers s) \<longrightarrow> tp_workqueue s \<noteq> []) \<and>
    tp_accepted s = tp_taken s @ tp_workqueue s"
proof -
  have "tp_max_requests s0 = max_requests" using assms(1) by (auto simp: threadpool_new_def split: if_splits)
  then show ?thesis
    using pool_reachable_inv [OF assms] by (simp add: pool_inv_def taking_ok_def)
qed

theorem threadpool_safe_witness:
  "exclusive_lock (tp_queuelocker sample_pool) (tp_workers sample_pool) (tp_producers sample_pool) \<and>
   length (tp_workqueue sample_pool) \<le> 2"
  using threadpool_safe [OF sample_pool_new rtranclp.rtrancl_refl] by simp

text \<open>C31: No wake-up is lost.  Whenever requests are queued, there are at least as many wake-ups under
  way: counts of the semaphore, callers about to post, and workers past their wait.  So when all
  callers have returned and all workers wait, the semaphore lets one of them go on.\<close>

theorem threadpool_no_lost_wakeup:
  assumes "threadpool_new create detach n thread_number max_requests = Inr s0" and "pool_step\<^sup>*\<^sup>* s0 s"
    and "tp_workqueue s \<noteq> []" and "list_all (\<lambda>pc. pc = PIdle) (tp_producers s)"
    and "i < length (tp_workers s)" and "list_all (\<lambda>pc. pc = WWait) (tp_workers s)"
  shows "length (tp_workqueue s) \<le> tp_queuestat s \<and> (\<exists>s'. run_step False i s = Some s')"
proof -
  have "sum_list (map posting (tp_producers s)) = 0" "sum_list (map coming (tp_workers s)) = 0"
    using assms(4,6) by (auto simp: list_all_iff posting_def coming_def)
  then have q: "length (tp_workqueue s) \<le> tp_queuestat s"
    using pool_reachable_inv [OF assms(1,2)] unfolding pool_inv_def wakeups_def by linarith
  then have "0 < tp_queuestat s" using assms(3) by (cases "tp_workqueue s") auto
  moreover have "tp_workers s ! i = WWait" using assms(5,6) by (auto simp: list_all_length)
  ultimately show ?thesis using q by (simp add: run_step_def sem_wait_def)
qed

theorem threadpool_no_lost_wakeup_witness: "\<exists>s'. run_step False 0 busy_pool = Some s'"
  using threadpool_no_lost_wakeup [OF sample_pool_new busy_pool_reachable, of 0]
  by (simp add: busy_pool_def sample_pool_def threadpool_new_def list_all_iff)

text \<open>The limit is off by one: \<^verbatim>\<open>append\<close> refuses a request only when the queue already holds
  more than \<^verbatim>\<open>max_requests\<close> entries, so a pool made for one pending request accepts two.\<close>

theorem threadpool_limit_exceeded:
  "threadpool_new (\<lambda>_. True) (\<lambda>_. True) 2 1 1 = Inr sample_pool \<and> pool_step\<^sup>*\<^sup>* sample_pool busy_pool \<and>
   tp_max_requests busy_pool = 1 \<and> length (tp_workqueue busy_pool) = 2"
proof -
  have "tp_max_requests busy_pool = 1" "length (tp_workqueue busy_pool) = 2"
    by (simp_all add: busy_pool_def sample_pool_def threadpool_new_def)
  then show ?thesis using sample_pool_new busy_pool_reachable by blast
qed

end
