(* ===== verification/Bench.thy ===== *)
theory Bench
  imports Vblk Libc
begin

text \<open>
  The bandwidth tests (\<^verbatim>\<open>src/vblk_writetest.cc\<close> and \<^verbatim>\<open>src/vblk_readtest.cc\<close>).
  For growing sets of channels they make one virtual block over all LUNs of the channels and write
  (read) it completely, in requests of one page group, then of twice that size, and so on.  Sizes are
  \<^verbatim>\<open>int\<close>: an overflow is undefined, \<^term>\<open>None\<close>.  Times and bandwidths are left out, a
  line of the output is the number of channels and the request size.
\<close>

section \<open>The calls of liblightnvm\<close>

text \<open>The tests call more of the library than the server does.\<close>

record ('a, 'd) bench_nvm = "('a, 'd) nvm" +
  nvm_vblk_set_pos_write :: "'d \<Rightarrow> nvm_vblk \<Rightarrow> u64 \<Rightarrow> 'd option"
  nvm_vblk_get_pos_write :: "'d \<Rightarrow> nvm_vblk \<Rightarrow> u64 option"
  nvm_vblk_set_pos_read :: "'d \<Rightarrow> nvm_vblk \<Rightarrow> u64 \<Rightarrow> 'd option"

text \<open>A test ends or its assertion fails.\<close>

datatype 'a verdict = Passed 'a | Assertion_failed

type_synonym bench_line = "nat \<times> int"

section \<open>The units of a test\<close>

definition bench_units :: "('a, 'd, 'z) nvm_scheme \<Rightarrow> nvm_geo \<Rightarrow> nat list \<Rightarrow> 'a list" where
  "bench_units lib geo channels =
     concat (map (\<lambda>channel. map (\<lambda>lun. set_addr lib (word_of_nat channel) (word_of_nat lun) 0)
       [0..<unat (nluns geo)]) channels)"

text \<open>The conversions of \<^verbatim>\<open>size_t\<close> to \<^verbatim>\<open>int\<close> and back.\<close>

definition int_of_size :: "u64 \<Rightarrow> int" where
  "int_of_size n = sint (ucast n :: 32 word)"

definition size_of_int :: "int \<Rightarrow> u64" where
  "size_of_int n = word_of_int n"

definition page_group :: "nvm_geo \<Rightarrow> int" where
  "page_group geo = int_of_size (nplanes geo * nsectors geo * sector_nbytes geo)"

definition double_size :: "int \<Rightarrow> int option" where
  "double_size n = (if int_ok (2 * n) then Some (2 * n) else None)"

text \<open>The loop condition; a remainder by 0 is undefined.\<close>

definition divides_evenly :: "int \<Rightarrow> int \<Rightarrow> bool option" where
  "divides_evenly start_size end_size =
     (if end_size < start_size then Some False
      else if start_size = 0 then None else Some (end_size mod start_size = 0))"

section \<open>Writing\<close>

text \<open>The inner loop; a failed write is reported and the loop goes on.\<close>

fun write_requests :: "('a, 'd, 'z) nvm_scheme \<Rightarrow> nvm_vblk \<Rightarrow> byte list \<Rightarrow> nat \<Rightarrow> 'd \<Rightarrow> 'd option" where
  "write_requests lib blk data 0 d = Some d"
| "write_requests lib blk data (Suc n) d = do {
     (res, d) \<leftarrow> nvm_vblk_write lib d blk data;
     write_requests lib blk data n d }"

definition write_round ::
  "('a, 'd, 'z) bench_nvm_scheme \<Rightarrow> nvm_vblk \<Rightarrow> byte list \<Rightarrow> int \<Rightarrow> int \<Rightarrow> 'd \<Rightarrow> 'd option" where
  "write_round lib blk buffer end_size start_size d = do {
     (_, d) \<leftarrow> nvm_vblk_erase lib d blk;
     d \<leftarrow> nvm_vblk_set_pos_write lib d blk 0;
     if 0 < end_size div start_size
     then do {
       data \<leftarrow> peek buffer 0 (nat start_size);
       write_requests lib blk data (nat (end_size div start_size)) d }
     else Some d }"

lemma sweep_measure:
  assumes "divides_evenly start_size end_size = Some True" "double_size start_size = Some next_size"
  shows "(if 0 < next_size then nat (end_size + 1 - next_size) else nat (next_size + 2147483649)) <
    (if 0 < start_size then nat (end_size + 1 - start_size) else nat (start_size + 2147483649))"
  using assms
  by (auto simp: divides_evenly_def double_size_def int_ok_def INT_MAX_def split: if_splits)

function write_sweep ::
  "('a, 'd, 'z) bench_nvm_scheme \<Rightarrow> nvm_vblk \<Rightarrow> byte list \<Rightarrow> nat \<Rightarrow> int \<Rightarrow> int \<Rightarrow> 'd \<Rightarrow> bench_line list \<Rightarrow>
     ('d \<times> bench_line list) verdict option" where
  "write_sweep lib blk buffer nch end_size start_size d out =
     (case divides_evenly start_size end_size of
        None \<Rightarrow> None
      | Some False \<Rightarrow> Some (Passed (d, out))
      | Some True \<Rightarrow>
          (case write_round lib blk buffer end_size start_size d of
             None \<Rightarrow> None
           | Some d' \<Rightarrow>
               (case double_size start_size of
                  None \<Rightarrow> None
                | Some next_size \<Rightarrow>
                    (case nvm_vblk_get_pos_write lib d' blk of
                       None \<Rightarrow> None
                     | Some p \<Rightarrow>
                         if p = size_of_int end_size
                         then write_sweep lib blk buffer nch end_size next_size d' (out @ [(nch, start_size)])
                         else Some Assertion_failed))))"
  by pat_completeness auto

termination
  by (relation "measure (\<lambda>(lib, blk, buffer, nch, end_size, start_size, d, out).
      if 0 < start_size then nat (end_size + 1 - start_size) else nat (start_size + 2147483649))")
    (auto dest: sweep_measure)

declare write_sweep.simps [simp del]

definition test_vblk_write ::
  "('a, 'd, 'z) bench_nvm_scheme \<Rightarrow> nvm_geo \<Rightarrow> string \<Rightarrow> nat list \<Rightarrow> 'd \<Rightarrow> ('d \<times> bench_line list) verdict option" where
  "test_vblk_write lib geo dev channels d =
     (let (blk, d) = nvm_vblk_alloc lib d dev (bench_units lib geo channels) in do {
        nbytes \<leftarrow> nvm_vblk_get_nbytes lib d blk;
        let end_size = int_of_size nbytes;
        let start_size = page_group geo;
        (_, d) \<leftarrow> nvm_vblk_erase lib d blk;
        let buffer = nvm_buf_alloc lib (size_of_int end_size);
        if buffer = []
        then do { d \<leftarrow> nvm_vblk_free lib d blk; Some (Passed (d, [])) }
        else do {
          buffer \<leftarrow> poke buffer 0 (replicate (unat (size_of_int end_size)) 0);
          r \<leftarrow> write_sweep lib blk buffer (length channels) end_size start_size d [];
          (case r of
             Assertion_failed \<Rightarrow> Some Assertion_failed
           | Passed (d, out) \<Rightarrow> do { d \<leftarrow> nvm_vblk_free lib d blk; Some (Passed (d, out)) }) } })"

section \<open>Reading\<close>

fun read_requests :: "('a, 'd, 'z) nvm_scheme \<Rightarrow> nvm_vblk \<Rightarrow> u64 \<Rightarrow> nat \<Rightarrow> byte list \<Rightarrow> 'd \<Rightarrow> (byte list \<times> 'd) option" where
  "read_requests lib blk start_size 0 buffer d = Some (buffer, d)"
| "read_requests lib blk start_size (Suc n) buffer d = do {
     (res, data, d) \<leftarrow> nvm_vblk_read lib d blk start_size;
     buffer \<leftarrow> poke buffer 0 data;
     read_requests lib blk start_size n buffer d }"

function read_sweep ::
  "('a, 'd, 'z) bench_nvm_scheme \<Rightarrow> nvm_vblk \<Rightarrow> byte list \<Rightarrow> nat \<Rightarrow> int \<Rightarrow> int \<Rightarrow> 'd \<Rightarrow> bench_line list \<Rightarrow>
     ('d \<times> bench_line list) option" where
  "read_sweep lib blk buffer nch end_size start_size d out =
     (case divides_evenly start_size end_size of
        None \<Rightarrow> None
      | Some False \<Rightarrow> Some (d, out)
      | Some True \<Rightarrow>
          (case do {
                  d \<leftarrow> nvm_vblk_set_pos_read lib d blk 0;
                  read_requests lib blk (size_of_int start_size) (nat (end_size div start_size)) buffer d } of
             None \<Rightarrow> None
           | Some (buffer', d') \<Rightarrow>
               (case double_size start_size of
                  None \<Rightarrow> None
                | Some next_size \<Rightarrow>
                    read_sweep lib blk buffer' nch end_size next_size d' (out @ [(nch, start_size)]))))"
  by pat_completeness auto

termination
  by (relation "measure (\<lambda>(lib, blk, buffer, nch, end_size, start_size, d, out).
      if 0 < start_size then nat (end_size + 1 - start_size) else nat (start_size + 2147483649))")
    (auto dest: sweep_measure)

declare read_sweep.simps [simp del]

definition test_vblk_read ::
  "('a, 'd, 'z) bench_nvm_scheme \<Rightarrow> nvm_geo \<Rightarrow> string \<Rightarrow> nat list \<Rightarrow> 'd \<Rightarrow> ('d \<times> bench_line list) option" where
  "test_vblk_read lib geo dev channels d =
     (let (blk, d) = nvm_vblk_alloc lib d dev (bench_units lib geo channels) in do {
        nbytes \<leftarrow> nvm_vblk_get_nbytes lib d blk;
        let end_size = int_of_size nbytes;
        let start_size = page_group geo;
        let buffer = nvm_buf_alloc lib (size_of_int end_size);
        if buffer = []
        then do { d \<leftarrow> nvm_vblk_free lib d blk; Some (d, []) }
        else do {
          buffer \<leftarrow> poke buffer 0 (replicate (unat (size_of_int end_size)) 0);
          (d, out) \<leftarrow> read_sweep lib blk buffer (length channels) end_size start_size d [];
          d \<leftarrow> nvm_vblk_free lib d blk;
          Some (d, out) } })"

section \<open>The programs\<close>

text \<open>The channels that are tested: all, or on one device only those with a working connection.\<close>

definition broken_channel :: "string \<Rightarrow> nat \<Rightarrow> bool" where
  "broken_channel dev channel \<longleftrightarrow> dev = ''/dev/nvme0n1'' \<and> channel div 2 mod 2 = 1"

text \<open>The loop over the channels; each test adds one channel to those of the test before.\<close>

fun bench_loop ::
  "(nat list \<Rightarrow> 'd \<Rightarrow> ('d \<times> bench_line list) verdict option) \<Rightarrow> string \<Rightarrow> nat list \<Rightarrow> nat list \<Rightarrow> 'd \<Rightarrow> bench_line list \<Rightarrow>
     ('d \<times> bench_line list) verdict option" where
  "bench_loop test dev [] channels d out = Some (Passed (d, out))"
| "bench_loop test dev (channel # todo) channels d out =
     (if broken_channel dev channel then bench_loop test dev todo channels d out
      else (case test (channels @ [channel]) d of
              None \<Rightarrow> None
            | Some Assertion_failed \<Rightarrow> Some Assertion_failed
            | Some (Passed (d, lines)) \<Rightarrow> bench_loop test dev todo (channels @ [channel]) d (out @ lines)))"

text \<open>The exit code with the lines written; \<open>output\<close> tells whether \<^verbatim>\<open>fopen\<close> succeeds (its result
  is not checked).\<close>

definition bench_main ::
  "(nvm_geo \<Rightarrow> string \<Rightarrow> nat list \<Rightarrow> 'd \<Rightarrow> ('d \<times> bench_line list) verdict option) \<Rightarrow> (string \<Rightarrow> nvm_geo option) \<Rightarrow>
     bool \<Rightarrow> string list \<Rightarrow> 'd \<Rightarrow> (int \<times> 'd \<times> bench_line list) verdict option" where
  "bench_main test dev_open output argv d =
     (if length argv < 3 then Some (Passed (1, d, []))
      else (case dev_open (argv ! 1) of
              None \<Rightarrow> Some (Passed (1, d, []))
            | Some geo \<Rightarrow>
                if \<not> output then None
                else (case bench_loop (test geo (argv ! 1)) (argv ! 1) [0..<unat (nchannels geo)] [] d [] of
                        None \<Rightarrow> None
                      | Some Assertion_failed \<Rightarrow> Some Assertion_failed
                      | Some (Passed (d, out)) \<Rightarrow> Some (Passed (0, d, out)))))"

definition writetest_main ::
  "('a, 'd, 'z) bench_nvm_scheme \<Rightarrow> (string \<Rightarrow> nvm_geo option) \<Rightarrow> bool \<Rightarrow> string list \<Rightarrow> 'd \<Rightarrow>
     (int \<times> 'd \<times> bench_line list) verdict option" where
  "writetest_main lib = bench_main (\<lambda>geo dev channels d. test_vblk_write lib geo dev channels d)"

definition readtest_main ::
  "('a, 'd, 'z) bench_nvm_scheme \<Rightarrow> (string \<Rightarrow> nvm_geo option) \<Rightarrow> bool \<Rightarrow> string list \<Rightarrow> 'd \<Rightarrow>
     (int \<times> 'd \<times> bench_line list) verdict option" where
  "readtest_main lib = bench_main (\<lambda>geo dev channels d. map_option Passed (test_vblk_read lib geo dev channels d))"

section \<open>The sizes of a sweep\<close>

text \<open>What liblightnvm documents of writing a virtual block of \<open>cap\<close> bytes: erasing and positioning
  succeed, and a write inside the block moves the position by its length.\<close>

definition sequential :: "('a, 'd, 'z) bench_nvm_scheme \<Rightarrow> nvm_vblk \<Rightarrow> nat \<Rightarrow> bool" where
  "sequential lib blk cap \<longleftrightarrow>
     (\<forall>d. nvm_vblk_erase lib d blk \<noteq> None) \<and>
     (\<forall>d. \<exists>d'. nvm_vblk_set_pos_write lib d blk 0 = Some d' \<and> nvm_vblk_get_pos_write lib d' blk = Some 0) \<and>
     (\<forall>d p xs. nvm_vblk_get_pos_write lib d blk = Some p \<and> unat p + length xs \<le> cap \<longrightarrow>
        (\<exists>r d'. nvm_vblk_write lib d blk xs = Some (r, d') \<and>
          nvm_vblk_get_pos_write lib d' blk = Some (p + word_of_nat (length xs))))"

lemma write_requests_pos:
  assumes "sequential lib blk cap" "cap < 2 ^ 64"
  shows "nvm_vblk_get_pos_write lib d blk = Some (word_of_nat p) \<Longrightarrow> p + n * length xs \<le> cap \<Longrightarrow>
    \<exists>d'. write_requests lib blk xs n d = Some d' \<and>
      nvm_vblk_get_pos_write lib d' blk = Some (word_of_nat (p + n * length xs))"
proof (induction n arbitrary: p d)
  case (Suc n)
  have "unat (word_of_nat p :: u64) = p" using Suc.prems(2) assms(2) by (intro unat_of_nat_less) simp
  then obtain r d1 where w: "nvm_vblk_write lib d blk xs = Some (r, d1)"
    "nvm_vblk_get_pos_write lib d1 blk = Some (word_of_nat p + word_of_nat (length xs))"
    using assms(1) Suc.prems unfolding sequential_def
    by (metis (no_types, lifting) add_leD1 add.assoc mult_Suc)
  then show ?case using Suc.IH [of d1 "p + length xs"] Suc.prems(2) by (simp add: algebra_simps)
qed simp

lemma write_round_pos:
  assumes "sequential lib blk (nat end_size)" "0 < start_size" "start_size dvd end_size" "start_size \<le> end_size"
    "int_ok end_size" "length buffer = nat end_size"
  obtains d' where "write_round lib blk buffer end_size start_size d = Some d'"
    "nvm_vblk_get_pos_write lib d' blk = Some (size_of_int end_size)"
proof -
  have "nvm_vblk_erase lib d blk \<noteq> None" using assms(1) by (simp add: sequential_def)
  then obtain r d1 where d1: "nvm_vblk_erase lib d blk = Some (r, d1)" by auto
  have "\<exists>d2. nvm_vblk_set_pos_write lib d1 blk 0 = Some d2 \<and> nvm_vblk_get_pos_write lib d2 blk = Some 0"
    using assms(1) by (simp add: sequential_def)
  then obtain d2 where d2: "nvm_vblk_set_pos_write lib d1 blk 0 = Some d2"
    "nvm_vblk_get_pos_write lib d2 blk = Some (word_of_nat 0)" by auto
  let ?xs = "take (nat start_size) buffer"
  have n: "nat (end_size div start_size) * nat start_size = nat end_size"
    using assms(2-4) by (simp flip: nat_mult_distrib add: pos_imp_zdiv_nonneg_iff)
  have pos: "0 < end_size div start_size" using assms(2,4) by (simp add: pos_imp_zdiv_pos_iff)
  have l: "length ?xs = nat start_size" using assms(4,6) by simp
  have "nat end_size < 2 ^ 64" using assms(5) by (auto simp: int_ok_def INT_MAX_def nat_less_iff)
  from write_requests_pos [OF assms(1) this d2(2), of "nat (end_size div start_size)" ?xs]
  obtain d' where "write_requests lib blk ?xs (nat (end_size div start_size)) d2 = Some d'"
    "nvm_vblk_get_pos_write lib d' blk = Some (word_of_nat (nat end_size))"
    unfolding l n by auto
  then show thesis
    using that [of d'] d1 d2(1) pos assms(2,4,6)
    by (simp add: write_round_def peek_def size_of_int_def)
qed

lemma sweep_step:
  assumes "sequential lib blk (nat end_size)" "0 < start_size" "start_size dvd end_size" "start_size \<le> end_size"
    "int_ok end_size" "length buffer = nat end_size"
  shows "\<exists>d'. write_sweep lib blk buffer nch end_size start_size d out =
    (if int_ok (2 * start_size)
     then write_sweep lib blk buffer nch end_size (2 * start_size) d' (out @ [(nch, start_size)]) else None)"
proof -
  obtain d' where "write_round lib blk buffer end_size start_size d = Some d'"
    "nvm_vblk_get_pos_write lib d' blk = Some (size_of_int end_size)"
    by (rule write_round_pos [OF assms])
  moreover have "divides_evenly start_size end_size = Some True"
    using assms(2-4) by (simp add: divides_evenly_def dvd_eq_mod_eq_0)
  ultimately show ?thesis
    by (subst write_sweep.simps) (auto simp: double_size_def)
qed

lemma int_ok_double: "0 < n \<Longrightarrow> int_ok (2 * n) \<longleftrightarrow> 2 * n \<le> INT_MAX"
  by (auto simp: int_ok_def INT_MAX_def)

text \<open>The sweep doubles the request size as long as it divides the block.\<close>

lemma write_sweep_sizes:
  assumes "sequential lib blk (nat end_size)" "int_ok end_size" "length buffer = nat end_size" "odd m" "0 < m"
  shows "0 < start_size \<Longrightarrow> end_size = start_size * 2 ^ k * m \<Longrightarrow>
    \<exists>d'. write_sweep lib blk buffer nch end_size start_size d out =
      (if start_size * 2 ^ Suc k \<le> INT_MAX
       then Some (Passed (d', out @ map (\<lambda>j. (nch, start_size * 2 ^ j)) [0..<Suc k])) else None)"
proof (induction k arbitrary: start_size d out)
  case 0
  then have "start_size dvd end_size" "start_size \<le> end_size" using assms(5) by simp_all
  from sweep_step [OF assms(1) 0(1) this assms(2,3), of nch d out]
  obtain d' where s: "write_sweep lib blk buffer nch end_size start_size d out = (if int_ok (2 * start_size)
     then write_sweep lib blk buffer nch end_size (2 * start_size) d' (out @ [(nch, start_size)]) else None)" by blast
  have "\<not> 2 * start_size dvd end_size"
    using assms(4) 0 by (simp add: mult.commute [of 2])
  then have "divides_evenly (2 * start_size) end_size = Some False"
    using 0(1) by (simp add: divides_evenly_def dvd_eq_mod_eq_0)
  then have "write_sweep lib blk buffer nch end_size (2 * start_size) d' (out @ [(nch, start_size)]) =
      Some (Passed (d', out @ [(nch, start_size)]))" by (subst write_sweep.simps) simp
  then show ?case using s int_ok_double [OF 0(1)] by (auto simp: mult.commute)
next
  case (Suc k)
  have e: "end_size = (2 * start_size) * 2 ^ k * m" using Suc.prems(2) by simp
  have "0 < 2 ^ k * m" using assms(5) by simp
  then have "2 * start_size * 1 \<le> 2 * start_size * (2 ^ k * m)" using Suc.prems(1) by (intro mult_left_mono) auto
  then have "2 * start_size \<le> end_size" "start_size dvd end_size" unfolding e by (simp_all add: mult.assoc)
  then have le: "start_size \<le> end_size" "int_ok (2 * start_size)"
    using Suc.prems(1) assms(2) by (auto simp: int_ok_def INT_MAX_def)
  from sweep_step [OF assms(1) Suc.prems(1) \<open>start_size dvd end_size\<close> le(1) assms(2,3), of nch d out] le(2)
  obtain d1 where s: "write_sweep lib blk buffer nch end_size start_size d out =
      write_sweep lib blk buffer nch end_size (2 * start_size) d1 (out @ [(nch, start_size)])" by auto
  have m: "[0..<Suc (Suc k)] = 0 # map Suc [0..<Suc k]" by (simp add: upt_conv_Cons map_Suc_upt)
  show ?case
    using Suc.IH [OF _ e, of d1 "out @ [(nch, start_size)]"] Suc.prems(1) unfolding s m
    by (auto simp: mult.assoc comp_def simp del: upt_Suc)
qed

lemma int_of_size_small:
  assumes "int (unat n) \<le> INT_MAX"
  shows "int_of_size n = int (unat n)" "size_of_int (int (unat n)) = n" "int_ok (int (unat n))"
proof -
  have n: "uint n < 2 ^ 31" "0 \<le> uint n" using assms by (simp_all add: INT_MAX_def)
  then have "take_bit 32 (uint n) = uint n" by (intro take_bit_int_eq_self) simp_all
  then have u: "uint (ucast n :: 32 word) = uint n" by (simp add: unsigned_ucast_eq)
  have "signed_take_bit 31 (uint n) = uint n" using n by (intro signed_take_bit_int_eq_self) linarith+
  then show "int_of_size n = int (unat n)" using u by (simp add: int_of_size_def sint_uint)
  show "size_of_int (int (unat n)) = n" by (simp add: size_of_int_def)
  show "int_ok (int (unat n))" using assms by (simp add: int_ok_def INT_MAX_def del: of_nat_unat)
qed

text \<open>The sets of channels that are tested: the working channels, each time one more.\<close>

lemma bench_loop_prefixes:
  assumes "ws = filter (\<lambda>c. \<not> broken_channel dev c) todo"
  shows "bench_loop (\<lambda>chs d. Some (Passed (d @ [chs], []))) dev todo channels d out =
    Some (Passed (d @ map (\<lambda>k. channels @ take (Suc k) ws) [0..<length ws], out))"
  using assms
proof (induction todo arbitrary: channels d ws)
  case (Cons c todo)
  let ?ws = "filter (\<lambda>c. \<not> broken_channel dev c) todo"
  show ?case
  proof (cases "broken_channel dev c")
    case True
    then show ?thesis using Cons by simp
  next
    case False
    then have ws: "ws = c # ?ws" using Cons.prems by simp
    have "[0..<length ws] = 0 # map Suc [0..<length ?ws]" by (simp add: ws upt_conv_Cons map_Suc_upt del: upt_Suc)
    then show ?thesis using False Cons.IH [OF refl, of "channels @ [c]" "d @ [channels @ [c]]"] ws by (simp add: comp_def)
  qed
qed simp

text \<open>A library whose blocks have 512 KiB and keep their write position.\<close>

definition position_nvm :: "(u32 \<times> u32 \<times> u32, nat \<Rightarrow> u64) bench_nvm" where
  "position_nvm = \<lparr>set_addr = (\<lambda>c l b. (c, l, b)), nvm_buf_alloc = (\<lambda>n. replicate (unat n) 0),
     nvm_vblk_alloc = (\<lambda>d dev as. (1, d)), nvm_vblk_free = (\<lambda>d b. Some d),
     nvm_vblk_get_nbytes = (\<lambda>d b. Some 524288), nvm_vblk_erase = (\<lambda>d b. Some (0, d(b := 0))),
     nvm_vblk_write = (\<lambda>d b xs. Some (int (length xs), d(b := d b + word_of_nat (length xs)))),
     nvm_vblk_read = (\<lambda>d b n. Some (0, [], d)), nvm_vblk_pread = (\<lambda>d b n off. Some (0, [], d)),
     nvm_vblk_set_pos_write = (\<lambda>d b p. Some (d(b := p))), nvm_vblk_get_pos_write = (\<lambda>d b. Some (d b)),
     nvm_vblk_set_pos_read = (\<lambda>d b p. Some d)\<rparr>"

lemma position_nvm_sequential: "sequential position_nvm b cap"
  by (simp add: sequential_def position_nvm_def)

section \<open>Theorems\<close>



end
