(* ===== verification/Blocktools.thy ===== *)
theory Blocktools
  imports Vblk Libc
begin

text \<open>
  The small tools: \<^verbatim>\<open>src/vblk_write.cc\<close> and \<^verbatim>\<open>src/vblk_read.cc\<close> write and read a
  pattern in the first block of a LUN, \<^verbatim>\<open>src/write.c\<close>, \<^verbatim>\<open>src/erase.c\<close> and
  \<^verbatim>\<open>src/addr.c\<close> work on single addresses, \<^verbatim>\<open>src/hello.c\<close> prints a device.
  liblightnvm is a parameter.  The result of a program is its exit code with the device state and what
  it prints, \<^term>\<open>None\<close> for undefined behaviour.  Times are left out.
\<close>

section \<open>The calls of liblightnvm\<close>

text \<open>The fields of an address, in the order \<^verbatim>\<open>ch, lun, pl, sec, pg, blk\<close>; \<open>addr_fields a f\<close>
  assigns them in \<open>a\<close> and keeps its other bits.\<close>

type_synonym addr_parts = "nat \<times> nat \<times> nat \<times> nat \<times> nat \<times> nat"

record ('a, 'd) tool_nvm = "('a, 'd) nvm" +
  nvm_vblk_pwrite :: "'d \<Rightarrow> nvm_vblk \<Rightarrow> byte list \<Rightarrow> u64 \<Rightarrow> (int \<times> 'd) option"
  addr_fields :: "'a \<Rightarrow> addr_parts \<Rightarrow> 'a"
  nvm_addr_erase :: "'d \<Rightarrow> 'a list \<Rightarrow> nat \<Rightarrow> int \<times> 'd"
  nvm_addr_write :: "'d \<Rightarrow> 'a list \<Rightarrow> byte list \<Rightarrow> byte list \<Rightarrow> nat \<Rightarrow> int \<times> 'd"
  nvm_dev_get_pmode :: "string \<Rightarrow> nat"
  nvm_addr_gen2dev :: "string \<Rightarrow> 'a \<Rightarrow> u64"
  addr_ppa :: "'a \<Rightarrow> u64"

section \<open>The pattern\<close>

text \<open>\<^verbatim>\<open>buf[i] = i % 26 + 65 + d\<close>, computed as \<^verbatim>\<open>int\<close>, stored as \<^verbatim>\<open>char\<close>.\<close>

definition pattern :: "int \<Rightarrow> nat \<Rightarrow> byte list option" where
  "pattern d n =
     (let values = map (\<lambda>i. int i mod 26 + 65 + d) [0..<n]
      in if list_all int_ok values then Some (map word_of_int values) else None)"

section \<open>Blocks of one LUN\<close>

fun alloc_blocks ::
  "('a, 'd, 'z) nvm_scheme \<Rightarrow> string \<Rightarrow> u32 \<Rightarrow> u32 \<Rightarrow> nat list \<Rightarrow> nvm_vblk list \<Rightarrow> 'd \<Rightarrow> nvm_vblk list \<times> 'd" where
  "alloc_blocks lib dev ch lun [] blks d = (blks, d)"
| "alloc_blocks lib dev ch lun (blk_idx # todo) blks d =
     (let (blk, d) = nvm_vblk_alloc lib d dev [set_addr lib ch lun (word_of_nat blk_idx)]
      in alloc_blocks lib dev ch lun todo (blks @ [blk]) d)"

fun free_blocks :: "('a, 'd, 'z) nvm_scheme \<Rightarrow> nvm_vblk list \<Rightarrow> 'd \<Rightarrow> 'd option" where
  "free_blocks lib [] d = Some d"
| "free_blocks lib (blk # blks) d = do { d \<leftarrow> nvm_vblk_free lib d blk; free_blocks lib blks d }"

text \<open>The LUN a channel argument selects; a division by 0 is undefined.\<close>

definition select_lun :: "nvm_geo \<Rightarrow> u64 \<Rightarrow> (u32 \<times> u32) option" where
  "select_lun geo channel =
     (if nchannels geo = 0 \<or> nluns geo = 0 then None
      else Some (ucast (channel mod nchannels geo), ucast (channel div nchannels geo mod nluns geo)))"

definition transfer_size :: nat where "transfer_size = 4096 * 16"

text \<open>\<^verbatim>\<open>test_vblk\<close> of \<^verbatim>\<open>vblk_write.cc\<close>; the result of the two writes is printed.\<close>

definition vblk_write_test ::
  "('a, 'd, 'z) tool_nvm_scheme \<Rightarrow> nvm_geo \<Rightarrow> string \<Rightarrow> u64 \<Rightarrow> int \<Rightarrow> 'd \<Rightarrow> (int list \<times> 'd) option" where
  "vblk_write_test lib geo dev channel offset d = do {
     (ch, lun) \<leftarrow> select_lun geo channel;
     let (blks, d) = alloc_blocks lib dev ch lun [0..<unat (nblocks geo)] [] d;
     if blks = [] then None
     else do {
       (_, d) \<leftarrow> nvm_vblk_erase lib d (hd blks);
       let buffer = nvm_buf_alloc lib (word_of_nat transfer_size);
       (res, d) \<leftarrow>
         (if buffer = [] then Some ([], d)
          else do {
            xs \<leftarrow> pattern offset transfer_size;
            buffer \<leftarrow> poke buffer 0 xs;
            (res, d) \<leftarrow> nvm_vblk_write lib d (hd blks) (take transfer_size buffer);
            (res', d) \<leftarrow> nvm_vblk_pwrite lib d (hd blks) (take transfer_size buffer) (word_of_nat transfer_size);
            Some ([res, res'], d) });
       d \<leftarrow> free_blocks lib blks d;
       Some (res, d) } }"

fun vblk_write_loop ::
  "('a, 'd, 'z) tool_nvm_scheme \<Rightarrow> nvm_geo \<Rightarrow> string \<Rightarrow> nat list \<Rightarrow> int list \<Rightarrow> 'd \<Rightarrow> (int list \<times> 'd) option" where
  "vblk_write_loop lib geo dev [] out d = Some (out, d)"
| "vblk_write_loop lib geo dev (channel # todo) out d = do {
     (res, d) \<leftarrow> vblk_write_test lib geo dev (word_of_nat channel) 0 d;
     vblk_write_loop lib geo dev todo (out @ res) d }"

definition vblk_write_main ::
  "('a, 'd, 'z) tool_nvm_scheme \<Rightarrow> (string \<Rightarrow> nvm_geo option) \<Rightarrow> string list \<Rightarrow> 'd \<Rightarrow> (int \<times> int list \<times> 'd) option" where
  "vblk_write_main lib dev_open argv d =
     (if length argv < 2 then Some (1, [], d)
      else (case dev_open (argv ! 1) of
              None \<Rightarrow> Some (1, [], d)
            | Some geo \<Rightarrow> do {
                (out, d) \<leftarrow> vblk_write_loop lib geo (argv ! 1) [0..<unat (nchannels geo)] [] d;
                Some (0, out, d) }))"

text \<open>\<^verbatim>\<open>vblk_read.cc\<close>; \<open>nvme0\<close> is the device it opens before it looks at its arguments.  The
  result has the returned values of the two reads and the final content of the buffer.\<close>

definition nvme0 :: string where "nvme0 = ''/dev/nvme0n1''"

definition vblk_read_main ::
  "('a, 'd, 'z) tool_nvm_scheme \<Rightarrow> (string \<Rightarrow> nvm_geo option) \<Rightarrow> string list \<Rightarrow> 'd \<Rightarrow>
     (int \<times> int list \<times> byte list \<times> 'd) option" where
  "vblk_read_main lib dev_open argv d =
     (if length argv < 3 then Some (1, [], [], d)
      else do {
        channel \<leftarrow> atoi (argv ! 1);
        offset \<leftarrow> atoi (argv ! 2);
        (case dev_open nvme0 of
           None \<Rightarrow> Some (1, [], [], d)
         | Some geo \<Rightarrow> do {
             (ch, lun) \<leftarrow> select_lun geo (word_of_int channel);
             let (blks, d) = alloc_blocks lib nvme0 ch lun [0..<unat (nblocks geo)] [] d;
             if blks = [] then None
             else do {
               let buffer = nvm_buf_alloc lib (word_of_nat transfer_size);
               (res, buffer, d) \<leftarrow>
                 (if buffer = [] then Some ([], [], d)
                  else do {
                    xs \<leftarrow> pattern offset transfer_size;
                    buffer \<leftarrow> poke buffer 0 xs;
                    (res, data, d) \<leftarrow> nvm_vblk_pread lib d (hd blks) (word_of_nat transfer_size) 0;
                    buffer \<leftarrow> poke buffer 0 data;
                    (res', data, d) \<leftarrow> nvm_vblk_pread lib d (hd blks) (word_of_nat transfer_size) (word_of_nat transfer_size);
                    buffer \<leftarrow> poke buffer 0 data;
                    Some ([res, res'], buffer, d) });
               d \<leftarrow> free_blocks lib blks d;
               Some (0, res, buffer, d) } }) })"

section \<open>Single addresses\<close>

text \<open>\<open>junk\<close> is the content of the uninitialised addresses.\<close>

definition write_addrs :: "('a, 'd, 'z) tool_nvm_scheme \<Rightarrow> 'a \<Rightarrow> 'a list" where
  "write_addrs lib junk = map (\<lambda>i. addr_fields lib junk (0, 0, i div 4, i mod 4, 0, 10)) [0..<8]"

definition write_main ::
  "('a, 'd, 'z) tool_nvm_scheme \<Rightarrow> (string \<Rightarrow> nvm_geo option) \<Rightarrow> 'a \<Rightarrow> string list \<Rightarrow> 'd \<Rightarrow> (int \<times> int list \<times> 'd) option" where
  "write_main lib dev_open junk argv d =
     (if length argv < 3 then Some (1, [], d)
      else do {
        erase \<leftarrow> atoi (argv ! 1);
        offset \<leftarrow> atoi (argv ! 2);
        (case dev_open nvme0 of
           None \<Rightarrow> Some (1, [], d)
         | Some geo \<Rightarrow>
             let addrs = write_addrs lib junk; buffer = nvm_buf_alloc lib (4096 * 8) in
             if buffer = [] then Some (0, [], d)
             else do {
               xs \<leftarrow> pattern offset (4096 * 8);
               buffer \<leftarrow> poke buffer 0 xs;
               let meta = nvm_buf_alloc lib (meta_nbytes geo * 8);
               if meta = [] then Some (0, [], d)
               else do {
                 let (out, d) = (if erase \<noteq> 0
                   then (let (res, d) = nvm_addr_erase lib d (take 1 addrs) (nvm_dev_get_pmode lib nvme0) in ([res], d))
                   else ([], d));
                 let (res, d) = nvm_addr_write lib d addrs buffer meta 0;
                 Some (0, out @ [res], d) } }) })"

definition erase_main ::
  "('a, 'd, 'z) tool_nvm_scheme \<Rightarrow> (string \<Rightarrow> nvm_geo option) \<Rightarrow> 'a \<Rightarrow> 'd \<Rightarrow> int \<times> int list \<times> 'd" where
  "erase_main lib dev_open junk d =
     (case dev_open nvme0 of
        None \<Rightarrow> (1, [], d)
      | Some geo \<Rightarrow>
          let addr1 = addr_fields lib junk (0, 0, 0, 0, 0, 10);
              addr2 = addr_fields lib junk (0, 0, 1, 0, 0, 10);
              (res, d) = nvm_addr_erase lib d [addr1, addr2] 0
          in (0, [res], d))"

definition addr_main ::
  "('a, 'd, 'z) tool_nvm_scheme \<Rightarrow> (string \<Rightarrow> nvm_geo option) \<Rightarrow> 'a \<Rightarrow> int \<times> u64 list" where
  "addr_main lib dev_open junk =
     (case dev_open nvme0 of
        None \<Rightarrow> (1, [])
      | Some geo \<Rightarrow>
          let addr = addr_fields lib junk (4, 1, 0, 3, 10, 200)
          in (0, [addr_ppa lib addr, nvm_addr_gen2dev lib nvme0 addr]))"

definition hello_main :: "(string \<Rightarrow> nvm_geo option) \<Rightarrow> string list \<Rightarrow> int \<times> nvm_geo option" where
  "hello_main dev_open argv =
     (if length argv < 2 then (1, None)
      else (case dev_open (argv ! 1) of None \<Rightarrow> (1, None) | Some geo \<Rightarrow> (0, Some geo)))"

section \<open>Blocks that keep their content between runs\<close>

text \<open>What liblightnvm documents of virtual blocks, through two views of the device state: \<open>handles d b\<close> is
  the address list and the write position of an open block, \<open>media d as\<close> the bytes stored at the addresses
  \<open>as\<close>.  Blocks hold up to \<open>cap\<close> bytes; a write needs an erased block, written from its start without
  gaps; content belongs to the addresses and outlives the handle.\<close>

definition alloc_law ::
  "('a, 'd, 'z) tool_nvm_scheme \<Rightarrow> ('d \<Rightarrow> nvm_vblk \<Rightarrow> ('a list \<times> nat) option) \<Rightarrow> ('d \<Rightarrow> 'a list \<Rightarrow> byte list) \<Rightarrow> bool" where
  "alloc_law lib handles media \<longleftrightarrow>
     (\<forall>d dev as b d'. nvm_vblk_alloc lib d dev as = (b, d') \<longrightarrow>
        handles d b = None \<and> handles d' = (handles d)(b \<mapsto> (as, 0)) \<and> media d' = media d)"

definition free_law ::
  "('a, 'd, 'z) tool_nvm_scheme \<Rightarrow> ('d \<Rightarrow> nvm_vblk \<Rightarrow> ('a list \<times> nat) option) \<Rightarrow> ('d \<Rightarrow> 'a list \<Rightarrow> byte list) \<Rightarrow> bool" where
  "free_law lib handles media \<longleftrightarrow>
     (\<forall>d b. handles d b \<noteq> None \<longrightarrow>
        (\<exists>d'. nvm_vblk_free lib d b = Some d' \<and> handles d' = (handles d)(b := None) \<and> media d' = media d))"

definition erase_law ::
  "('a, 'd, 'z) tool_nvm_scheme \<Rightarrow> ('d \<Rightarrow> nvm_vblk \<Rightarrow> ('a list \<times> nat) option) \<Rightarrow> ('d \<Rightarrow> 'a list \<Rightarrow> byte list) \<Rightarrow> bool" where
  "erase_law lib handles media \<longleftrightarrow>
     (\<forall>d b as p. handles d b = Some (as, p) \<longrightarrow>
        (\<exists>r d'. nvm_vblk_erase lib d b = Some (r, d') \<and> handles d' = (handles d)(b \<mapsto> (as, 0)) \<and>
           media d' = (media d)(as := [])))"

definition write_law ::
  "('a, 'd, 'z) tool_nvm_scheme \<Rightarrow> ('d \<Rightarrow> nvm_vblk \<Rightarrow> ('a list \<times> nat) option) \<Rightarrow> ('d \<Rightarrow> 'a list \<Rightarrow> byte list) \<Rightarrow> nat \<Rightarrow> bool" where
  "write_law lib handles media cap \<longleftrightarrow>
     (\<forall>d b as p xs. handles d b = Some (as, p) \<longrightarrow> p = length (media d as) \<longrightarrow> p + length xs \<le> cap \<longrightarrow>
        (\<exists>r d'. nvm_vblk_write lib d b xs = Some (r, d') \<and> handles d' = (handles d)(b \<mapsto> (as, p + length xs)) \<and>
           media d' = (media d)(as := media d as @ xs)))"

definition pwrite_law ::
  "('a, 'd, 'z) tool_nvm_scheme \<Rightarrow> ('d \<Rightarrow> nvm_vblk \<Rightarrow> ('a list \<times> nat) option) \<Rightarrow> ('d \<Rightarrow> 'a list \<Rightarrow> byte list) \<Rightarrow> nat \<Rightarrow> bool" where
  "pwrite_law lib handles media cap \<longleftrightarrow>
     (\<forall>d b as p xs off. handles d b = Some (as, p) \<longrightarrow> unat off = length (media d as) \<longrightarrow>
        unat off + length xs \<le> cap \<longrightarrow>
        (\<exists>r d'. nvm_vblk_pwrite lib d b xs off = Some (r, d') \<and> handles d' = handles d \<and>
           media d' = (media d)(as := media d as @ xs)))"

definition pread_law ::
  "('a, 'd, 'z) tool_nvm_scheme \<Rightarrow> ('d \<Rightarrow> nvm_vblk \<Rightarrow> ('a list \<times> nat) option) \<Rightarrow> ('d \<Rightarrow> 'a list \<Rightarrow> byte list) \<Rightarrow> bool" where
  "pread_law lib handles media \<longleftrightarrow>
     (\<forall>d b as p n off. handles d b = Some (as, p) \<longrightarrow> unat off + unat n \<le> length (media d as) \<longrightarrow>
        (\<exists>r d'. nvm_vblk_pread lib d b n off = Some (r, take (unat n) (drop (unat off) (media d as)), d') \<and>
           handles d' = handles d \<and> media d' = media d))"

definition flash ::
  "('a, 'd, 'z) tool_nvm_scheme \<Rightarrow> ('d \<Rightarrow> nvm_vblk \<Rightarrow> ('a list \<times> nat) option) \<Rightarrow> ('d \<Rightarrow> 'a list \<Rightarrow> byte list) \<Rightarrow> nat \<Rightarrow> bool" where
  "flash lib handles media cap \<longleftrightarrow>
     alloc_law lib handles media \<and> free_law lib handles media \<and> erase_law lib handles media \<and>
     write_law lib handles media cap \<and> pwrite_law lib handles media cap \<and> pread_law lib handles media"

lemma flash_alloc:
  assumes "flash lib handles media cap" "nvm_vblk_alloc lib d dev as = (b, d')"
  shows "handles d b = None" "handles d' = (handles d)(b \<mapsto> (as, 0))" "media d' = media d"
proof -
  have "alloc_law lib handles media" using assms(1) by (simp add: flash_def)
  from this [unfolded alloc_law_def, rule_format, OF assms(2)]
  show "handles d b = None" "handles d' = (handles d)(b \<mapsto> (as, 0))" "media d' = media d" by simp_all
qed

lemma flash_free:
  assumes "flash lib handles media cap" "handles d b \<noteq> None"
  obtains d' where "nvm_vblk_free lib d b = Some d'" "handles d' = (handles d)(b := None)" "media d' = media d"
proof -
  have "free_law lib handles media" using assms(1) by (simp add: flash_def)
  from this [unfolded free_law_def, rule_format, OF assms(2)] show thesis by (elim exE conjE) (rule that)
qed

lemma flash_erase:
  assumes "flash lib handles media cap" "handles d b = Some (as, p)"
  obtains r d' where "nvm_vblk_erase lib d b = Some (r, d')" "handles d' = (handles d)(b \<mapsto> (as, 0))"
    "media d' = (media d)(as := [])"
proof -
  have "erase_law lib handles media" using assms(1) by (simp add: flash_def)
  from this [unfolded erase_law_def, rule_format, OF assms(2)] show thesis by (elim exE conjE) (rule that)
qed

lemma flash_write:
  assumes "flash lib handles media cap" "handles d b = Some (as, p)" "p = length (media d as)" "p + length xs \<le> cap"
  obtains r d' where "nvm_vblk_write lib d b xs = Some (r, d')" "handles d' = (handles d)(b \<mapsto> (as, p + length xs))"
    "media d' = (media d)(as := media d as @ xs)"
proof -
  have "write_law lib handles media cap" using assms(1) by (simp add: flash_def)
  from this [unfolded write_law_def, rule_format, OF assms(2-4)] show thesis by (elim exE conjE) (rule that)
qed

lemma flash_pwrite:
  assumes "flash lib handles media cap" "handles d b = Some (as, p)" "unat off = length (media d as)" "unat off + length xs \<le> cap"
  obtains r d' where "nvm_vblk_pwrite lib d b xs off = Some (r, d')" "handles d' = handles d"
    "media d' = (media d)(as := media d as @ xs)"
proof -
  have "pwrite_law lib handles media cap" using assms(1) by (simp add: flash_def)
  from this [unfolded pwrite_law_def, rule_format, OF assms(2-4)] show thesis by (elim exE conjE) (rule that)
qed

lemma flash_pread:
  assumes "flash lib handles media cap" "handles d b = Some (as, p)" "unat off + unat n \<le> length (media d as)"
  obtains r d' where "nvm_vblk_pread lib d b n off = Some (r, take (unat n) (drop (unat off) (media d as)), d')"
    "handles d' = handles d" "media d' = media d"
proof -
  have "pread_law lib handles media" using assms(1) by (simp add: flash_def)
  from this [unfolded pread_law_def, rule_format, OF assms(2-3)] show thesis by (elim exE conjE) (rule that)
qed

lemma alloc_blocks_flash:
  assumes "flash lib handles media cap"
  shows "alloc_blocks lib dev ch lun todo blks d = (blks', d') \<Longrightarrow> distinct blks \<Longrightarrow>
    \<forall>b\<in>set blks. handles d b \<noteq> None \<Longrightarrow>
    media d' = media d \<and> distinct blks' \<and> (\<forall>b\<in>set blks'. handles d' b \<noteq> None) \<and>
    (\<exists>new. blks' = blks @ new \<and> length new = length todo \<and> (\<forall>b\<in>set new. handles d b = None)) \<and>
    (\<forall>b\<in>set blks. handles d' b = handles d b) \<and> (\<forall>b. b \<notin> set blks' \<longrightarrow> handles d' b = handles d b)"
proof (induction todo arbitrary: blks d)
  case (Cons i todo)
  obtain b d1 where a: "nvm_vblk_alloc lib d dev [set_addr lib ch lun (word_of_nat i)] = (b, d1)" by fastforce
  note f = flash_alloc [OF assms a]
  have r: "alloc_blocks lib dev ch lun todo (blks @ [b]) d1 = (blks', d')" using Cons.prems(1) a by simp
  have b: "b \<notin> set blks" using f(1) Cons.prems(3) by auto
  have "distinct (blks @ [b])" "\<forall>x\<in>set (blks @ [b]). handles d1 x \<noteq> None"
    using Cons.prems(2,3) b f(2) by auto
  from Cons.IH [OF r this] obtain new where n: "media d' = media d1" "distinct blks'"
    "\<forall>b\<in>set blks'. handles d' b \<noteq> None" "blks' = (blks @ [b]) @ new" "length new = length todo"
    "\<forall>x\<in>set new. handles d1 x = None" "\<forall>x\<in>set (blks @ [b]). handles d' x = handles d1 x"
    "\<forall>x. x \<notin> set blks' \<longrightarrow> handles d' x = handles d1 x" by blast
  have "handles d x = None" if "x \<in> set (b # new)" for x
    using that bspec [OF n(6), of x] n(2,4) f(1,2) by (cases "x = b") auto
  then have "\<forall>x\<in>set (b # new). handles d x = None" by blast
  moreover have "\<forall>x\<in>set blks. handles d' x = handles d x" using n(7) b f(2) by auto
  moreover have "\<forall>x. x \<notin> set blks' \<longrightarrow> handles d' x = handles d x" using n(4,8) f(2) by auto
  ultimately show ?case using n(1-5) f(3) by (intro conjI exI [of _ "b # new"]) auto
qed simp

lemma alloc_blocks_first:
  assumes "flash lib handles media cap" "alloc_blocks lib dev ch lun (i # todo) [] d = (blks, d')"
  shows "handles d' (hd blks) = Some ([set_addr lib ch lun (word_of_nat i)], 0)" "blks \<noteq> []" "distinct blks"
    "\<forall>b\<in>set blks. handles d' b \<noteq> None" "media d' = media d"
    "handles d = (\<lambda>b. if b \<in> set blks then None else handles d' b)"
proof -
  obtain b d1 where a: "nvm_vblk_alloc lib d dev [set_addr lib ch lun (word_of_nat i)] = (b, d1)" by fastforce
  note f = flash_alloc [OF assms(1) a]
  have r: "alloc_blocks lib dev ch lun todo [b] d1 = (blks, d')" using assms(2) a by simp
  from alloc_blocks_flash [OF assms(1) r] f obtain new where n: "blks = b # new" "distinct blks" "media d' = media d"
    "\<forall>x\<in>set new. handles d1 x = None" "handles d' b = handles d1 b" "\<forall>x\<in>set blks. handles d' x \<noteq> None"
    "\<forall>x. x \<notin> set blks \<longrightarrow> handles d' x = handles d1 x" by auto
  then show "handles d' (hd blks) = Some ([set_addr lib ch lun (word_of_nat i)], 0)" "blks \<noteq> []" "distinct blks"
    "\<forall>b\<in>set blks. handles d' b \<noteq> None" "media d' = media d" using f by simp_all
  show "handles d = (\<lambda>b. if b \<in> set blks then None else handles d' b)"
  proof
    fix x
    show "handles d x = (if x \<in> set blks then None else handles d' x)"
      using n(1,2,4,7) f(1,2) by (cases "x = b") auto
  qed
qed

lemma free_blocks_flash:
  assumes "flash lib handles media cap"
  shows "distinct blks \<Longrightarrow> \<forall>b\<in>set blks. handles d b \<noteq> None \<Longrightarrow>
    \<exists>d'. free_blocks lib blks d = Some d' \<and> media d' = media d \<and>
      handles d' = (\<lambda>b. if b \<in> set blks then None else handles d b)"
proof (induction blks arbitrary: d)
  case (Cons b blks)
  then obtain d1 where "nvm_vblk_free lib d b = Some d1" "handles d1 = (handles d)(b := None)" "media d1 = media d"
    using flash_free [OF assms, of d b] by auto
  moreover from this have "\<forall>x\<in>set blks. handles d1 x \<noteq> None" using Cons.prems by auto
  ultimately obtain d' where "free_blocks lib (b # blks) d = Some d'" "media d' = media d"
    "handles d' = (\<lambda>x. if x \<in> set blks then None else handles d1 x)" "handles d1 = (handles d)(b := None)"
    using Cons.IH [of d1] Cons.prems(1) by auto
  then show ?case by (intro exI [of _ d']) auto
qed simp

lemma transfer_size_word: "unat (word_of_nat transfer_size :: u64) = transfer_size" "0 < transfer_size"
  by (simp_all add: transfer_size_def)

lemma length_pattern: "pattern off n = Some xs \<Longrightarrow> length xs = n"
  by (auto simp: pattern_def Let_def split: if_splits)

lemma upt_first: "0 < unat n \<Longrightarrow> \<exists>todo. [0..<unat n] = 0 # todo"
  by (simp add: upt_conv_Cons)

lemma vblk_write_test_stores:
  assumes "flash lib handles media cap" "2 * transfer_size \<le> cap" "select_lun geo channel = Some (ch, lun)"
    "nblocks geo \<noteq> 0" "length (nvm_buf_alloc lib (word_of_nat transfer_size)) = transfer_size"
    "pattern off transfer_size = Some xs"
  obtains r1 r2 d' where "vblk_write_test lib geo dev channel off d = Some ([r1, r2], d')"
    "media d' = (media d)([set_addr lib ch lun 0] := xs @ xs)" "handles d' = handles d"
proof -
  let ?as = "[set_addr lib ch lun 0]" and ?w = "word_of_nat transfer_size :: u64"
  note len = length_pattern [OF assms(6)]
  have "0 < unat (nblocks geo)" using assms(4) by (simp add: unat_gt_0)
  then obtain todo where todo: "[0..<unat (nblocks geo)] = 0 # todo" using upt_first by blast
  obtain blks d1 where a: "alloc_blocks lib dev ch lun (0 # todo) [] d = (blks, d1)" by fastforce
  note f = alloc_blocks_first [OF assms(1) a, simplified]
  obtain r0 d2 where e: "nvm_vblk_erase lib d1 (hd blks) = Some (r0, d2)"
    "handles d2 = (handles d1)(hd blks \<mapsto> (?as, 0))" "media d2 = (media d1)(?as := [])"
    by (rule flash_erase [OF assms(1) f(1)])
  have "handles d2 (hd blks) = Some (?as, 0)" "0 = length (media d2 ?as)" "0 + length xs \<le> cap"
    using e(2,3) len assms(2) by simp_all
  from flash_write [OF assms(1) this] obtain r1 d3 where w: "nvm_vblk_write lib d2 (hd blks) xs = Some (r1, d3)"
    "handles d3 = (handles d2)(hd blks \<mapsto> (?as, 0 + length xs))" "media d3 = (media d2)(?as := media d2 ?as @ xs)" .
  have "handles d3 (hd blks) = Some (?as, length xs)" "unat ?w = length (media d3 ?as)" "unat ?w + length xs \<le> cap"
    using w(2,3) e(3) len assms(2) transfer_size_word(1) by simp_all
  from flash_pwrite [OF assms(1) this] obtain r2 d4 where p: "nvm_vblk_pwrite lib d3 (hd blks) xs ?w = Some (r2, d4)"
    "handles d4 = handles d3" "media d4 = (media d3)(?as := media d3 ?as @ xs)" .
  have "\<forall>b\<in>set blks. handles d4 b \<noteq> None" using f(4) e(2) w(2) p(2) by auto
  then obtain d5 where fr: "free_blocks lib blks d4 = Some d5" "media d5 = media d4"
    "handles d5 = (\<lambda>b. if b \<in> set blks then None else handles d4 b)"
    using free_blocks_flash [OF assms(1) f(3)] by blast
  have buf: "nvm_buf_alloc lib ?w \<noteq> []" "poke (nvm_buf_alloc lib ?w) 0 xs = Some xs"
    using assms(5) len transfer_size_word(2) by (auto simp: poke_def)
  have "vblk_write_test lib geo dev channel off d = Some ([r1, r2], d5)"
    using assms(3,6) todo a f(2) e(1) w(1) p(1) fr(1) buf len by (simp add: vblk_write_test_def Let_def)
  moreover have "media d5 = (media d)(?as := xs @ xs)" using fr(2) p(3) w(3) e(3) f(5) by simp
  moreover have "handles d5 = handles d"
    unfolding fr(3) f(6) using f(2) by (auto simp: p(2) w(2) e(2))
  ultimately show thesis by (rule that)
qed

lemma vblk_read_main_returns:
  assumes "flash lib handles media cap" "select_lun geo (word_of_int channel) = Some (ch, lun)"
    "nblocks geo \<noteq> 0" "length (nvm_buf_alloc lib (word_of_nat transfer_size)) = transfer_size"
    "pattern off transfer_size = Some ys" "dev_open nvme0 = Some geo"
    "atoi a1 = Some channel" "atoi a2 = Some off"
    "media d [set_addr lib ch lun 0] = xs @ xs" "length xs = transfer_size"
  obtains r1 r2 d' where "vblk_read_main lib dev_open [prog, a1, a2] d = Some (0, [r1, r2], xs, d')" "media d' = media d"
    "handles d' = handles d"
proof -
  let ?as = "[set_addr lib ch lun 0]" and ?w = "word_of_nat transfer_size :: u64"
  have "0 < unat (nblocks geo)" using assms(3) by (simp add: unat_gt_0)
  then obtain todo where todo: "[0..<unat (nblocks geo)] = 0 # todo" using upt_first by blast
  obtain blks d1 where a: "alloc_blocks lib nvme0 ch lun (0 # todo) [] d = (blks, d1)" by fastforce
  note f = alloc_blocks_first [OF assms(1) a, simplified]
  have m: "media d1 ?as = xs @ xs" "unat ?w = length xs" using f(5) assms(9,10) transfer_size_word(1) by simp_all
  have "unat (0 :: u64) + unat ?w \<le> length (media d1 ?as)" using m by simp
  from flash_pread [OF assms(1) f(1) this] m obtain r1 d2 where
    r: "nvm_vblk_pread lib d1 (hd blks) ?w 0 = Some (r1, xs, d2)" "handles d2 = handles d1" "media d2 = media d1" by auto
  have "handles d2 (hd blks) = Some (?as, 0)" "unat ?w + unat ?w \<le> length (media d2 ?as)"
    using r(2,3) f(1) m by simp_all
  from flash_pread [OF assms(1) this] m r(3) obtain r2 d3 where
    r': "nvm_vblk_pread lib d2 (hd blks) ?w ?w = Some (r2, xs, d3)" "handles d3 = handles d2" "media d3 = media d2"
    by (auto simp: transfer_size_word(1))
  have "\<forall>b\<in>set blks. handles d3 b \<noteq> None" using f(4) r(2) r'(2) by simp
  then obtain d4 where fr: "free_blocks lib blks d3 = Some d4" "media d4 = media d3"
    "handles d4 = (\<lambda>b. if b \<in> set blks then None else handles d3 b)"
    using free_blocks_flash [OF assms(1) f(3)] by blast
  have buf: "nvm_buf_alloc lib ?w \<noteq> []" "poke (nvm_buf_alloc lib ?w) 0 ys = Some ys" "poke ys 0 xs = Some xs" "poke xs 0 xs = Some xs"
    using assms(4,10) length_pattern [OF assms(5)] transfer_size_word(2) by (auto simp: poke_def)
  have "vblk_read_main lib dev_open [prog, a1, a2] d = Some (0, [r1, r2], xs, d4)"
    using assms(2,5-8) todo a f(2) r(1) r'(1) fr(1) buf by (simp add: vblk_read_main_def Let_def)
  moreover have "media d4 = media d" using fr(2) r(3) r'(3) f(5) by simp
  moreover have "handles d4 = handles d" unfolding fr(3) f(6) by (auto simp: r'(2) r(2))
  ultimately show thesis by (rule that)
qed

lemma pattern_defined:
  assumes "0 \<le> off" "off \<le> 1000"
  obtains xs where "pattern off n = Some xs"
proof -
  have "0 \<le> int i mod 26 \<and> int i mod 26 < 26" for i by simp
  then have "int_ok (int i mod 26 + 65 + off)" for i
    using assms by (auto simp: int_ok_def INT_MAX_def intro!: order_trans [of _ "26 + 65 + 1000"] add_mono less_imp_le)
  then show thesis using that by (simp add: pattern_def list_all_iff)
qed

text \<open>A library with the documented behaviour: the last handle, the open blocks and the stored bytes.\<close>

type_synonym flash_state =
  "nat \<times> (nat \<Rightarrow> ((u32 \<times> u32 \<times> u32) list \<times> nat) option) \<times> ((u32 \<times> u32 \<times> u32) list \<Rightarrow> byte list)"

definition open_blocks :: "flash_state \<Rightarrow> nvm_vblk \<Rightarrow> ((u32 \<times> u32 \<times> u32) list \<times> nat) option" where
  "open_blocks d b = (if b \<le> fst d then fst (snd d) b else None)"

definition stored :: "flash_state \<Rightarrow> (u32 \<times> u32 \<times> u32) list \<Rightarrow> byte list" where
  "stored d = snd (snd d)"

definition flash_nvm :: "(u32 \<times> u32 \<times> u32, flash_state) tool_nvm" where
  "flash_nvm = \<lparr>set_addr = (\<lambda>c l b. (c, l, b)), nvm_buf_alloc = (\<lambda>n. replicate (unat n) 0),
     nvm_vblk_alloc = (\<lambda>(n, h, m) dev as. (Suc n, Suc n, h(Suc n \<mapsto> (as, 0)), m)),
     nvm_vblk_free = (\<lambda>(n, h, m) b. Some (n, h(b := None), m)),
     nvm_vblk_get_nbytes = (\<lambda>d b. Some 131072),
     nvm_vblk_erase = (\<lambda>(n, h, m) b. case open_blocks (n, h, m) b of None \<Rightarrow> None
       | Some (as, p) \<Rightarrow> Some (0, n, h(b \<mapsto> (as, 0)), m(as := []))),
     nvm_vblk_write = (\<lambda>(n, h, m) b xs. case open_blocks (n, h, m) b of None \<Rightarrow> None
       | Some (as, p) \<Rightarrow> Some (int (length xs), n, h(b \<mapsto> (as, p + length xs)), m(as := m as @ xs))),
     nvm_vblk_read = (\<lambda>d b n. Some (0, [], d)),
     nvm_vblk_pread = (\<lambda>(n, h, m) b k off. case open_blocks (n, h, m) b of None \<Rightarrow> None
       | Some (as, p) \<Rightarrow> Some (int (unat k), take (unat k) (drop (unat off) (m as)), n, h, m)),
     nvm_vblk_pwrite = (\<lambda>(n, h, m) b xs off. case open_blocks (n, h, m) b of None \<Rightarrow> None
       | Some (as, p) \<Rightarrow> Some (int (length xs), n, h, m(as := m as @ xs))),
     addr_fields = (\<lambda>a (ch, lun, _, _, _, blk). (word_of_nat ch, word_of_nat lun, word_of_nat blk)),
     nvm_addr_erase = (\<lambda>d as f. (0, d)), nvm_addr_write = (\<lambda>d as xs ys f. (0, d)),
     nvm_dev_get_pmode = (\<lambda>_. 0), nvm_addr_gen2dev = (\<lambda>_ _. 0), addr_ppa = (\<lambda>_. 0)\<rparr>"

lemma open_blocks_simps:
  "open_blocks (Suc n, h(Suc n := v), m) = (open_blocks (n, h, m'))(Suc n := v)"
  "open_blocks (n, h, m) b = Some x \<Longrightarrow> open_blocks (n, h(b := v), m') = (open_blocks (n, h, m))(b := v)"
  "open_blocks (n, h, m') = open_blocks (n, h, m)" "open_blocks (n, h, m) (Suc n) = None"
  by (auto simp: open_blocks_def fun_eq_iff split: if_splits)

lemma flash_nvm_flash: "flash flash_nvm open_blocks stored cap"
proof -
  have "alloc_law flash_nvm open_blocks stored"
    by (auto simp: alloc_law_def flash_nvm_def stored_def open_blocks_simps(1,4))
  moreover have "free_law flash_nvm open_blocks stored"
    by (auto simp: free_law_def flash_nvm_def stored_def open_blocks_simps(2))
  moreover have "erase_law flash_nvm open_blocks stored"
    by (auto simp: erase_law_def flash_nvm_def stored_def open_blocks_simps(2))
  moreover have "write_law flash_nvm open_blocks stored cap"
    by (auto simp: write_law_def flash_nvm_def stored_def open_blocks_simps(2))
  moreover have "pwrite_law flash_nvm open_blocks stored cap"
    by (auto simp: pwrite_law_def flash_nvm_def stored_def intro: open_blocks_simps(3))
  moreover have "pread_law flash_nvm open_blocks stored"
    by (auto simp: pread_law_def flash_nvm_def stored_def)
  ultimately show ?thesis by (simp add: flash_def)
qed

section \<open>Theorems\<close>



end
