(* ===== verification/Spec2Isabelle.thy ===== *)
theory Spec2Isabelle
  imports Client Service Locking Lifetime Printing Startup Azure Threadpool Bench Blocktools
begin

text \<open>This library verifies LightNVM, a program that shares the open-channel SSDs of a storage node between
clients.  A server owns the devices.  A client sends an allocation request and gets a
\<^emph>\<open>virtual SSD\<close>, the list of the channels, LUNs and blocks it was given.  A local client then opens
the device itself; for a remote client the server stripes the blocks of the virtual SSD into virtual
blocks of liblightnvm and serves read, write and erase requests on them.

\<^bold>\<open>Parts of the program and the theories that model them\<close> (sources under src/)

  \<^item> \<^verbatim>\<open>Prelude\<close>: bytes and machine words (uint32_t and size_t are 32 and 64 bit words), little-endian
    images of integers, and \<^verbatim>\<open>poke\<close>/\<^verbatim>\<open>peek\<close>, the accesses to one memory object: \<^verbatim>\<open>None\<close> is an access
    outside of the object, undefined behaviour of the program.
  \<^item> \<^verbatim>\<open>Wire\<close>: the primitives of ocssd_server.h (\<^verbatim>\<open>get_header\<close>, \<^verbatim>\<open>serialize_data4\<close> ...
    \<^verbatim>\<open>deserialize_data8\<close>) over a cursor, a position in a memory object, and the locale \<^verbatim>\<open>codec\<close>.
  \<^item> \<^verbatim>\<open>Requests\<close>: \<^verbatim>\<open>ocssd_io_request\<close> and \<^verbatim>\<open>ocssd_alloc_request\<close> of ocssd_server.h, the two messages of
    24 bytes; a C++ exception is the left of a sum, undefined behaviour is \<^verbatim>\<open>None\<close>.
  \<^item> \<^verbatim>\<open>VSSD\<close>: \<^verbatim>\<open>virtual_ocssd_lun\<close>, \<^verbatim>\<open>virtual_ocssd_channel\<close>, \<^verbatim>\<open>virtual_ocssd_unit\<close> and
    \<^verbatim>\<open>virtual_ocssd\<close> of ocssd_server.h with their serialized form (padded strings, nested counts).
  \<^item> \<^verbatim>\<open>Allocator\<close>: the locale \<^verbatim>\<open>block_allocator\<close>, the contract that LUNs' owners share.
  \<^item> \<^verbatim>\<open>Physical\<close>: \<^verbatim>\<open>ocssd_lun\<close> and \<^verbatim>\<open>ocssd_channel\<close> of ocssd_server.h, the block bookkeeping.
  \<^item> \<^verbatim>\<open>Device\<close>: \<^verbatim>\<open>ocssd_unit\<close> of ocssd_server.h: opening a device, the shared and the exclusive pool of
    channels, allocation from both, the statistics.
  \<^item> \<^verbatim>\<open>Manager\<close>: \<^verbatim>\<open>ocssd_manager\<close> of ocssd_server.h: the devices of the node and the allocation of a
    virtual SSD over them.
  \<^item> \<^verbatim>\<open>Vblk\<close>: \<^verbatim>\<open>initialize_vssd_blocks\<close> and its helpers in ocssd_conn.h, which stripe the units of a
    virtual SSD into virtual blocks.
  \<^item> \<^verbatim>\<open>Conn\<close>: \<^verbatim>\<open>ocssd_conn\<close> of ocssd_conn.h: reassembly of commands, the four handlers, the reply queue.
  \<^item> \<^verbatim>\<open>Server\<close>: the callbacks of ocssd_libevent_server.cc and the server as a transition system.
  \<^item> \<^verbatim>\<open>Service\<close>: the server as an implementation of an abstract allocation service, which only knows the
    blocks given away and the list of answers per client.
  \<^item> \<^verbatim>\<open>Locking\<close>: \<^verbatim>\<open>MutexLock\<close> of ocssd_server.h and the methods of the manager and of the devices that use it,
    as the interleaved steps of any number of threads.
  \<^item> \<^verbatim>\<open>Lifetime\<close>: the constructors and destructors of ocssd_server.h and ocssd_conn.h over a heap of live
    addresses, and the objects the handler of an allocation request creates and deletes.
  \<^item> \<^verbatim>\<open>Printing\<close>: the \<^verbatim>\<open>print\<close> methods of ocssd_server.h as the lines they write.
  \<^item> \<^verbatim>\<open>Startup\<close>: the descriptor and signal helpers of ocssd_libevent_server.cc, the epoll helpers of
    ocssd_server.h, \<^verbatim>\<open>main\<close>, the loop until \<^verbatim>\<open>SIGINT\<close> breaks it, and what is released at the end.
  \<^item> \<^verbatim>\<open>Azure\<close>: the table of resources of azure_access.cpp (insert, retrieve, delete; azure_get.cc and
    azure_delete.cc call them) and the entities the server publishes.
  \<^item> \<^verbatim>\<open>Libc\<close>: \<^verbatim>\<open>atoi\<close> on the arguments of the command lines, and the decimal form of a number.
  \<^item> \<^verbatim>\<open>Client\<close>: ocssd_client.cc, which sends the request, reads the virtual SSD and, for a remote one,
    writes, reads and erases a block through the server; client.cc, the echo client.
  \<^item> \<^verbatim>\<open>Bench\<close>: vblk_writetest.cc and vblk_readtest.cc, which sweep over the sizes of an access.
  \<^item> \<^verbatim>\<open>Blocktools\<close>: vblk_write.cc, vblk_read.cc, write.c, erase.c, addr.c and hello.c.
  \<^item> \<^verbatim>\<open>Threadpool\<close>: \<^verbatim>\<open>locker\<close>, \<^verbatim>\<open>sem\<close> and \<^verbatim>\<open>cond\<close> of locker.h and \<^verbatim>\<open>threadpool\<close> of threadpool.h, as the interleaved
    steps of workers and producers.
  \<^item> this theory: the properties that span the components.

\<^bold>\<open>State and operations\<close>  A class is a record with the fields of the source, a method a function that
takes the object and returns it changed.  The devices and LUNs are values owned by one container each,
so the pointers of the source are list positions and no aliasing is lost; where the question is what
is deleted when, \<^verbatim>\<open>Lifetime\<close> has the addresses.  Integers are kept at their
width wherever the source computes with them; the theorems state where the arithmetic does not wrap.
Loops that are not structural have termination proofs, so the functions are total: receiving data
decreases the bytes still missing (\<^verbatim>\<open>receive_data\<close>), reading a command the 24 bytes of the message
buffer (\<^verbatim>\<open>read_command\<close>), striping the blocks still left in the cursors (\<^verbatim>\<open>vblks_loop\<close>, measure
\<^verbatim>\<open>left_over\<close>), the client's reading of a reply the bytes still missing (\<^verbatim>\<open>recv_loop\<close>), a sweep of a
test the distance of the access size from the size of the block (\<^verbatim>\<open>write_sweep\<close>, \<^verbatim>\<open>read_sweep\<close>).
The only fuel is in \<^verbatim>\<open>drain\<close>, the repeated write callback; pending bytes plus queued
replies is shown to be enough.

\<^bold>\<open>Code outside of the repository\<close>  liblightnvm is the record \<^verbatim>\<open>nvm\<close> of \<^verbatim>\<open>Vblk\<close> (allocate, write, read,
erase, free virtual blocks over an abstract device state), the operating system the record
\<^verbatim>\<open>platform\<close> of \<^verbatim>\<open>Conn\<close> (nvm_dev_open, malloc, the contents of fresh memory) and the results of each
read and write of a socket.  What a theorem needs of them is a named hypothesis: \<^verbatim>\<open>geo_ok\<close> (a geometry
whose counts fit their 32 bit fields), \<^verbatim>\<open>malloc_ok\<close> and \<^verbatim>\<open>reply_buffer_ok\<close> (malloc returns the bytes
asked for), \<^verbatim>\<open>reliable\<close> (the calls on virtual blocks succeed), \<^verbatim>\<open>write_ok\<close> (write returns at most the
bytes offered), \<^verbatim>\<open>block_stores\<close> and \<^verbatim>\<open>flash\<close> (a virtual block returns what was written to it),
\<^verbatim>\<open>sequential\<close> (the write position of a block advances by what is written),
\<^verbatim>\<open>table_laws\<close> (a query of the table returns the entities inserted and not deleted).
Each is shown to hold of a concrete instance in the witnesses.

\<^bold>\<open>Interfaces\<close>
  \<^item> \<^verbatim>\<open>codec\<close> (Wire): what is written is read back, and the write needs the width of the value; it gives
    the same laws for sequences.  Interpreted on the 4 and 8 byte integers, LUNs, channels, the geometry
    and units.
  \<^item> \<^verbatim>\<open>block_allocator\<close> (Allocator): an allocation returns, keeps the invariant, and grants blocks that
    were not owned and are owned from then on; so the grants of a whole sequence of requests are
    pairwise disjoint.  Interpreted on a channel, on a device and on the manager.
  \<^item> \<^verbatim>\<open>channel_pool\<close> (Device): the laws of one pool of a device; interpreted on the shared and on the
    exclusive pool.
  \<^item> \<^verbatim>\<open>reply_queue\<close> (Server): queueing and sending of replies; interpreted on a connection.
  \<^item> \<^verbatim>\<open>simulation\<close> (Service): every step of a detailed system is matched by steps of an abstract one, so runs
    are matched and invariants of the abstract system transfer; interpreted on the server and the service.
  \<^item> \<^verbatim>\<open>reader\<close> (VSSD): a deserializer stays inside of its buffer and returns well-formed values; it gives the
    same for sequences.  Interpreted on the integers, LUNs, channels and units.
  \<^item> \<^verbatim>\<open>owned_object\<close> (Lifetime): creation takes fresh addresses and deletion frees exactly them; it gives the
    same for lists of objects.  Interpreted on the channels and LUNs of descriptions and devices, and on devices.

\<^bold>\<open>What is shown\<close>
  \<^item> isolation: over any sequence of requests the virtual SSDs own disjoint blocks of the node, and the
    striped blocks of remote clients are disjoint too; each allocation is characterised (exclusive
    requests get the channels they ask for while there are any, shared requests their quota per channel);
  \<^item> the service: whatever clients do, in whatever order and pieces, the server behaves as an abstract service
    that hands out disjoint sets of blocks, and the bytes to each client are the images of its answers;
  \<^item> concurrency: calls of the manager by several threads equal the same calls one after the other, in the
    order of their return, statistics are never those of a half-changed device, and the locks cannot deadlock;
  \<^item> memory: the handler of an allocation request frees what it creates exactly once, unless an exception leaves
    it; deleting the manager frees and closes every device once;
  \<^item> the messages: every request and every virtual SSD that fits the buffer is read back as it was sent,
    whatever the memory held before; malformed requests raise an exception and are never undefined; whatever
    bytes are decoded, the result is a well-formed description; the printed text determines the virtual SSD;
  \<^item> the exchange: however the network cuts the bytes, a command is reassembled, handled once, and the
    reply queue delivers exactly the queued replies, in order, through partial writes;
  \<^item> the client: what it decodes from the socket is the virtual SSD the manager granted; a remote client
    that writes a block through the server and reads it again gets the bytes it wrote; a reply
    that is received only in part is decoded from stale bytes, and a client whose request is refused waits for a reply that is never sent;
  \<^item> the tools: the sizes the write test issues, and the pattern of vblk_write is what vblk_read reads;
  \<^item> the directory: the table functions implement a map from device names to their free channels and blocks;
  \<^item> start-up: the server ends with the code of the call that failed, or it listens on a non-blocking
    socket with no block allocated, and every state it reaches from there keeps the server's invariant;
  \<^item> shutdown: after \<^verbatim>\<open>SIGINT\<close> no callback runs, and the program closes exactly the device it opened;
  \<^item> striping: the virtual blocks of a unit partition its blocks, and initialization succeeds when the
    library's calls do;
  \<^item> the thread pool: mutual exclusion, no task lost or run twice, no lost wake-up;
  \<^item> where the code goes wrong: a reply longer than its 1024 byte buffer is written past its end, a
    block index of a request is used unchecked, a shared request that is spread
    over two devices is given more blocks than it asks for, and the limit of the thread pool's queue is exceeded by one.

\<^bold>\<open>Not modelled\<close>  Messages printed for diagnosis, clock readings and the bandwidth computed from them,
the code of \<^verbatim>\<open>on_read\<close> that is disabled with \<^verbatim>\<open>#if 0\<close>, and the insides of libevent, liblightnvm and the Azure
SDK (the transition system of \<^verbatim>\<open>Server\<close> takes the callbacks in any order).  The
interleaving of \<^verbatim>\<open>add_ocssd\<close> with allocations is left out, since the program adds its devices before it serves.\<close>

section \<open>Stripes of different virtual SSDs\<close>

text \<open>The blocks that \<^verbatim>\<open>initialize_vssd_blocks\<close> makes virtual blocks of, for a unit of a
  remote client.\<close>

definition stripe_blocks :: "virtual_ocssd_unit \<Rightarrow> dev_block set" where
  "stripe_blocks vu = (case striped vu of None \<Rightarrow> {} | Some log \<Rightarrow> address_block ` set (concat log))"

lemma stripe_blocks_eq: "unit_stripes_ok vu \<Longrightarrow> striped vu \<noteq> None \<and> stripe_blocks vu = vunit_blocks vu"
proof -
  assume ok: "unit_stripes_ok vu"
  define rs where "rs = ranges (vu_geo vu) (vu_channels vu)"
  obtain log where log: "striped vu = Some log"
    "map address_block (concat log) = map unat_block (concat (map (stripe rs) [0..<rounds rs]))"
    using striped_blocks [OF ok rs_def] by blast
  then show ?thesis using logged_blocks [OF ok rs_def log(2)] by (simp add: stripe_blocks_def)
qed

lemma alloc_run_stripes:
  "manager_inv m \<Longrightarrow> alloc_run manager_alloc m rqs = Some (vs, m') \<Longrightarrow>
   list_all (\<lambda>v. list_all unit_stripes_ok (v_units v)) vs"
proof (induction rqs arbitrary: m vs)
  case Nil
  then show ?case by simp
next
  case (Cons rq rqs)
  obtain v m1 vs1 where r: "manager_alloc m rq = Some (v, m1)" "alloc_run manager_alloc m1 rqs = Some (vs1, m')"
    "vs = v # vs1" using Cons.prems(2) by (rule manager.run_ConsE)
  then obtain n rq' where "alloc_ocssd_resource m virtual_ocssd_new rq = Some (n, v, rq', m1)"
    by (auto simp: manager_alloc_def)
  from alloc_granted(5) [OF Cons.prems(1) this] have "list_all unit_stripes_ok (v_units v)"
    by (auto simp: list_all_iff unit_of_def)
  then show ?case
    using Cons.IH [OF manager.alloc_inv [OF Cons.prems(1) r(1)] r(2)] r(3) by simp
qed

section \<open>Theorems\<close>

text \<open>C8: Remote clients are isolated down to the physical blocks.  Over any sequence of allocation
  requests, the blocks the server stripes for a unit of one virtual SSD and for a unit of another are
  disjoint (as blocks of the node, so also when the two units are on the same device), and striping is
  defined for both.\<close>

theorem remote_stripes_disjoint:
  assumes "manager_inv m" and "alloc_run manager_alloc m rqs = Some (vs, m')"
    and "i < j" and "j < length vs" and "vu \<in> set (v_units (vs ! i))" and "vu' \<in> set (v_units (vs ! j))"
  shows "striped vu \<noteq> None \<and> striped vu' \<noteq> None \<and>
    ({vu_dev_name vu} \<times> stripe_blocks vu) \<inter> ({vu_dev_name vu'} \<times> stripe_blocks vu') = {}"
proof -
  have ok: "unit_stripes_ok vu" "unit_stripes_ok vu'"
    using alloc_run_stripes [OF assms(1,2)] assms(5,6) nth_mem [of i vs] nth_mem [of j vs] assms(3,4)
    by (auto simp: list_all_iff)
  have "vssd_blocks (vs ! i) \<inter> vssd_blocks (vs ! j) = {}"
    using manager.run_separate [OF assms(1,2)] assms(3,4) by (auto simp: sorted_wrt_iff_nth_less)
  moreover have "{vu_dev_name vu} \<times> stripe_blocks vu \<subseteq> vssd_blocks (vs ! i)"
    "{vu_dev_name vu'} \<times> stripe_blocks vu' \<subseteq> vssd_blocks (vs ! j)"
    using assms(5,6) stripe_blocks_eq [OF ok(1)] stripe_blocks_eq [OF ok(2)]
    by (auto simp: vssd_blocks_def vunits_blocks_def)
  ultimately show ?thesis using stripe_blocks_eq [OF ok(1)] stripe_blocks_eq [OF ok(2)] by blast
qed

theorem remote_stripes_disjoint_witness:
  "\<exists>v v' vu vu' m'. alloc_run manager_alloc sample_manager
      [ocssd_alloc_request_new 2 6 1 0 1, ocssd_alloc_request_new 1 0 0 0 1] = Some ([v, v'], m') \<and>
    v_units v = [vu] \<and> v_units v' = [vu'] \<and>
    ({vu_dev_name vu} \<times> stripe_blocks vu) \<inter> ({vu_dev_name vu'} \<times> stripe_blocks vu') = {}"
proof -
  let ?rqs = "[ocssd_alloc_request_new 2 6 1 0 1, ocssd_alloc_request_new 1 0 0 0 1]"
  obtain vs m' where r: "alloc_run manager_alloc sample_manager ?rqs = Some (vs, m')"
    using manager.run_returns [OF sample_manager_inv] by blast
  have "map_option (\<lambda>(vs, _). map (\<lambda>v. length (v_units v)) vs) (alloc_run manager_alloc sample_manager ?rqs) = Some [1, 1]"
    by code_simp
  then obtain v v' vu vu' where v: "vs = [v, v']" "v_units v = [vu]" "v_units v' = [vu']"
    using r by (auto simp: length_Suc_conv)
  with remote_stripes_disjoint [OF sample_manager_inv r, of 0 1 vu vu'] r show ?thesis by auto
qed

end
